(* ===== verification/Kernel_Prelude.thy ===== *)
theory Kernel_Prelude
  imports Main "HOL-Library.Word" "HOL-Library.Monad_Syntax"
begin

text \<open>
  Shared vocabulary of the development: the kernel's integer types at their width, error
  numbers, bounded reads of byte buffers and the generic list and word facts the component
  theories use.

  Conventions. The kernel is built for i386 (\<open>sandbox.sh\<close>, \<open>ARCH=i386\<close>): \<open>int\<close>,
  \<open>long\<close>, \<open>size_t\<close> and pointers have 32 bits and memory is little endian. An
  unsigned C integer is a word of its width; a signed one is an \<open>int\<close>, obtained from a
  word by \<open>sint\<close> where the C code converts. A C access outside the object it belongs to
  (which C leaves undefined) is the value \<open>None\<close> of an option type, so that memory
  safety is a theorem: the result is \<open>Some\<close>. An error code returned by the code is the
  left summand of a sum type.
\<close>

unbundle bit_operations_syntax

subsection \<open>Integer types and error numbers\<close>

type_synonym u8 = "8 word"
type_synonym u16 = "16 word"
type_synonym u32 = "32 word"
type_synonym u64 = "64 word"

type_synonym errno = int

abbreviation (input) EINTR :: errno where "EINTR \<equiv> 4"
abbreviation (input) ETIME :: errno where "ETIME \<equiv> 62"
abbreviation (input) EPERM :: errno where "EPERM \<equiv> 1"
abbreviation (input) ENOENT :: errno where "ENOENT \<equiv> 2"
abbreviation (input) ENOMEM :: errno where "ENOMEM \<equiv> 12"
abbreviation (input) EFAULT :: errno where "EFAULT \<equiv> 14"
abbreviation (input) EBUSY :: errno where "EBUSY \<equiv> 16"
abbreviation (input) EINVAL :: errno where "EINVAL \<equiv> 22"
abbreviation (input) ERANGE :: errno where "ERANGE \<equiv> 34"

text \<open>The result of an operation on 32-bit signed numbers; \<open>None\<close> is an overflow, which C leaves
  undefined.\<close>

definition s32 :: "int \<Rightarrow> int option" where
  "s32 x = (if - (2 ^ 31) \<le> x \<and> x < 2 ^ 31 then Some x else None)"

subsection \<open>Bounded reads\<close>

text \<open>The \<open>n\<close> bytes at offset \<open>off\<close> of a buffer; \<open>None\<close> when they are not all inside it.\<close>

definition bslice :: "int \<Rightarrow> int \<Rightarrow> 'a list \<Rightarrow> 'a list" where
  "bslice off n bs = take (nat n) (drop (nat off) bs)"

definition rd_bytes :: "'a list \<Rightarrow> int \<Rightarrow> int \<Rightarrow> 'a list option" where
  "rd_bytes bs off n =
     (if 0 \<le> off \<and> 0 \<le> n \<and> off + n \<le> int (length bs) then Some (bslice off n bs) else None)"

lemma rd_bytes_SomeI:
  "0 \<le> off \<Longrightarrow> 0 \<le> n \<Longrightarrow> off + n \<le> int (length bs) \<Longrightarrow> rd_bytes bs off n = Some (bslice off n bs)"
  by (simp add: rd_bytes_def)

lemma length_bslice:
  "0 \<le> off \<Longrightarrow> 0 \<le> n \<Longrightarrow> off + n \<le> int (length bs) \<Longrightarrow> length (bslice off n bs) = nat n"
  by (auto simp: bslice_def)

lemma rd_bytes_length: "rd_bytes bs off n = Some xs \<Longrightarrow> int (length xs) = n"
  by (auto simp: rd_bytes_def length_bslice split: if_splits)

lemma bslice_append_left:
  "0 \<le> off \<Longrightarrow> off + n \<le> int (length xs) \<Longrightarrow> bslice off n (xs @ ys) = bslice off n xs"
  by (auto simp: bslice_def)

lemma bslice_append_right:
  "int (length xs) \<le> off \<Longrightarrow> bslice off n (xs @ ys) = bslice (off - int (length xs)) n ys"
  by (auto simp: bslice_def nat_diff_distrib)

lemma bslice_append_mid:
  "0 \<le> off \<Longrightarrow> off \<le> int (length xs) \<Longrightarrow> int (length xs) \<le> off + n \<Longrightarrow>
   bslice off n (xs @ ys) = bslice off (int (length xs) - off) xs @ bslice 0 (off + n - int (length xs)) ys"
  by (auto simp: bslice_def nat_diff_distrib' nat_add_distrib add.commute)

lemma bslice_to_end: "0 \<le> off \<Longrightarrow> bslice off (int (length xs) - off) xs = drop (nat off) xs"
  by (cases "nat off \<le> length xs") (simp_all add: bslice_def nat_diff_distrib')

lemma bslice_drop:
  "0 \<le> off \<Longrightarrow> 0 \<le> m \<Longrightarrow> bslice off n (drop (nat m) xs) = bslice (m + off) n xs"
  by (simp add: bslice_def nat_add_distrib add.commute)

subsection \<open>Words\<close>

lemma unat_less_u32 [simp]: "unat (x :: u32) < 4294967296"
  using unsigned_less [of x] by simp

lemma sint_small: "uint (x :: u32) < 2 ^ 31 \<Longrightarrow> sint x = uint x"
  by (simp add: sint_uint signed_take_bit_int_eq_self_iff order_trans [OF _ uint_ge_0])

lemma sint_nonneg_iff: "0 \<le> sint (w :: u32) \<longleftrightarrow> unat w < 2 ^ 31"
proof
  assume "0 \<le> sint w"
  then have "\<not> bit (uint w) 31"
    by (simp add: sint_uint)
  moreover have "take_bit 32 (uint w) = uint w"
    by (rule take_bit_int_eq_self) (use unsigned_less [of w] in simp_all)
  ultimately have "sint w = uint w"
    by (simp add: sint_uint signed_take_bit_eq_take_bit_minus)
  moreover have "sint w < 2 ^ 31"
    using sint_lt [of w] by simp
  ultimately show "unat w < 2 ^ 31"
    by (subst of_nat_less_iff [where 'a = int, symmetric]) simp
next
  assume "unat w < 2 ^ 31"
  then have "int (unat w) < 2 ^ 31"
    by (subst (asm) of_nat_less_iff [where 'a = int, symmetric]) simp
  then show "0 \<le> sint w"
    using sint_small [of w] by simp
qed

lemma uint_of_int_u32: "0 \<le> n \<Longrightarrow> n < 2 ^ 32 \<Longrightarrow> uint (word_of_int n :: u32) = n"
  by (simp add: uint_word_of_int)

lemma int_unat: "int (unat w) = uint w"
  by simp

lemma unat_ucast_up:
  "LENGTH('a) \<le> LENGTH('b) \<Longrightarrow> unat (ucast (x :: 'a :: len word) :: 'b :: len word) = unat x"
  by (simp add: unsigned_ucast_eq take_bit_nat_eq_self unsigned_less
      order_less_le_trans [OF unsigned_less power_increasing])

text \<open>Shifts by a variable count, as i386 does them: the count is taken modulo 32.\<close>

definition shl32 :: "u32 \<Rightarrow> u32 \<Rightarrow> u32" where
  "shl32 a x = push_bit (unat (x AND 31)) a"

definition shr32 :: "u32 \<Rightarrow> u32 \<Rightarrow> u32" where
  "shr32 a x = drop_bit (unat (x AND 31)) a"

subsection \<open>Memory copies\<close>

text \<open>Reading \<open>n\<close> bytes of an object at an offset and writing bytes into it.\<close>

definition mem_read :: "'a list \<Rightarrow> nat \<Rightarrow> nat \<Rightarrow> 'a list option" where
  "mem_read bs off n = (if off + n \<le> length bs then Some (take n (drop off bs)) else None)"

definition list_put :: "'a list \<Rightarrow> nat \<Rightarrow> 'a list \<Rightarrow> 'a list" where
  "list_put bs off xs = take off bs @ xs @ drop (off + length xs) bs"

definition mem_write :: "'a list \<Rightarrow> nat \<Rightarrow> 'a list \<Rightarrow> 'a list option" where
  "mem_write bs off xs = (if off + length xs \<le> length bs then Some (list_put bs off xs) else None)"

lemma mem_read_SomeI: "off + n \<le> length bs \<Longrightarrow> mem_read bs off n = Some (take n (drop off bs))"
  by (simp add: mem_read_def)

lemma mem_write_SomeI: "off + length xs \<le> length bs \<Longrightarrow> mem_write bs off xs = Some (list_put bs off xs)"
  by (simp add: mem_write_def)

lemma length_list_put [simp]: "off + length xs \<le> length bs \<Longrightarrow> length (list_put bs off xs) = length bs"
  by (simp add: list_put_def)

lemma list_put_Nil [simp]: "list_put bs off [] = bs"
  by (simp add: list_put_def)

lemma nth_list_put:
  "off + length xs \<le> length bs \<Longrightarrow> i < length bs \<Longrightarrow>
   list_put bs off xs ! i = (if off \<le> i \<and> i < off + length xs then xs ! (i - off) else bs ! i)"
  by (auto simp: list_put_def nth_append min_def)

text \<open>A list of objects of one size, laid out in memory as an array.\<close>

lemma length_concat_const: "(\<forall>x \<in> set xs. length x = e) \<Longrightarrow> length (concat xs) = length xs * e"
  by (induction xs) auto

lemma concat_take_const:
  "(\<forall>x \<in> set xs. length x = e) \<Longrightarrow> i \<le> length xs \<Longrightarrow> length (concat (take i xs)) = i * e"
  using length_concat_const [of "take i xs" e] by (auto dest: in_set_takeD)

lemma mem_read_concat:
  assumes "\<forall>x \<in> set xs. length x = e" and "i < length xs"
  shows "mem_read (concat xs) (i * e) e = Some (xs ! i)"
proof -
  have "concat xs = concat (take i xs) @ xs ! i @ concat (drop (Suc i) xs)"
    using assms(2) by (metis concat.simps(2) concat_append id_take_nth_drop)
  then show ?thesis
    using concat_take_const [OF assms(1), of i] assms by (simp add: mem_read_def)
qed

lemma mem_write_concat:
  assumes "\<forall>x \<in> set xs. length x = e" and "i < length xs" and "length y = e"
  shows "mem_write (concat xs) (i * e) y = Some (concat (xs[i := y]))"
proof -
  have xs: "concat xs = concat (take i xs) @ xs ! i @ concat (drop (Suc i) xs)"
    using assms(2) by (metis concat.simps(2) concat_append id_take_nth_drop)
  then show ?thesis
    using concat_take_const [OF assms(1), of i] assms
    by (simp add: mem_write_def list_put_def upd_conv_take_nth_drop)
qed

lemma list_put_single: "i < length xs \<Longrightarrow> list_put xs i [y] = xs[i := y]"
  by (simp add: list_put_def upd_conv_take_nth_drop)

text \<open>Single elements of an array.\<close>

definition arr_get :: "'a list \<Rightarrow> nat \<Rightarrow> 'a option" where
  "arr_get xs k = (if k < length xs then Some (xs ! k) else None)"

definition arr_set :: "'a list \<Rightarrow> nat \<Rightarrow> 'a \<Rightarrow> 'a list option" where
  "arr_set xs k v = (if k < length xs then Some (xs[k := v]) else None)"

lemma arr_get_SomeI [simp]: "k < length xs \<Longrightarrow> arr_get xs k = Some (xs ! k)"
  by (simp add: arr_get_def)

lemma arr_set_SomeI [simp]: "k < length xs \<Longrightarrow> arr_set xs k v = Some (xs[k := v])"
  by (simp add: arr_set_def)

subsection \<open>Little-endian layout\<close>

definition le_bytes :: "nat \<Rightarrow> 'a::len word \<Rightarrow> u8 list" where
  "le_bytes n w = map (\<lambda>i. ucast (drop_bit (8 * i) w)) [0..<n]"

primrec le_word :: "u8 list \<Rightarrow> 'a::len word" where
  "le_word [] = 0"
| "le_word (b # bs) = ucast b OR push_bit 8 (le_word bs)"

lemma length_le_bytes [simp]: "length (le_bytes n w) = n"
  by (simp add: le_bytes_def)

lemma bit_le_word:
  "bit (le_word bs :: 'a::len word) i \<longleftrightarrow>
     i < LENGTH('a) \<and> i div 8 < length bs \<and> bit (bs ! (i div 8)) (i mod 8)"
proof (induction bs arbitrary: i)
  case Nil
  then show ?case
    by simp
next
  case (Cons b bs)
  show ?case
  proof (cases "i < 8")
    case True
    then show ?thesis
      by (auto simp: bit_simps)
  next
    case False
    then have "i div 8 = Suc ((i - 8) div 8)" "i mod 8 = (i - 8) mod 8"
      by (simp_all add: le_div_geq le_mod_geq)
    then show ?thesis
      using False Cons.IH [of "i - 8"] bit_imp_le_length [of b i] by (auto simp: bit_simps)
  qed
qed

lemma le_word_bytes: "LENGTH('a) = 8 * n \<Longrightarrow> le_word (le_bytes n (w :: 'a::len word)) = w"
  by (rule bit_word_eqI)
    (auto simp: bit_le_word le_bytes_def bit_simps less_mult_imp_div_less mult.commute)

subsection \<open>Step relations\<close>

text \<open>A step relation together with an invariant that every step keeps.\<close>

locale transition_system =
  fixes step :: "'s \<Rightarrow> 's \<Rightarrow> bool" and inv :: "'s \<Rightarrow> bool"
  assumes step_inv: "inv s \<Longrightarrow> step s t \<Longrightarrow> inv t"
begin

lemma reachable_inv: "step\<^sup>*\<^sup>* s t \<Longrightarrow> inv s \<Longrightarrow> inv t"
  by (induction rule: rtranclp_induct) (auto dest: step_inv)

end

text \<open>
  A deterministic machine driven by events: \<open>exec e s\<close> is \<open>None\<close> when the event
  \<open>e\<close> cannot happen in \<open>s\<close>. A run is a list of events, which is how an
  interleaving of the critical sections of several tasks is written down.
\<close>

primrec run_events :: "('e \<Rightarrow> 's \<Rightarrow> 's option) \<Rightarrow> 'e list \<Rightarrow> 's \<Rightarrow> 's option" where
  "run_events exec [] s = Some s"
| "run_events exec (e # es) s = (case exec e s of None \<Rightarrow> None | Some t \<Rightarrow> run_events exec es t)"

locale event_system =
  fixes exec :: "'e \<Rightarrow> 's \<Rightarrow> 's option" and inv :: "'s \<Rightarrow> bool"
  assumes exec_inv: "inv s \<Longrightarrow> exec e s = Some t \<Longrightarrow> inv t"

sublocale event_system \<subseteq> transition_system "\<lambda>s t. \<exists>e. exec e s = Some t" inv
  by unfold_locales (auto intro: exec_inv)

context event_system
begin

lemma run_reachable: "run_events exec es s = Some t \<Longrightarrow> (\<lambda>s t. \<exists>e. exec e s = Some t)\<^sup>*\<^sup>* s t"
  by (induction es arbitrary: s) (auto split: option.splits intro: converse_rtranclp_into_rtranclp)

lemma run_inv: "run_events exec es s = Some t \<Longrightarrow> inv s \<Longrightarrow> inv t"
  using reachable_inv [OF run_reachable] .

end

text \<open>
  Bounded response: a rank that no step raises and every tick lowers, until the goal is reached.
  The goal is then reached within \<open>i + 1\<close> ticks of a state of rank \<open>i\<close>.
\<close>

primrec ticks :: "('e \<Rightarrow> 's \<Rightarrow> 's option) \<Rightarrow> ('e \<Rightarrow> 's \<Rightarrow> bool) \<Rightarrow> 'e list \<Rightarrow> 's \<Rightarrow> nat" where
  "ticks exec tick [] s = 0"
| "ticks exec tick (e # es) s =
     (case exec e s of None \<Rightarrow> 0 | Some t \<Rightarrow> (if tick e s then 1 else 0) + ticks exec tick es t)"

lemma ticks_events:
  "run_events exec es s = Some t \<Longrightarrow> ticks exec (\<lambda>e _. tick e) es s = length (filter tick es)"
  by (induction es arbitrary: s) (auto split: option.splits)

locale bounded_response = event_system exec inv
  for exec :: "'e \<Rightarrow> 's \<Rightarrow> 's option" and inv :: "'s \<Rightarrow> bool" +
  fixes rank :: "nat \<Rightarrow> 's \<Rightarrow> bool" and goal :: "'s \<Rightarrow> bool" and tick :: "'e \<Rightarrow> 's \<Rightarrow> bool"
  assumes rank_step: "inv s \<Longrightarrow> rank i s \<Longrightarrow> exec e s = Some t \<Longrightarrow>
    goal t \<or> (\<exists>j. rank j t \<and> j + (if tick e s then 1 else 0) \<le> i)"
begin

lemma goal_within:
  "run_events exec es s = Some t \<Longrightarrow> inv s \<Longrightarrow> rank i s \<Longrightarrow> i < ticks exec tick es s \<Longrightarrow>
   \<exists>es1 es2 s1. es = es1 @ es2 \<and> run_events exec es1 s = Some s1 \<and> goal s1"
proof (induction es arbitrary: s i)
  case Nil
  then show ?case
    by simp
next
  case (Cons e es)
  then obtain s1 where s1: "exec e s = Some s1" "run_events exec es s1 = Some t"
    by (auto split: option.splits)
  from rank_step [OF Cons.prems(2,3) s1(1)] show ?case
  proof
    assume "goal s1"
    then show ?thesis
      using s1 by (intro exI [of _ "[e]"] exI [of _ es] exI [of _ s1]) simp
  next
    assume "\<exists>j. rank j s1 \<and> j + (if tick e s then 1 else 0) \<le> i"
    then obtain j where "rank j s1" "j < ticks exec tick es s1"
      using Cons.prems(4) s1 by (auto split: if_splits)
    then obtain es1 es2 s2 where "es = es1 @ es2" "run_events exec es1 s1 = Some s2" "goal s2"
      using Cons.IH [OF s1(2) exec_inv [OF Cons.prems(2) s1(1)]] by blast
    then show ?thesis
      using s1 by (intro exI [of _ "e # es1"] exI [of _ es2] exI [of _ s2]) simp
  qed
qed

end

end
