(* ===== verification/Reciprocal.thy ===== *)
theory Reciprocal
  imports Kernel_Prelude
begin

text \<open>
  Reciprocal division: \<open>lib/reciprocal_div.c\<close> and \<open>include/linux/reciprocal_div.h\<close>.
  \<open>reciprocal_value k\<close> is the 32-bit truncation of \<open>(2^32 + (k - 1)) / k\<close>, computed in
  64 bits; \<open>reciprocal_divide a r\<close> is the high word of the 64-bit product. The header
  says that \<open>A / B\<close> is the division by the reciprocal of \<open>B\<close>. The lemmas say how far
  that holds: the quotient is never too small, it is at most one too big, it is exact while
  \<open>A\<close> times the rounding error of the reciprocal stays below \<open>2^32\<close>, and it fails
  for \<open>B = 1\<close>, whose reciprocal does not fit in 32 bits.
\<close>

definition reciprocal_value :: "u32 \<Rightarrow> u32" where
  "reciprocal_value k =
     (let val = (push_bit 32 1 :: u64) + ucast (k - 1) in ucast (val div ucast k))"

definition reciprocal_divide :: "u32 \<Rightarrow> u32 \<Rightarrow> u32" where
  "reciprocal_divide a r = ucast (drop_bit 32 ((ucast a :: u64) * ucast r))"

subsection \<open>The two functions on natural numbers\<close>

lemma unat_reciprocal_value:
  assumes "k \<noteq> 0"
  shows "unat (reciprocal_value k) = (2 ^ 32 + (unat k - 1)) div unat k mod 2 ^ 32"
proof -
  have k: "unat (k - 1) = unat k - 1"
    using assms by (simp add: unat_minus_one)
  have "unat k \<le> 4294967295" using unat_less_u32 [of k] by linarith
  then have "unat ((push_bit 32 1 :: u64) + ucast (k - 1)) = 2 ^ 32 + (unat k - 1)"
    by (simp add: unat_word_ariths unat_ucast_up k)
  then show ?thesis
    by (simp add: reciprocal_value_def unsigned_ucast_eq take_bit_eq_mod [of 32] unat_div Let_def
        unat_ucast_up [of k, where 'b = 64, simplified unsigned_ucast_eq, simplified])
qed

lemma unat_reciprocal_divide:
  "unat (reciprocal_divide a r) = unat a * unat r div 2 ^ 32"
proof -
  have "unat a < 2 ^ 32" "unat r < 2 ^ 32"
    using unsigned_less [of a] unsigned_less [of r] by simp_all
  then have b: "unat a * unat r < 2 ^ 32 * 2 ^ 32" by (intro mult_strict_mono) auto
  then have "unat ((ucast a :: u64) * ucast r) = unat a * unat r"
    by (simp add: unat_word_ariths unat_ucast_up)
  with b show ?thesis
    by (simp add: reciprocal_divide_def unsigned_ucast_eq take_bit_eq_mod drop_bit_eq_div
        unat_div div_less_iff_less_mult)
qed

subsection \<open>The rounding argument\<close>

definition recip_err :: "nat \<Rightarrow> nat" where
  "recip_err k = (2 ^ 32 + (k - 1)) div k * k - 2 ^ 32"

lemma recip_rounding:
  fixes k n :: nat
  assumes "0 < k"
  shows "\<exists>e < k. (n + (k - 1)) div k * k = n + e"
proof -
  let ?m = "(n + (k - 1)) mod k"
  have m: "?m < k" using assms by simp
  have "(n + (k - 1)) div k * k + ?m = n + (k - 1)" by simp
  with m have "(n + (k - 1)) div k * k = n + (k - 1 - ?m)" by linarith
  moreover have "k - 1 - ?m < k" using assms by simp
  ultimately show ?thesis by blast
qed

lemma recip_err_less: "0 < k \<Longrightarrow> recip_err k < k"
  using recip_rounding [of k "2 ^ 32"] by (auto simp: recip_err_def)

lemma recip_err_eq: "0 < k \<Longrightarrow> (2 ^ 32 + (k - 1)) div k * k = 2 ^ 32 + recip_err k"
  using recip_rounding [of k "2 ^ 32"] by (auto simp: recip_err_def)

lemma recip_quotient_le:
  fixes a e k n r :: nat
  assumes "r * k = n + e" "0 < k" "0 < n"
  shows "a div k \<le> a * r div n"
proof -
  have "a div k * k \<le> a" by simp
  then have "a div k * k * n \<le> a * (n + e)" by (meson le_add1 le_trans mult_le_mono mult_le_mono1)
  also have "\<dots> = a * r * k" using assms(1) by (simp add: mult.assoc)
  finally have "a div k * n \<le> a * r" using assms(2)
    by (metis mult.assoc mult.commute mult_le_cancel1 not_gr_zero)
  then show ?thesis using assms(3) by (simp add: less_eq_div_iff_mult_less_eq)
qed

lemma recip_quotient_less:
  fixes a e k n r c d :: nat
  assumes "r * k = n + e" "0 < k" "0 < n" "a * e < c * n" "a mod k + c \<le> k * d"
  shows "a * r div n < a div k + d"
proof -
  have a: "a div k * k + a mod k = a" by simp
  have "a * r * k = a * n + a * e" using assms(1) by (simp add: mult.assoc distrib_left)
  also have "\<dots> < a * n + c * n" using assms(4) by simp
  also have "\<dots> = (a div k * k + (a mod k + c)) * n" using a by (metis add.assoc distrib_right)
  also have "\<dots> \<le> (a div k * k + k * d) * n"
    by (intro mult_le_mono1 add_left_mono) (rule assms(5))
  also have "\<dots> = (a div k + d) * n * k" by (simp add: algebra_simps)
  finally have "a * r < (a div k + d) * n" by (simp add: assms(2))
  then show ?thesis using assms(3) by (simp add: div_less_iff_less_mult)
qed

lemma reciprocal_value_exact:
  assumes "2 \<le> k"
  shows "unat (reciprocal_value k) * unat k = 2 ^ 32 + recip_err (unat k)"
proof -
  have k: "2 \<le> unat k" using assms by (simp add: word_le_nat_alt)
  have "(2 ^ 32 + (unat k - 1)) div unat k < 2 ^ 32"
    using k unsigned_less [of k] by (simp add: div_less_iff_less_mult)
  moreover have "k \<noteq> 0" using assms by auto
  ultimately have "unat (reciprocal_value k) = (2 ^ 32 + (unat k - 1)) div unat k"
    by (simp add: unat_reciprocal_value)
  then show ?thesis using k by (simp only: recip_err_eq)
qed

subsection \<open>Properties\<close>

text \<open>dividing by the reciprocal of any divisor of at least 2 gives the true quotient or the
  true quotient plus one, never less and never more.\<close>

theorem reciprocal_divide_off_by_one:
  assumes "2 \<le> k"
  shows "unat (reciprocal_divide a (reciprocal_value k)) \<in> {unat a div unat k, unat a div unat k + 1}"
proof -
  let ?r = "unat (reciprocal_value k)"
  have k: "2 \<le> unat k" using assms by (simp add: word_le_nat_alt)
  note r = reciprocal_value_exact [OF assms]
  have "unat a * recip_err (unat k) < unat k * 2 ^ 32"
    using recip_err_less [of "unat k"] k
    by (subst mult.commute [of "unat k"]) (intro mult_strict_mono, simp_all)
  moreover have "unat a mod unat k + unat k \<le> unat k * 2" using k by simp
  ultimately have "unat a * ?r div 2 ^ 32 < unat a div unat k + 2"
    using recip_quotient_less [OF r, of "unat a" "unat k" 2] k by simp
  moreover have "unat a div unat k \<le> unat a * ?r div 2 ^ 32"
    using recip_quotient_le [OF r] k by simp
  ultimately show ?thesis by (auto simp: unat_reciprocal_divide)
qed

theorem reciprocal_divide_off_by_one_witness:
  "unat (reciprocal_divide 2147483648 (reciprocal_value 3))
     \<in> {unat (2147483648 :: u32) div unat (3 :: u32), unat (2147483648 :: u32) div unat (3 :: u32) + 1}"
  by (rule reciprocal_divide_off_by_one) simp

text \<open>the reciprocal division is the true division whenever the dividend times the rounding
  error of the reciprocal is below \<open>2^32\<close>; the error is below the divisor, and 0 for a
  power of two.\<close>

theorem reciprocal_divide_exact:
  assumes "2 \<le> k" and "unat a * recip_err (unat k) < 2 ^ 32"
  shows "reciprocal_divide a (reciprocal_value k) = a div k"
proof -
  have k: "2 \<le> unat k" using assms(1) by (simp add: word_le_nat_alt)
  note r = reciprocal_value_exact [OF assms(1)]
  have "unat a mod unat k + 1 \<le> unat k * 1"
    using k by (simp add: Suc_leI)
  then have "unat a * unat (reciprocal_value k) div 2 ^ 32 < unat a div unat k + 1"
    using recip_quotient_less [OF r, of "unat a" 1 1] k assms(2) by simp
  with recip_quotient_le [OF r] k
  have "unat (reciprocal_divide a (reciprocal_value k)) = unat (a div k)"
    by (simp add: unat_reciprocal_divide unat_div le_antisym)
  then show ?thesis by (simp add: word_unat_eq_iff)
qed

theorem reciprocal_divide_exact_witness:
  "reciprocal_divide 1000000 (reciprocal_value 10) = 1000000 div 10"
  by (rule reciprocal_divide_exact) (simp_all add: recip_err_def)

text \<open>the reciprocal of 1 is truncated to 0, so dividing any number by 1 through its
  reciprocal yields 0.\<close>

theorem reciprocal_divide_by_one: "reciprocal_divide a (reciprocal_value 1) = 0"
  by (simp add: reciprocal_value_def reciprocal_divide_def)

end
