(* ===== verification/Skbuff.thy ===== *)
theory Skbuff
  imports Kernel_Prelude
begin

text \<open>
  Socket buffers, as far as the packet filter reads them: \<open>struct sk_buff\<close> and
  \<open>skb_header_pointer\<close> (\<open>include/linux/skbuff.h\<close>), \<open>skb_copy_bits\<close>
  (\<open>net/core/skbuff.c\<close>).

  Pointers are addresses (\<open>int\<close>). \<open>skb_buf\<close> holds the bytes from \<open>head\<close> to \<open>tail\<close>:
  the tail room up to \<open>end\<close> holds no packet data and reading it counts as an access
  outside the buffer. A page fragment is the list of the bytes it contributes (\<open>page\<close>,
  \<open>page_offset\<close> and \<open>size\<close> resolved); \<open>frag_list\<close> is the chain of further
  buffers. \<open>skb_bytes\<close> is the specification: the packet as one flat byte string, and
  the lemmas show that \<open>skb_copy_bits\<close> and \<open>skb_header_pointer\<close> read exactly that string
  however the packet is fragmented.
\<close>

record net_device =
  dev_ifindex :: u32
  dev_type :: u16

datatype sk_buff = Sk_buff
  (skb_head: int)
  (skb_buf: "u8 list")
  (skb_data: int)
  (skb_len: u32)
  (skb_data_len: u32)
  (skb_network_header: int)
  (skb_mac_header: int)
  (skb_protocol: u16)
  (skb_pkt_type: "3 word")
  (skb_dev: "net_device option")
  (skb_mark: u32)
  (skb_queue_mapping: u16)
  (skb_rxhash: u32)
  (skb_frags: "u8 list list")
  (skb_frag_list: "sk_buff list")

definition skb_tail_pointer :: "sk_buff \<Rightarrow> int" where
  "skb_tail_pointer skb = skb_head skb + int (length (skb_buf skb))"

definition skb_headlen :: "sk_buff \<Rightarrow> u32" where
  "skb_headlen skb = skb_len skb - skb_data_len skb"

definition skb_is_nonlinear :: "sk_buff \<Rightarrow> bool" where
  "skb_is_nonlinear skb \<longleftrightarrow> skb_data_len skb \<noteq> 0"

text \<open>The bytes at an address of the linear buffer.\<close>

definition skb_rd :: "sk_buff \<Rightarrow> int \<Rightarrow> int \<Rightarrow> u8 list option" where
  "skb_rd skb ptr n = rd_bytes (skb_buf skb) (ptr - skb_head skb) n"

subsection \<open>Copying bytes out of a buffer\<close>

text \<open>
  The loop over the page fragments of \<open>skb_copy_bits\<close>: \<open>Inl\<close> is the early return with
  everything copied, \<open>Inr\<close> the values of \<open>start\<close>, \<open>offset\<close>, \<open>len\<close> and the
  bytes written so far when the loop ends.
\<close>

fun copy_page_frags ::
  "u8 list list \<Rightarrow> int \<Rightarrow> int \<Rightarrow> int \<Rightarrow> u8 list \<Rightarrow> (u8 list + int \<times> int \<times> int \<times> u8 list) option"
where
  "copy_page_frags [] start offset len to = Some (Inr (start, offset, len, to))"
| "copy_page_frags (f # fs) start offset len to =
     (let e = start + int (length f); copy = e - offset in
      if copy > 0 then
        (let copy = (if copy > len then len else copy) in
         do {
           bs \<leftarrow> rd_bytes f (offset - start) copy;
           if len - copy = 0 then Some (Inl (to @ bs))
           else copy_page_frags fs e (offset + copy) (len - copy) (to @ bs)
         })
      else copy_page_frags fs e offset len to)"

text \<open>The part that copies from the linear data: \<open>Inl\<close> is again the early return.\<close>

definition copy_linear :: "sk_buff \<Rightarrow> int \<Rightarrow> int \<Rightarrow> int \<Rightarrow> (u8 list + int \<times> int \<times> u8 list) option" where
  "copy_linear skb start offset len =
     (let copy = start - offset in
      if copy > 0 then
        (let copy = (if copy > len then len else copy) in
         do {
           bs \<leftarrow> skb_rd skb (skb_data skb + offset) copy;
           Some (if len - copy = 0 then Inl bs else Inr (offset + copy, len - copy, bs))
         })
      else Some (Inr (offset, len, [])))"

fun skb_copy_bits :: "sk_buff \<Rightarrow> int \<Rightarrow> int \<Rightarrow> (errno + u8 list) option"
and copy_frag_list :: "sk_buff list \<Rightarrow> int \<Rightarrow> int \<Rightarrow> int \<Rightarrow> u8 list \<Rightarrow> (errno + u8 list) option"
where
  "skb_copy_bits (Sk_buff hd' buf da len dlen nh mh proto pt dev mark qm rxh frags fl) offset n =
     (let skb = Sk_buff hd' buf da len dlen nh mh proto pt dev mark qm rxh frags fl;
          start = sint (skb_headlen skb) in
      if offset > sint len - n then Some (Inl (- EFAULT))
      else do {
        r \<leftarrow> copy_linear skb start offset n;
        case r of Inl bs \<Rightarrow> Some (Inr bs)
        | Inr (offset, n, to) \<Rightarrow> do {
            q \<leftarrow> copy_page_frags frags start offset n to;
            case q of Inl bs \<Rightarrow> Some (Inr bs)
            | Inr (start, offset, n, to) \<Rightarrow> copy_frag_list fl start offset n to
          }
      })"
| "copy_frag_list [] start offset len to =
     (if len = 0 then Some (Inr to) else Some (Inl (- EFAULT)))"
| "copy_frag_list (s # ss) start offset len to =
     (let e = start + sint (skb_len s); copy = e - offset in
      if copy > 0 then
        (let copy = (if copy > len then len else copy) in
         do {
           r \<leftarrow> skb_copy_bits s (offset - start) copy;
           case r of Inl _ \<Rightarrow> Some (Inl (- EFAULT))
           | Inr bs \<Rightarrow>
               if len - copy = 0 then Some (Inr (to @ bs))
               else copy_frag_list ss e (offset + copy) (len - copy) (to @ bs)
         })
      else copy_frag_list ss e offset len to)"

text \<open>
  \<open>skb_header_pointer\<close> returns a pointer into the linear data, or to the caller's buffer
  filled by \<open>skb_copy_bits\<close>, or NULL. The pointer is represented by the \<open>n\<close> bytes found
  there, NULL by the inner \<open>None\<close>.
\<close>

definition skb_header_pointer :: "sk_buff \<Rightarrow> int \<Rightarrow> int \<Rightarrow> u8 list option option" where
  "skb_header_pointer skb offset n =
     (let hlen = sint (skb_headlen skb) in
      if hlen - offset \<ge> n then map_option Some (skb_rd skb (skb_data skb + offset) n)
      else do {
        r \<leftarrow> skb_copy_bits skb offset n;
        Some (case r of Inl _ \<Rightarrow> None | Inr bs \<Rightarrow> Some bs)
      })"

subsection \<open>The packet as one byte string\<close>

fun skb_bytes :: "sk_buff \<Rightarrow> u8 list" where
  "skb_bytes (Sk_buff hd' buf da len dlen nh mh proto pt dev mark qm rxh frags fl) =
     drop (nat (da - hd')) buf @ concat frags @ concat (map skb_bytes fl)"

fun wf_skb :: "sk_buff \<Rightarrow> bool" where
  "wf_skb (Sk_buff hd' buf da len dlen nh mh proto pt dev mark qm rxh frags fl) \<longleftrightarrow>
     hd' \<le> da \<and> da \<le> hd' + int (length buf) \<and> uint len < 2 ^ 31 \<and>
     uint dlen = int (length (concat frags @ concat (map skb_bytes fl))) \<and>
     uint len = hd' + int (length buf) - da + uint dlen \<and>
     (\<forall>s \<in> set fl. wf_skb s)"

lemma wf_skb_len: "wf_skb skb \<Longrightarrow> sint (skb_len skb) = int (length (skb_bytes skb))"
  by (cases skb) (auto simp: sint_small)

lemma wf_skb_headlen:
  assumes "wf_skb skb"
  shows "sint (skb_headlen skb) = skb_tail_pointer skb - skb_data skb"
proof (cases skb)
  case (Sk_buff hd' buf da len dlen nh mh proto pt dev mark qm rxh frags fl)
  with assms have *: "uint dlen \<le> uint len" "uint len < 2 ^ 31" "uint len - uint dlen = hd' + int (length buf) - da"
    by auto
  then have "uint (len - dlen) = uint len - uint dlen" by (simp add: uint_sub_lem)
  moreover have "uint len - uint dlen < 2 ^ 31" using * uint_ge_0 [of dlen] by linarith
  ultimately have "sint (len - dlen) = hd' + int (length buf) - da"
    using * by (simp add: sint_small)
  then show ?thesis by (simp add: Sk_buff skb_headlen_def skb_tail_pointer_def)
qed

lemma copy_page_frags_all:
  assumes "start \<le> offset" "0 < n" "offset - start + n \<le> int (length (concat fs))"
  shows "copy_page_frags fs start offset n to = Some (Inl (to @ bslice (offset - start) n (concat fs)))"
  using assms
proof (induction fs arbitrary: start offset n to)
  case Nil
  then show ?case by simp
next
  case (Cons f fs)
  let ?e = "start + int (length f)"
  consider "?e \<le> offset" | "offset < ?e" "offset + n \<le> ?e" | "offset < ?e" "?e < offset + n" by linarith
  then show ?case
  proof cases
    case 1
    with Cons.IH [of ?e offset n to] Cons.prems show ?thesis
      by (simp add: bslice_append_right algebra_simps)
  next
    case 2
    with Cons.prems show ?thesis
      by (auto simp: Let_def rd_bytes_SomeI bslice_append_left)
  next
    case 3
    with Cons.IH [of ?e ?e "offset + n - ?e"] Cons.prems show ?thesis
      by (simp add: Let_def rd_bytes_SomeI bslice_append_mid algebra_simps)
  qed
qed

lemma copy_page_frags_some:
  assumes "start \<le> offset" "0 < n" "int (length (concat fs)) < offset - start + n"
  shows "copy_page_frags fs start offset n to =
    (let e = start + int (length (concat fs)); m = max offset e in
     Some (Inr (e, m, offset + n - m, to @ drop (nat (offset - start)) (concat fs))))"
  using assms
proof (induction fs arbitrary: start offset n to)
  case Nil
  then show ?case by simp
next
  case (Cons f fs)
  let ?e = "start + int (length f)"
  consider "?e \<le> offset" | "offset < ?e" by linarith
  then show ?case
  proof cases
    case 1
    then have "nat (offset - ?e) = nat (offset - start) - length f" by simp
    with 1 Cons.IH [of ?e offset n to] Cons.prems show ?thesis
      by (simp add: Let_def algebra_simps)
  next
    case 2
    with Cons.prems have "bslice (offset - start) (?e - offset) f = drop (nat (offset - start)) f"
      by (simp add: bslice_def)
    with 2 Cons.IH [of ?e ?e "offset + n - ?e"] Cons.prems show ?thesis
      by (simp add: Let_def rd_bytes_SomeI algebra_simps)
  qed
qed

definition copy_spec :: "sk_buff \<Rightarrow> int \<Rightarrow> int \<Rightarrow> errno + u8 list" where
  "copy_spec skb offset n =
     (if offset + n \<le> int (length (skb_bytes skb)) then Inr (bslice offset n (skb_bytes skb))
      else Inl (- EFAULT))"

lemma copy_frag_list_spec:
  assumes "\<And>s off m. s \<in> set fl \<Longrightarrow> 0 \<le> off \<Longrightarrow> 0 < m \<Longrightarrow> skb_copy_bits s off m = Some (copy_spec s off m)"
    and "\<forall>s \<in> set fl. wf_skb s"
    and "start \<le> offset" "0 < n" "offset - start + n \<le> int (length (concat (map skb_bytes fl)))"
  shows "copy_frag_list fl start offset n to =
    Some (Inr (to @ bslice (offset - start) n (concat (map skb_bytes fl))))"
  using assms
proof (induction fl arbitrary: start offset n to)
  case Nil
  then show ?case by simp
next
  case (Cons f fs)
  let ?e = "start + int (length (skb_bytes f))"
  have len: "sint (skb_len f) = int (length (skb_bytes f))"
    using Cons.prems(2) by (simp add: wf_skb_len)
  consider "?e \<le> offset" | "offset < ?e" "offset + n \<le> ?e" | "offset < ?e" "?e < offset + n" by linarith
  then show ?case
  proof cases
    case 1
    with Cons.IH [of ?e offset n to] Cons.prems show ?thesis
      by (simp add: len bslice_append_right algebra_simps)
  next
    case 2
    with Cons.prems show ?thesis
      by (cases "n = ?e - offset") (auto simp: len Let_def copy_spec_def bslice_append_left)
  next
    case 3
    with Cons.IH [of ?e ?e "offset + n - ?e"] Cons.prems show ?thesis
      by (simp add: len Let_def copy_spec_def bslice_append_mid algebra_simps)
  qed
qed

lemma copy_fragments_spec:
  assumes IH: "\<And>s off m. s \<in> set fl \<Longrightarrow> 0 \<le> off \<Longrightarrow> 0 < m \<Longrightarrow> skb_copy_bits s off m = Some (copy_spec s off m)"
    and wfl: "\<forall>s \<in> set fl. wf_skb s"
    and off: "h \<le> off" "0 < m" "off - h + m \<le> int (length (concat frags @ concat (map skb_bytes fl)))"
  shows "do {
      q \<leftarrow> copy_page_frags frags h off m to;
      case q of Inl bs \<Rightarrow> Some (Inr bs)
      | Inr (start, offset, n, to) \<Rightarrow> copy_frag_list fl start offset n to
    } = Some (Inr (to @ bslice (off - h) m (concat frags @ concat (map skb_bytes fl))))"
proof -
  let ?fb = "concat frags"
  let ?e = "h + int (length ?fb)"
  consider "off - h + m \<le> int (length ?fb)" | "int (length ?fb) < off - h + m" "?e \<le> off"
    | "int (length ?fb) < off - h + m" "off < ?e" by linarith
  then show ?thesis
  proof cases
    case 1
    with off show ?thesis by (simp add: copy_page_frags_all bslice_append_left)
  next
    case 2
    with off copy_frag_list_spec [OF IH wfl, of ?e off m to] show ?thesis
      by (simp add: copy_page_frags_some bslice_append_right Let_def max_def algebra_simps)
  next
    case 3
    with off have "bslice (off - h) (int (length ?fb) - (off - h)) ?fb = drop (nat (off - h)) ?fb"
      by (simp add: bslice_to_end)
    with 3 off copy_frag_list_spec [OF IH wfl, of ?e ?e "off + m - ?e" "to @ drop (nat (off - h)) ?fb"]
    show ?thesis
      by (simp add: copy_page_frags_some bslice_append_mid Let_def max_def algebra_simps)
  qed
qed

lemma skb_rd_linear:
  assumes "wf_skb skb" "0 \<le> offset" "0 \<le> n" "offset + n \<le> sint (skb_headlen skb)"
  shows "skb_rd skb (skb_data skb + offset) n = Some (bslice offset n (skb_bytes skb))"
proof (cases skb)
  case (Sk_buff hd' buf da len dlen nh mh proto pt dev mark qm rxh frags fl)
  let ?lin = "drop (nat (da - hd')) buf"
  have le: "hd' \<le> da" "offset + n \<le> hd' + int (length buf) - da" "da \<le> hd' + int (length buf)"
    using assms by (auto simp: Sk_buff wf_skb_headlen [unfolded Sk_buff] skb_tail_pointer_def)
  then have "int (length ?lin) = hd' + int (length buf) - da" by simp
  then have "bslice offset n (skb_bytes skb) = bslice offset n ?lin"
    using le assms by (simp add: Sk_buff bslice_append_left)
  then show ?thesis using assms le
    by (simp add: Sk_buff skb_rd_def rd_bytes_SomeI bslice_drop algebra_simps)
qed

lemma copy_linear_spec:
  assumes "wf_skb skb" "0 \<le> offset" "0 < n"
  defines "h \<equiv> sint (skb_headlen skb)"
  shows "copy_linear skb h offset n =
    Some (if offset + n \<le> h then Inl (bslice offset n (skb_bytes skb))
          else if h \<le> offset then Inr (offset, n, [])
          else Inr (h, offset + n - h, bslice offset (h - offset) (skb_bytes skb)))"
proof -
  have rd: "skb_rd skb (skb_data skb + offset) m = Some (bslice offset m (skb_bytes skb))"
    if "0 \<le> m" "offset + m \<le> h" for m
    using skb_rd_linear [OF assms(1,2) that(1)] that(2) by (simp add: h_def)
  consider "h \<le> offset" | "offset + n < h" | "offset + n = h" | "offset < h" "h < offset + n"
    by linarith
  then show ?thesis
    using assms(3) rd [of n] rd [of "h - offset"]
    by cases (auto simp: copy_linear_def Let_def)
qed

lemma skb_bytes_parts:
  assumes "wf_skb skb"
  shows "\<exists>lin. int (length lin) = sint (skb_headlen skb) \<and>
    skb_bytes skb = lin @ concat (skb_frags skb) @ concat (map skb_bytes (skb_frag_list skb))"
proof (cases skb)
  case (Sk_buff hd' buf da len dlen nh mh proto pt dev mark qm rxh frags fl)
  then show ?thesis using assms wf_skb_headlen [OF assms]
    by (intro exI [of _ "drop (nat (da - hd')) buf"]) (auto simp: skb_tail_pointer_def)
qed

lemma skb_copy_bits_eq:
  "skb_copy_bits skb offset n =
     (let start = sint (skb_headlen skb) in
      if offset > sint (skb_len skb) - n then Some (Inl (- EFAULT))
      else do {
        r \<leftarrow> copy_linear skb start offset n;
        case r of Inl bs \<Rightarrow> Some (Inr bs)
        | Inr (offset, n, to) \<Rightarrow> do {
            q \<leftarrow> copy_page_frags (skb_frags skb) start offset n to;
            case q of Inl bs \<Rightarrow> Some (Inr bs)
            | Inr (start, offset, n, to) \<Rightarrow> copy_frag_list (skb_frag_list skb) start offset n to
          }
      })"
  by (cases skb) (simp add: Let_def)

lemma skb_copy_bits_spec:
  "wf_skb skb \<Longrightarrow> 0 \<le> offset \<Longrightarrow> 0 < n \<Longrightarrow>
   skb_copy_bits skb offset n = Some (copy_spec skb offset n)"
proof (induction skb arbitrary: offset n rule: measure_induct_rule [where f = size])
  case (less skb)
  let ?H = "sint (skb_headlen skb)" and ?fl = "skb_frag_list skb"
  have wfl: "\<forall>s \<in> set ?fl. wf_skb s" using less.prems(1) by (cases skb) simp
  have "size s < size skb" if "s \<in> set ?fl" for s
    using that by (cases skb) (simp add: size_list_estimation' less_Suc_eq_le trans_le_add2)
  with less.IH wfl
  have IH: "\<And>s off m. s \<in> set ?fl \<Longrightarrow> 0 \<le> off \<Longrightarrow> 0 < m \<Longrightarrow> skb_copy_bits s off m = Some (copy_spec s off m)"
    by simp
  obtain lin where lin: "int (length lin) = ?H"
      "skb_bytes skb = lin @ concat (skb_frags skb) @ concat (map skb_bytes ?fl)"
    using skb_bytes_parts [OF less.prems(1)] by blast
  note frags = copy_fragments_spec [OF IH wfl, of ?H, where frags = "skb_frags skb"]
  consider "int (length (skb_bytes skb)) < offset + n"
    | "offset + n \<le> ?H" "offset + n \<le> int (length (skb_bytes skb))"
    | "?H \<le> offset" "offset + n \<le> int (length (skb_bytes skb))"
    | "offset < ?H" "?H < offset + n" "offset + n \<le> int (length (skb_bytes skb))" by linarith
  then show ?case
    using less.prems lin frags [of offset n "[]"]
      frags [of ?H "offset + n - ?H" "bslice offset (?H - offset) lin"]
    by cases (simp_all add: skb_copy_bits_eq copy_spec_def wf_skb_len copy_linear_spec Let_def
        bslice_append_right bslice_append_left bslice_append_mid)
qed

lemma copy_spec_header_pointer:
  "(case copy_spec skb offset n of Inl _ \<Rightarrow> None | Inr bs \<Rightarrow> Some bs) =
   (if offset + n \<le> int (length (skb_bytes skb)) then Some (bslice offset n (skb_bytes skb)) else None)"
  by (simp add: copy_spec_def)

lemma skb_header_pointer_spec:
  assumes "wf_skb skb" "0 \<le> offset" "0 < n"
  shows "skb_header_pointer skb offset n =
    Some (if offset + n \<le> sint (skb_len skb) then Some (bslice offset n (skb_bytes skb)) else None)"
proof (cases "sint (skb_headlen skb) - offset \<ge> n")
  case True
  obtain lin where "int (length lin) = sint (skb_headlen skb)"
      "skb_bytes skb = lin @ concat (skb_frags skb) @ concat (map skb_bytes (skb_frag_list skb))"
    using skb_bytes_parts [OF assms(1)] by blast
  then have "sint (skb_headlen skb) \<le> int (length (skb_bytes skb))" by simp
  with True assms show ?thesis
    by (simp add: skb_header_pointer_def skb_rd_linear wf_skb_len)
next
  case False
  with assms show ?thesis
    by (simp add: skb_header_pointer_def skb_copy_bits_spec copy_spec_header_pointer wf_skb_len)
qed

text \<open>A packet of nine bytes: two of head room and two in the linear part, three in two page
  fragments, four in a chained buffer.\<close>

definition sample_skb :: sk_buff where
  "sample_skb =
     Sk_buff 4096 [0, 0, 10, 11] 4098 9 7 4098 4096 8 0 None 0 0 0 [[12], [13, 14]]
       [Sk_buff 8192 [15, 16, 17, 18] 8192 4 0 0 0 8 0 None 0 0 0 [] []]"

lemma wf_sample_skb: "wf_skb sample_skb"
  by (simp add: sample_skb_def)

text \<open>C6: on a well-formed buffer, \<open>skb_header_pointer\<close> never reads outside the buffer, and what
  it yields is the requested range of the flat packet, or NULL exactly when the range runs past
  the packet's length, whether the range lies in the linear data, in page fragments, in the
  fragment list or across them.\<close>

theorem skb_header_pointer_flat:
  assumes "wf_skb skb" "0 \<le> offset" "0 < n"
  shows "skb_header_pointer skb offset n =
    Some (if offset + n \<le> sint (skb_len skb) then Some (bslice offset n (skb_bytes skb)) else None)"
  using assms by (rule skb_header_pointer_spec)

theorem skb_header_pointer_flat_witness:
  "skb_header_pointer sample_skb 1 6 =
     Some (if 1 + 6 \<le> sint (skb_len sample_skb) then Some (bslice 1 6 (skb_bytes sample_skb)) else None)
   \<and> bslice 1 6 (skb_bytes sample_skb) = [11, 12, 13, 14, 15, 16]"
  using skb_header_pointer_flat [OF wf_sample_skb, of 1 6]
  by (simp add: sample_skb_def bslice_def)

end
