(* ===== verification/Nlattr.thy ===== *)
theory Nlattr
  imports Kernel_Prelude
begin

text \<open>
  Netlink attributes: \<open>struct nlattr\<close>, \<open>nla_ok\<close>, \<open>nla_next\<close>, \<open>nla_find_nested\<close>
  (\<open>include/linux/netlink.h\<close>, \<open>include/net/netlink.h\<close>) and \<open>nla_find\<close>
  (\<open>lib/nlattr.c\<close>). An attribute is an offset into a byte buffer; its two 16-bit fields are read
  in little-endian order, and a read outside the buffer is \<open>None\<close>.
\<close>

definition rd_u16 :: "u8 list \<Rightarrow> int \<Rightarrow> int option" where
  "rd_u16 bs pos =
     map_option (\<lambda>xs. uint (xs ! 0) + 256 * uint (xs ! 1)) (rd_bytes bs pos 2)"

definition nla_len_field :: "u8 list \<Rightarrow> int \<Rightarrow> int option" where
  "nla_len_field bs nla = rd_u16 bs nla"

text \<open>\<open>nla_type\<close> masks the two flag bits: 14 bits remain.\<close>

definition nla_type :: "u8 list \<Rightarrow> int \<Rightarrow> int option" where
  "nla_type bs nla = map_option (\<lambda>t. t mod 2 ^ 14) (rd_u16 bs (nla + 2))"

definition NLA_ALIGN :: "int \<Rightarrow> int" where
  "NLA_ALIGN len = (len + 3) div 4 * 4"

abbreviation (input) NLA_HDRLEN :: int where "NLA_HDRLEN \<equiv> 4"

definition nla_ok :: "u8 list \<Rightarrow> int \<Rightarrow> int \<Rightarrow> bool option" where
  "nla_ok bs nla remaining =
     (if remaining \<ge> 4 then
        map_option (\<lambda>l. l \<ge> 4 \<and> l \<le> remaining) (nla_len_field bs nla)
      else Some False)"

definition nla_next :: "u8 list \<Rightarrow> int \<Rightarrow> int \<Rightarrow> (int \<times> int) option" where
  "nla_next bs nla remaining =
     map_option (\<lambda>l. (nla + NLA_ALIGN l, remaining - NLA_ALIGN l)) (nla_len_field bs nla)"

lemma nla_ok_next_decreases:
  "nla_ok bs nla rem = Some True \<Longrightarrow> nla_next bs nla rem = Some (nla', rem') \<Longrightarrow> 0 < rem \<and> rem' < rem"
  by (auto simp: nla_ok_def nla_next_def NLA_ALIGN_def split: if_splits)

text \<open>The loop \<open>nla_for_each_attr\<close> of \<open>nla_find\<close>; \<open>Some None\<close> is the NULL result.\<close>

function nla_find :: "u8 list \<Rightarrow> int \<Rightarrow> int \<Rightarrow> int \<Rightarrow> int option option" where
  "nla_find bs nla rem attrtype =
     (case nla_ok bs nla rem of
        None \<Rightarrow> None
      | Some ok \<Rightarrow>
          if \<not> ok then Some None
          else (case nla_type bs nla of
             None \<Rightarrow> None
           | Some t \<Rightarrow>
               if t = attrtype then Some (Some nla)
               else (case nla_next bs nla rem of
                       None \<Rightarrow> None
                     | Some (nla', rem') \<Rightarrow> nla_find bs nla' rem' attrtype)))"
  by pat_completeness auto
termination
  by (relation "measure (\<lambda>(bs, nla, rem, attrtype). nat rem)") (auto dest: nla_ok_next_decreases)

declare nla_find.simps [simp del]

definition nla_find_nested :: "u8 list \<Rightarrow> int \<Rightarrow> int \<Rightarrow> int option option" where
  "nla_find_nested bs nla attrtype = do {
     l \<leftarrow> nla_len_field bs nla;
     nla_find bs (nla + NLA_HDRLEN) (l - NLA_HDRLEN) attrtype
   }"

subsection \<open>Searching inside the buffer\<close>

lemma rd_u16_Some:
  "0 \<le> pos \<Longrightarrow> pos + 2 \<le> int (length bs) \<Longrightarrow> \<exists>v. rd_u16 bs pos = Some v"
  by (simp add: rd_u16_def rd_bytes_SomeI)

lemma rd_u16_bound: "rd_u16 bs pos = Some v \<Longrightarrow> 0 \<le> v \<and> v < 65536"
proof -
  assume "rd_u16 bs pos = Some v"
  then obtain xs :: "u8 list" where v: "v = uint (xs ! 0) + 256 * uint (xs ! 1)"
    by (auto simp: rd_u16_def)
  have "uint (xs ! 0) < 256" "uint (xs ! 1) < 256"
    using uint_lt2p [of "xs ! 0"] uint_lt2p [of "xs ! 1"] by simp_all
  then show ?thesis using v by simp
qed

text \<open>
  A search that starts with its whole range inside the buffer stays inside: it ends without a
  read outside the buffer, and a found attribute lies in the range.
\<close>

lemma nla_find_in_range:
  assumes "0 \<le> nla" "nla + rem \<le> int (length bs)"
  shows "\<exists>r. nla_find bs nla rem t = Some r \<and> (\<forall>p. r = Some p \<longrightarrow> nla \<le> p \<and> p + 4 \<le> int (length bs))"
  using assms
proof (induction bs nla rem t rule: nla_find.induct)
  case (1 bs nla rem t)
  show ?case
  proof (cases "4 \<le> rem")
    case False
    then show ?thesis by (simp add: nla_find.simps [of bs nla rem t] nla_ok_def)
  next
    case True
    obtain l where l: "nla_len_field bs nla = Some l"
      using rd_u16_Some [of nla bs] 1 True by (auto simp: nla_len_field_def)
    obtain ty where ty: "nla_type bs nla = Some ty"
      using rd_u16_Some [of "nla + 2" bs] 1 True by (auto simp: nla_type_def)
    show ?thesis
    proof (cases "4 \<le> l \<and> l \<le> rem \<and> ty \<noteq> t")
      case False
      with True l ty 1 show ?thesis by (auto simp: nla_find.simps [of bs nla rem t] nla_ok_def)
    next
      case go: True
      then have "4 \<le> NLA_ALIGN l" unfolding NLA_ALIGN_def by presburger
      moreover have ok: "nla_ok bs nla rem = Some True" using True l go by (simp add: nla_ok_def)
      moreover have "nla_next bs nla rem = Some (nla + NLA_ALIGN l, rem - NLA_ALIGN l)"
        using l by (simp add: nla_next_def)
      ultimately show ?thesis
        using 1(1) [OF ok _ ty] go 1(2,3) ty
        by (fastforce simp: nla_find.simps [of bs nla rem t])
    qed
  qed
qed

end
