(* ===== verification/Bpf_Filter.thy ===== *)
theory Bpf_Filter
  imports Reciprocal Skbuff Nlattr
begin

text \<open>
  The socket filter (Berkeley packet filter) of \<open>net/core/filter.c\<close>, with the
  structures of \<open>include/linux/filter.h\<close>: the interpreter \<open>sk_run_filter\<close>, the checker
  \<open>sk_chk_filter\<close> with \<open>check_load_and_stores\<close>, and attaching a filter to a socket.

  \<open>struct sock_filter\<close> is a record over the type of its \<open>code\<close> field: user programs
  carry 16-bit opcodes, checked programs the internal opcodes that \<open>sk_chk_filter\<close> writes over
  them. The constructor \<open>BPF_S_INVALID\<close> stands for the value 0 of \<open>codes[]\<close>, which is
  no opcode, and makes the interpreter take its \<open>default\<close> branch.

  Outcome \<open>None\<close> of the interpreter is an access outside the program, the scratch memory, the
  packet, or a read of a scratch cell never written (the array is not initialised). Shifts by
  32 or more are what i386's \<open>shl\<close>/\<open>shr\<close> do: the count is taken modulo 32.
\<close>

datatype bpf_s =
    BPF_S_INVALID
  | BPF_S_RET_K | BPF_S_RET_A
  | BPF_S_ALU_ADD_K | BPF_S_ALU_ADD_X | BPF_S_ALU_SUB_K | BPF_S_ALU_SUB_X
  | BPF_S_ALU_MUL_K | BPF_S_ALU_MUL_X | BPF_S_ALU_DIV_X
  | BPF_S_ALU_AND_K | BPF_S_ALU_AND_X | BPF_S_ALU_OR_K | BPF_S_ALU_OR_X
  | BPF_S_ALU_LSH_K | BPF_S_ALU_LSH_X | BPF_S_ALU_RSH_K | BPF_S_ALU_RSH_X | BPF_S_ALU_NEG
  | BPF_S_LD_W_ABS | BPF_S_LD_H_ABS | BPF_S_LD_B_ABS | BPF_S_LD_W_LEN
  | BPF_S_LD_W_IND | BPF_S_LD_H_IND | BPF_S_LD_B_IND | BPF_S_LD_IMM
  | BPF_S_LDX_W_LEN | BPF_S_LDX_B_MSH | BPF_S_LDX_IMM
  | BPF_S_MISC_TAX | BPF_S_MISC_TXA | BPF_S_ALU_DIV_K
  | BPF_S_LD_MEM | BPF_S_LDX_MEM | BPF_S_ST | BPF_S_STX
  | BPF_S_JMP_JA | BPF_S_JMP_JEQ_K | BPF_S_JMP_JEQ_X | BPF_S_JMP_JGE_K | BPF_S_JMP_JGE_X
  | BPF_S_JMP_JGT_K | BPF_S_JMP_JGT_X | BPF_S_JMP_JSET_K | BPF_S_JMP_JSET_X
  | BPF_S_ANC_PROTOCOL | BPF_S_ANC_PKTTYPE | BPF_S_ANC_IFINDEX
  | BPF_S_ANC_NLATTR | BPF_S_ANC_NLATTR_NEST | BPF_S_ANC_MARK | BPF_S_ANC_QUEUE
  | BPF_S_ANC_HATYPE | BPF_S_ANC_RXHASH | BPF_S_ANC_CPU

record 'c sock_filter =
  sf_code :: 'c
  sf_jt :: u8
  sf_jf :: u8
  sf_k :: u32

abbreviation (input) BPF_MAXINSNS :: int where "BPF_MAXINSNS \<equiv> 4096"
abbreviation (input) BPF_MEMWORDS :: nat where "BPF_MEMWORDS \<equiv> 16"
abbreviation (input) SKF_AD_OFF :: int where "SKF_AD_OFF \<equiv> - 0x1000"
abbreviation (input) SKF_NET_OFF :: int where "SKF_NET_OFF \<equiv> - 0x100000"
abbreviation (input) SKF_LL_OFF :: int where "SKF_LL_OFF \<equiv> - 0x200000"

subsection \<open>Loads from the packet\<close>

definition neg_load_pointer :: "sk_buff \<Rightarrow> int \<Rightarrow> int \<Rightarrow> u8 list option option" where
  "neg_load_pointer skb k sz =
     (let ptr = (if k \<ge> SKF_NET_OFF then skb_network_header skb + k - SKF_NET_OFF
                 else if k \<ge> SKF_LL_OFF then skb_mac_header skb + k - SKF_LL_OFF
                 else 0) in
      if ptr \<ge> skb_head skb \<and> ptr + sz \<le> skb_tail_pointer skb
      then map_option Some (skb_rd skb ptr sz) else Some None)"

definition load_pointer :: "sk_buff \<Rightarrow> int \<Rightarrow> int \<Rightarrow> u8 list option option" where
  "load_pointer skb k sz =
     (if k \<ge> 0 then skb_header_pointer skb k sz else neg_load_pointer skb k sz)"

text \<open>\<open>get_unaligned_be32\<close>, \<open>get_unaligned_be16\<close> and a byte read: big-endian bytes.\<close>

definition get_be :: "u8 list \<Rightarrow> u32" where
  "get_be bs = foldl (\<lambda>v b. push_bit 8 v OR ucast b) 0 bs"

definition ntohs :: "u16 \<Rightarrow> u16" where
  "ntohs x = push_bit 8 x OR drop_bit 8 x"

subsection \<open>One instruction\<close>

record bpf_regs =
  rA :: u32
  rX :: u32
  rmem :: "u32 option list"

text \<open>\<open>Cont d r\<close>: go on \<open>d\<close> entries further than the next one; \<open>Ret v\<close>: return.\<close>

datatype bpf_out = Cont nat bpf_regs | Ret u32

definition bpf_branch :: "bpf_s sock_filter \<Rightarrow> bpf_regs \<Rightarrow> bool \<Rightarrow> bpf_out option" where
  "bpf_branch f r c = Some (Cont (if c then unat (sf_jt f) else unat (sf_jf f)) r)"

definition bpf_load :: "sk_buff \<Rightarrow> int \<Rightarrow> int \<Rightarrow> (u32 \<Rightarrow> bpf_regs) \<Rightarrow> bpf_out option" where
  "bpf_load skb k sz upd =
     map_option (\<lambda>p. case p of Some bs \<Rightarrow> Cont 0 (upd (get_be bs)) | None \<Rightarrow> Ret 0)
       (load_pointer skb k sz)"

text \<open>The linear data of the packet, from \<open>skb->data\<close> on.\<close>

definition skb_linear :: "sk_buff \<Rightarrow> u8 list" where
  "skb_linear skb = drop (nat (skb_data skb - skb_head skb)) (skb_buf skb)"

definition bpf_nlattr :: "sk_buff \<Rightarrow> bpf_regs \<Rightarrow> bpf_out option" where
  "bpf_nlattr skb r =
     (if skb_is_nonlinear skb then Some (Ret 0)
      else if rA r > skb_len skb - 4 then Some (Ret 0)
      else map_option
        (\<lambda>p. Cont 0 (r\<lparr>rA := case p of Some pos \<Rightarrow> word_of_int pos | None \<Rightarrow> 0\<rparr>))
        (nla_find (skb_linear skb) (uint (rA r)) (sint (skb_len skb - rA r)) (sint (rX r))))"

definition bpf_nlattr_nest :: "sk_buff \<Rightarrow> bpf_regs \<Rightarrow> bpf_out option" where
  "bpf_nlattr_nest skb r =
     (if skb_is_nonlinear skb then Some (Ret 0)
      else if rA r > skb_len skb - 4 then Some (Ret 0)
      else do {
        l \<leftarrow> nla_len_field (skb_linear skb) (uint (rA r));
        if l > uint (rA r - skb_len skb) then Some (Ret 0)
        else map_option
          (\<lambda>p. Cont 0 (r\<lparr>rA := case p of Some pos \<Rightarrow> word_of_int pos | None \<Rightarrow> 0\<rparr>))
          (nla_find_nested (skb_linear skb) (uint (rA r)) (sint (rX r)))
      })"

definition mem_rd :: "u32 option list \<Rightarrow> u32 \<Rightarrow> u32 option" where
  "mem_rd m i = (if unat i < length m then m ! unat i else None)"

definition mem_wr :: "u32 option list \<Rightarrow> u32 \<Rightarrow> u32 \<Rightarrow> u32 option list option" where
  "mem_wr m i v = (if unat i < length m then Some (m[unat i := Some v]) else None)"

text \<open>
  The body of the \<open>switch\<close>; \<open>cpu\<close> is the value of \<open>raw_smp_processor_id()\<close>.
\<close>

primrec bpf_exec :: "u32 \<Rightarrow> sk_buff \<Rightarrow> bpf_s \<Rightarrow> bpf_s sock_filter \<Rightarrow> bpf_regs \<Rightarrow> bpf_out option" where
  "bpf_exec cpu skb BPF_S_ALU_ADD_X f r = Some (Cont 0 (r\<lparr>rA := rA r + rX r\<rparr>))"
| "bpf_exec cpu skb BPF_S_ALU_ADD_K f r = Some (Cont 0 (r\<lparr>rA := rA r + sf_k f\<rparr>))"
| "bpf_exec cpu skb BPF_S_ALU_SUB_X f r = Some (Cont 0 (r\<lparr>rA := rA r - rX r\<rparr>))"
| "bpf_exec cpu skb BPF_S_ALU_SUB_K f r = Some (Cont 0 (r\<lparr>rA := rA r - sf_k f\<rparr>))"
| "bpf_exec cpu skb BPF_S_ALU_MUL_X f r = Some (Cont 0 (r\<lparr>rA := rA r * rX r\<rparr>))"
| "bpf_exec cpu skb BPF_S_ALU_MUL_K f r = Some (Cont 0 (r\<lparr>rA := rA r * sf_k f\<rparr>))"
| "bpf_exec cpu skb BPF_S_ALU_DIV_X f r =
     (if rX r = 0 then Some (Ret 0) else Some (Cont 0 (r\<lparr>rA := rA r div rX r\<rparr>)))"
| "bpf_exec cpu skb BPF_S_ALU_DIV_K f r = Some (Cont 0 (r\<lparr>rA := reciprocal_divide (rA r) (sf_k f)\<rparr>))"
| "bpf_exec cpu skb BPF_S_ALU_AND_X f r = Some (Cont 0 (r\<lparr>rA := rA r AND rX r\<rparr>))"
| "bpf_exec cpu skb BPF_S_ALU_AND_K f r = Some (Cont 0 (r\<lparr>rA := rA r AND sf_k f\<rparr>))"
| "bpf_exec cpu skb BPF_S_ALU_OR_X f r = Some (Cont 0 (r\<lparr>rA := rA r OR rX r\<rparr>))"
| "bpf_exec cpu skb BPF_S_ALU_OR_K f r = Some (Cont 0 (r\<lparr>rA := rA r OR sf_k f\<rparr>))"
| "bpf_exec cpu skb BPF_S_ALU_LSH_X f r = Some (Cont 0 (r\<lparr>rA := shl32 (rA r) (rX r)\<rparr>))"
| "bpf_exec cpu skb BPF_S_ALU_LSH_K f r = Some (Cont 0 (r\<lparr>rA := shl32 (rA r) (sf_k f)\<rparr>))"
| "bpf_exec cpu skb BPF_S_ALU_RSH_X f r = Some (Cont 0 (r\<lparr>rA := shr32 (rA r) (rX r)\<rparr>))"
| "bpf_exec cpu skb BPF_S_ALU_RSH_K f r = Some (Cont 0 (r\<lparr>rA := shr32 (rA r) (sf_k f)\<rparr>))"
| "bpf_exec cpu skb BPF_S_ALU_NEG f r = Some (Cont 0 (r\<lparr>rA := - rA r\<rparr>))"
| "bpf_exec cpu skb BPF_S_JMP_JA f r = Some (Cont (unat (sf_k f)) r)"
| "bpf_exec cpu skb BPF_S_JMP_JGT_K f r = bpf_branch f r (rA r > sf_k f)"
| "bpf_exec cpu skb BPF_S_JMP_JGE_K f r = bpf_branch f r (rA r \<ge> sf_k f)"
| "bpf_exec cpu skb BPF_S_JMP_JEQ_K f r = bpf_branch f r (rA r = sf_k f)"
| "bpf_exec cpu skb BPF_S_JMP_JSET_K f r = bpf_branch f r (rA r AND sf_k f \<noteq> 0)"
| "bpf_exec cpu skb BPF_S_JMP_JGT_X f r = bpf_branch f r (rA r > rX r)"
| "bpf_exec cpu skb BPF_S_JMP_JGE_X f r = bpf_branch f r (rA r \<ge> rX r)"
| "bpf_exec cpu skb BPF_S_JMP_JEQ_X f r = bpf_branch f r (rA r = rX r)"
| "bpf_exec cpu skb BPF_S_JMP_JSET_X f r = bpf_branch f r (rA r AND rX r \<noteq> 0)"
| "bpf_exec cpu skb BPF_S_LD_W_ABS f r = bpf_load skb (sint (sf_k f)) 4 (\<lambda>v. r\<lparr>rA := v\<rparr>)"
| "bpf_exec cpu skb BPF_S_LD_H_ABS f r = bpf_load skb (sint (sf_k f)) 2 (\<lambda>v. r\<lparr>rA := v\<rparr>)"
| "bpf_exec cpu skb BPF_S_LD_B_ABS f r = bpf_load skb (sint (sf_k f)) 1 (\<lambda>v. r\<lparr>rA := v\<rparr>)"
| "bpf_exec cpu skb BPF_S_LD_W_LEN f r = Some (Cont 0 (r\<lparr>rA := skb_len skb\<rparr>))"
| "bpf_exec cpu skb BPF_S_LDX_W_LEN f r = Some (Cont 0 (r\<lparr>rX := skb_len skb\<rparr>))"
| "bpf_exec cpu skb BPF_S_LD_W_IND f r = bpf_load skb (sint (rX r + sf_k f)) 4 (\<lambda>v. r\<lparr>rA := v\<rparr>)"
| "bpf_exec cpu skb BPF_S_LD_H_IND f r = bpf_load skb (sint (rX r + sf_k f)) 2 (\<lambda>v. r\<lparr>rA := v\<rparr>)"
| "bpf_exec cpu skb BPF_S_LD_B_IND f r = bpf_load skb (sint (rX r + sf_k f)) 1 (\<lambda>v. r\<lparr>rA := v\<rparr>)"
| "bpf_exec cpu skb BPF_S_LDX_B_MSH f r =
     bpf_load skb (sint (sf_k f)) 1 (\<lambda>v. r\<lparr>rX := push_bit 2 (v AND 15)\<rparr>)"
| "bpf_exec cpu skb BPF_S_LD_IMM f r = Some (Cont 0 (r\<lparr>rA := sf_k f\<rparr>))"
| "bpf_exec cpu skb BPF_S_LDX_IMM f r = Some (Cont 0 (r\<lparr>rX := sf_k f\<rparr>))"
| "bpf_exec cpu skb BPF_S_LD_MEM f r = map_option (\<lambda>v. Cont 0 (r\<lparr>rA := v\<rparr>)) (mem_rd (rmem r) (sf_k f))"
| "bpf_exec cpu skb BPF_S_LDX_MEM f r = map_option (\<lambda>v. Cont 0 (r\<lparr>rX := v\<rparr>)) (mem_rd (rmem r) (sf_k f))"
| "bpf_exec cpu skb BPF_S_MISC_TAX f r = Some (Cont 0 (r\<lparr>rX := rA r\<rparr>))"
| "bpf_exec cpu skb BPF_S_MISC_TXA f r = Some (Cont 0 (r\<lparr>rA := rX r\<rparr>))"
| "bpf_exec cpu skb BPF_S_RET_K f r = Some (Ret (sf_k f))"
| "bpf_exec cpu skb BPF_S_RET_A f r = Some (Ret (rA r))"
| "bpf_exec cpu skb BPF_S_ST f r = map_option (\<lambda>m. Cont 0 (r\<lparr>rmem := m\<rparr>)) (mem_wr (rmem r) (sf_k f) (rA r))"
| "bpf_exec cpu skb BPF_S_STX f r = map_option (\<lambda>m. Cont 0 (r\<lparr>rmem := m\<rparr>)) (mem_wr (rmem r) (sf_k f) (rX r))"
| "bpf_exec cpu skb BPF_S_ANC_PROTOCOL f r = Some (Cont 0 (r\<lparr>rA := ucast (ntohs (skb_protocol skb))\<rparr>))"
| "bpf_exec cpu skb BPF_S_ANC_PKTTYPE f r = Some (Cont 0 (r\<lparr>rA := ucast (skb_pkt_type skb)\<rparr>))"
| "bpf_exec cpu skb BPF_S_ANC_IFINDEX f r =
     (case skb_dev skb of None \<Rightarrow> Some (Ret 0) | Some d \<Rightarrow> Some (Cont 0 (r\<lparr>rA := dev_ifindex d\<rparr>)))"
| "bpf_exec cpu skb BPF_S_ANC_MARK f r = Some (Cont 0 (r\<lparr>rA := skb_mark skb\<rparr>))"
| "bpf_exec cpu skb BPF_S_ANC_QUEUE f r = Some (Cont 0 (r\<lparr>rA := ucast (skb_queue_mapping skb)\<rparr>))"
| "bpf_exec cpu skb BPF_S_ANC_HATYPE f r =
     (case skb_dev skb of None \<Rightarrow> Some (Ret 0) | Some d \<Rightarrow> Some (Cont 0 (r\<lparr>rA := ucast (dev_type d)\<rparr>)))"
| "bpf_exec cpu skb BPF_S_ANC_RXHASH f r = Some (Cont 0 (r\<lparr>rA := skb_rxhash skb\<rparr>))"
| "bpf_exec cpu skb BPF_S_ANC_CPU f r = Some (Cont 0 (r\<lparr>rA := cpu\<rparr>))"
| "bpf_exec cpu skb BPF_S_ANC_NLATTR f r = bpf_nlattr skb r"
| "bpf_exec cpu skb BPF_S_ANC_NLATTR_NEST f r = bpf_nlattr_nest skb r"
| "bpf_exec cpu skb BPF_S_INVALID f r = Some (Ret 0)"

subsection \<open>The interpreter\<close>

text \<open>
  \<open>fentry\<close> is the index \<open>pc\<close> into the program; running past the end of the program is an
  access outside it. Every step moves \<open>pc\<close> forward, since the offsets are unsigned.
\<close>

function bpf_run :: "u32 \<Rightarrow> sk_buff \<Rightarrow> bpf_s sock_filter list \<Rightarrow> nat \<Rightarrow> bpf_regs \<Rightarrow> u32 option" where
  "bpf_run cpu skb prog pc r =
     (if pc < length prog then
        (case bpf_exec cpu skb (sf_code (prog ! pc)) (prog ! pc) r of
           None \<Rightarrow> None
         | Some (Ret v) \<Rightarrow> Some v
         | Some (Cont d r') \<Rightarrow> bpf_run cpu skb prog (pc + d + 1) r')
      else None)"
  by pat_completeness auto
termination
  by (relation "measure (\<lambda>(cpu, skb, prog, pc, r). length prog - pc)") auto

declare bpf_run.simps [simp del]

definition bpf_init :: bpf_regs where
  "bpf_init = \<lparr>rA = 0, rX = 0, rmem = replicate BPF_MEMWORDS None\<rparr>"

definition sk_run_filter :: "u32 \<Rightarrow> sk_buff \<Rightarrow> bpf_s sock_filter list \<Rightarrow> u32 option" where
  "sk_run_filter cpu skb prog = bpf_run cpu skb prog 0 bpf_init"

subsection \<open>The checker\<close>

text \<open>
  The table \<open>codes[]\<close>, as the list of its designated initialisers; the opcodes are the sums of
  the class, size, mode, operation and source constants of \<open>include/linux/filter.h\<close>.
\<close>

definition codes_table :: "(u16 \<times> bpf_s) list" where
  "codes_table =
    [(0x04, BPF_S_ALU_ADD_K), (0x0c, BPF_S_ALU_ADD_X), (0x14, BPF_S_ALU_SUB_K),
     (0x1c, BPF_S_ALU_SUB_X), (0x24, BPF_S_ALU_MUL_K), (0x2c, BPF_S_ALU_MUL_X),
     (0x3c, BPF_S_ALU_DIV_X), (0x54, BPF_S_ALU_AND_K), (0x5c, BPF_S_ALU_AND_X),
     (0x44, BPF_S_ALU_OR_K), (0x4c, BPF_S_ALU_OR_X), (0x64, BPF_S_ALU_LSH_K),
     (0x6c, BPF_S_ALU_LSH_X), (0x74, BPF_S_ALU_RSH_K), (0x7c, BPF_S_ALU_RSH_X),
     (0x84, BPF_S_ALU_NEG), (0x20, BPF_S_LD_W_ABS), (0x28, BPF_S_LD_H_ABS),
     (0x30, BPF_S_LD_B_ABS), (0x80, BPF_S_LD_W_LEN), (0x40, BPF_S_LD_W_IND),
     (0x48, BPF_S_LD_H_IND), (0x50, BPF_S_LD_B_IND), (0x00, BPF_S_LD_IMM),
     (0x81, BPF_S_LDX_W_LEN), (0xb1, BPF_S_LDX_B_MSH), (0x01, BPF_S_LDX_IMM),
     (0x07, BPF_S_MISC_TAX), (0x87, BPF_S_MISC_TXA), (0x06, BPF_S_RET_K),
     (0x16, BPF_S_RET_A), (0x34, BPF_S_ALU_DIV_K), (0x60, BPF_S_LD_MEM),
     (0x61, BPF_S_LDX_MEM), (0x02, BPF_S_ST), (0x03, BPF_S_STX), (0x05, BPF_S_JMP_JA),
     (0x15, BPF_S_JMP_JEQ_K), (0x1d, BPF_S_JMP_JEQ_X), (0x35, BPF_S_JMP_JGE_K),
     (0x3d, BPF_S_JMP_JGE_X), (0x25, BPF_S_JMP_JGT_K), (0x2d, BPF_S_JMP_JGT_X),
     (0x45, BPF_S_JMP_JSET_K), (0x4d, BPF_S_JMP_JSET_X)]"

text \<open>An index past the array and an index without initialiser are both refused.\<close>

definition codes :: "u16 \<Rightarrow> bpf_s" where
  "codes c = (case map_of codes_table c of Some s \<Rightarrow> s | None \<Rightarrow> BPF_S_INVALID)"

definition ancillary :: "u32 \<Rightarrow> bpf_s \<Rightarrow> bpf_s" where
  "ancillary kk c =
     (if kk = word_of_int (SKF_AD_OFF + 0) then BPF_S_ANC_PROTOCOL
      else if kk = word_of_int (SKF_AD_OFF + 4) then BPF_S_ANC_PKTTYPE
      else if kk = word_of_int (SKF_AD_OFF + 8) then BPF_S_ANC_IFINDEX
      else if kk = word_of_int (SKF_AD_OFF + 12) then BPF_S_ANC_NLATTR
      else if kk = word_of_int (SKF_AD_OFF + 16) then BPF_S_ANC_NLATTR_NEST
      else if kk = word_of_int (SKF_AD_OFF + 20) then BPF_S_ANC_MARK
      else if kk = word_of_int (SKF_AD_OFF + 24) then BPF_S_ANC_QUEUE
      else if kk = word_of_int (SKF_AD_OFF + 28) then BPF_S_ANC_HATYPE
      else if kk = word_of_int (SKF_AD_OFF + 32) then BPF_S_ANC_RXHASH
      else if kk = word_of_int (SKF_AD_OFF + 36) then BPF_S_ANC_CPU
      else c)"

text \<open>The groups of \<open>case\<close> labels that the two passes of the checker tell apart.\<close>

datatype bpf_class = CInvalid | CDivK | CLoadMem | CStore | CJumpA | CJump | CLoadAbs | CRet | COther

definition bpf_class :: "bpf_s \<Rightarrow> bpf_class" where
  "bpf_class c =
     (if c = BPF_S_INVALID then CInvalid
      else if c = BPF_S_ALU_DIV_K then CDivK
      else if c \<in> {BPF_S_LD_MEM, BPF_S_LDX_MEM} then CLoadMem
      else if c \<in> {BPF_S_ST, BPF_S_STX} then CStore
      else if c = BPF_S_JMP_JA then CJumpA
      else if c \<in> {BPF_S_JMP_JEQ_K, BPF_S_JMP_JEQ_X, BPF_S_JMP_JGE_K, BPF_S_JMP_JGE_X,
                   BPF_S_JMP_JGT_K, BPF_S_JMP_JGT_X, BPF_S_JMP_JSET_X, BPF_S_JMP_JSET_K} then CJump
      else if c \<in> {BPF_S_LD_W_ABS, BPF_S_LD_H_ABS, BPF_S_LD_B_ABS} then CLoadAbs
      else if c \<in> {BPF_S_RET_K, BPF_S_RET_A} then CRet
      else COther)"

text \<open>One round of the checking loop: refuse the instruction or rewrite it in place.\<close>

definition chk_insn :: "int \<Rightarrow> int \<Rightarrow> u16 sock_filter \<Rightarrow> errno + bpf_s sock_filter" where
  "chk_insn flen pc f =
     (let c = codes (sf_code f);
          g = \<lparr>sf_code = c, sf_jt = sf_jt f, sf_jf = sf_jf f, sf_k = sf_k f\<rparr> in
      case bpf_class c of
        CInvalid \<Rightarrow> Inl (- EINVAL)
      | CDivK \<Rightarrow>
          if sf_k f = 0 then Inl (- EINVAL) else Inr (g\<lparr>sf_k := reciprocal_value (sf_k f)\<rparr>)
      | CLoadMem \<Rightarrow> if unat (sf_k f) \<ge> BPF_MEMWORDS then Inl (- EINVAL) else Inr g
      | CStore \<Rightarrow> if unat (sf_k f) \<ge> BPF_MEMWORDS then Inl (- EINVAL) else Inr g
      | CJumpA \<Rightarrow> if sf_k f \<ge> word_of_int (flen - pc - 1) then Inl (- EINVAL) else Inr g
      | CJump \<Rightarrow>
          if pc + uint (sf_jt f) + 1 \<ge> flen \<or> pc + uint (sf_jf f) + 1 \<ge> flen then Inl (- EINVAL)
          else Inr g
      | CLoadAbs \<Rightarrow> Inr (g\<lparr>sf_code := ancillary (sf_k f) c\<rparr>)
      | CRet \<Rightarrow> Inr g
      | COther \<Rightarrow> Inr g)"

fun chk_insns :: "int \<Rightarrow> int \<Rightarrow> u16 sock_filter list \<Rightarrow> errno + bpf_s sock_filter list" where
  "chk_insns flen pc [] = Inr []"
| "chk_insns flen pc (f # fs) =
     (case chk_insn flen pc f of
        Inl e \<Rightarrow> Inl e
      | Inr g \<Rightarrow> (case chk_insns flen (pc + 1) fs of Inl e \<Rightarrow> Inl e | Inr gs \<Rightarrow> Inr (g # gs)))"

text \<open>
  \<open>check_load_and_stores\<close>: one forward pass with the mask of the scratch cells written on every
  path to the current instruction. \<open>None\<close> is an access outside \<open>masks\<close>.
\<close>

definition mask_and :: "u16 list \<Rightarrow> nat \<Rightarrow> u16 \<Rightarrow> u16 list option" where
  "mask_and masks i v = (if i < length masks then Some (masks[i := masks ! i AND v]) else None)"

function cls_loop :: "bpf_s sock_filter list \<Rightarrow> nat \<Rightarrow> u16 list \<Rightarrow> u16 \<Rightarrow> errno option" where
  "cls_loop prog pc masks memvalid =
     (if pc < length prog then
        (let f = prog ! pc; memvalid = memvalid AND masks ! pc in
         case bpf_class (sf_code f) of
           CStore \<Rightarrow> cls_loop prog (pc + 1) masks (memvalid OR push_bit (unat (sf_k f)) 1)
         | CLoadMem \<Rightarrow>
             if memvalid AND push_bit (unat (sf_k f)) 1 = 0 then Some (- EINVAL)
             else cls_loop prog (pc + 1) masks memvalid
         | CJumpA \<Rightarrow>
             (case mask_and masks (pc + 1 + unat (sf_k f)) memvalid of
                None \<Rightarrow> None
              | Some masks \<Rightarrow> cls_loop prog (pc + 1) masks (NOT 0))
         | CJump \<Rightarrow>
             (case mask_and masks (pc + 1 + unat (sf_jt f)) memvalid of
                None \<Rightarrow> None
              | Some masks \<Rightarrow>
                  (case mask_and masks (pc + 1 + unat (sf_jf f)) memvalid of
                     None \<Rightarrow> None
                   | Some masks \<Rightarrow> cls_loop prog (pc + 1) masks (NOT 0)))
         | _ \<Rightarrow> cls_loop prog (pc + 1) masks memvalid)
      else Some 0)"
  by pat_completeness auto
termination
  by (relation "measure (\<lambda>(prog, pc, masks, memvalid). length prog - pc)") auto

declare cls_loop.simps [simp del]

text \<open>\<open>kmalloc_ok\<close> tells whether the allocation of \<open>masks\<close> succeeds.\<close>

definition check_load_and_stores :: "bool \<Rightarrow> bpf_s sock_filter list \<Rightarrow> errno option" where
  "check_load_and_stores kmalloc_ok prog =
     (if \<not> kmalloc_ok then Some (- ENOMEM)
      else cls_loop prog 0 (replicate (length prog) 0xffff) 0)"

definition sk_chk_filter :: "bool \<Rightarrow> u16 sock_filter list \<Rightarrow> (errno + bpf_s sock_filter list) option" where
  "sk_chk_filter kmalloc_ok insns =
     (let flen = int (length insns) in
      if flen = 0 \<or> flen > BPF_MAXINSNS then Some (Inl (- EINVAL))
      else case chk_insns flen 0 insns of
        Inl e \<Rightarrow> Some (Inl e)
      | Inr prog \<Rightarrow>
          if bpf_class (sf_code (last prog)) = CRet then
            map_option (\<lambda>e. if e = 0 then Inr prog else Inl e) (check_load_and_stores kmalloc_ok prog)
          else Some (Inl (- EINVAL)))"

end
