(* ===== verification/Bpf_Safety.thy ===== *)
theory Bpf_Safety
  imports Bpf_Filter
begin

text \<open>
  Soundness of the packet filter's checker (\<open>sk_chk_filter\<close>, \<open>check_load_and_stores\<close>) with
  respect to the interpreter (\<open>sk_run_filter\<close>). \<open>insn_ok\<close> is what the first loop of the
  checker guarantees of one instruction, \<open>covers\<close> relates the mask of the second loop to the
  scratch cells written so far, \<open>cls_loop_step\<close> is the simulation of one round of the second
  loop against one step of the interpreter, and \<open>cls_loop_run\<close> lifts it to whole runs. The
  last theorems exhibit the two places where the checks are not enough: the netlink attribute
  loads.
\<close>

subsection \<open>What the checker guarantees of one instruction\<close>

definition insn_ok :: "nat \<Rightarrow> nat \<Rightarrow> bpf_s sock_filter \<Rightarrow> bool" where
  "insn_ok flen pc g \<longleftrightarrow>
     (case bpf_class (sf_code g) of
        CInvalid \<Rightarrow> False
      | CLoadMem \<Rightarrow> unat (sf_k g) < BPF_MEMWORDS
      | CStore \<Rightarrow> unat (sf_k g) < BPF_MEMWORDS
      | CJumpA \<Rightarrow> pc + 1 + unat (sf_k g) < flen
      | CJump \<Rightarrow> pc + 1 + unat (sf_jt g) < flen \<and> pc + 1 + unat (sf_jf g) < flen
      | _ \<Rightarrow> True)"

lemma ancillary_class: "bpf_class c = CLoadAbs \<Longrightarrow> bpf_class (ancillary kk c) \<in> {CLoadAbs, COther}"
  by (simp add: ancillary_def) (simp add: bpf_class_def)

lemma ja_offset:
  assumes "kk < (word_of_int (int flen - int pc - 1) :: u32)" "pc < flen" "flen \<le> 4096"
  shows "pc + 1 + unat kk < flen"
proof -
  define n where "n = int flen - int pc - 1"
  have "uint kk < uint (word_of_int n :: u32)" using assms(1) by (simp only: n_def word_less_def)
  also have "\<dots> = n" using assms(2,3) by (intro uint_of_int_u32) (simp_all add: n_def)
  finally show ?thesis using int_unat [of kk] unfolding n_def by linarith
qed

lemma chk_insn_ok:
  assumes "chk_insn (int flen) (int pc) f = Inr g" "pc < flen" "flen \<le> 4096"
  shows "insn_ok flen pc g"
proof -
  have jmp: "pc + 1 + unat x < flen" if "int pc + uint x + 1 < int flen" for x :: u8
    using that int_unat [of x] by linarith
  show ?thesis
  proof (cases "bpf_class (codes (sf_code f))")
    case CJumpA
    with assms(1) have "sf_k f < word_of_int (int flen - int pc - 1)"
        "g = \<lparr>sf_code = codes (sf_code f), sf_jt = sf_jt f, sf_jf = sf_jf f, sf_k = sf_k f\<rparr>"
      unfolding chk_insn_def Let_def by (simp_all only: bpf_class.case not_le sum.inject sum.distinct split: if_split_asm)
    with CJumpA show ?thesis using ja_offset [OF _ assms(2,3)] by (simp add: insn_ok_def)
  next
    case CLoadAbs
    with assms(1) ancillary_class [OF CLoadAbs, of "sf_k f"] show ?thesis
      by (auto simp: chk_insn_def insn_ok_def)
  next
    case CJump
    with assms(1) jmp [of "sf_jt f"] jmp [of "sf_jf f"] show ?thesis
      by (auto simp: chk_insn_def insn_ok_def not_le split: if_split_asm)
  qed (use assms(1) in \<open>auto simp: chk_insn_def insn_ok_def split: if_split_asm\<close>)
qed

lemma chk_insns_ok:
  assumes "chk_insns (int flen) (int pc) fs = Inr prog" "pc + length fs \<le> flen" "flen \<le> 4096"
  shows "length prog = length fs \<and> (\<forall>i < length prog. insn_ok flen (pc + i) (prog ! i))"
  using assms
proof (induction fs arbitrary: pc prog)
  case Nil
  then show ?case by simp
next
  case (Cons f fs)
  then obtain g gs where g: "chk_insn (int flen) (int pc) f = Inr g"
    and gs: "chk_insns (int flen) (int (pc + 1)) fs = Inr gs" and prog: "prog = g # gs"
    by (auto simp: add.commute split: sum.splits)
  have "length gs = length fs \<and> (\<forall>i < length gs. insn_ok flen (pc + 1 + i) (gs ! i))"
    using Cons.IH [OF gs] Cons.prems by simp
  moreover have "insn_ok flen pc g" using chk_insn_ok [OF g] Cons.prems by simp
  ultimately show ?case by (auto simp: prog nth_Cons split: nat.split)
qed


subsection \<open>Execution of one instruction\<close>

lemma load_pointer_safe:
  assumes "wf_skb skb" "0 < sz"
  shows "\<exists>p. load_pointer skb i sz = Some p"
proof (cases "i \<ge> 0")
  case True
  with assms show ?thesis by (simp add: load_pointer_def skb_header_pointer_spec)
next
  case False
  have rd: "\<exists>bs. skb_rd skb ptr sz = Some bs" if "skb_head skb \<le> ptr" "ptr + sz \<le> skb_tail_pointer skb" for ptr
    using that assms(2) by (simp add: skb_rd_def rd_bytes_def skb_tail_pointer_def)
  show ?thesis using False
    unfolding load_pointer_def neg_load_pointer_def Let_def by (auto dest: rd)
qed

text \<open>The instructions whose checks are not enough: see the theorems below.\<close>

definition nlattr_ok :: "sk_buff \<Rightarrow> bpf_s \<Rightarrow> bool" where
  "nlattr_ok skb c \<longleftrightarrow> c \<noteq> BPF_S_ANC_NLATTR_NEST \<and> (c = BPF_S_ANC_NLATTR \<longrightarrow> 4 \<le> skb_len skb)"

text \<open>An outcome without a bad access that either returns or goes to the next instruction with
  the scratch memory unchanged.\<close>

definition steps_on :: "bpf_regs \<Rightarrow> bpf_out option \<Rightarrow> bool" where
  "steps_on r res \<longleftrightarrow>
     (case res of None \<Rightarrow> False | Some (Ret v) \<Rightarrow> True | Some (Cont d r') \<Rightarrow> d = 0 \<and> rmem r' = rmem r)"

lemma steps_on_simps [simp]:
  "steps_on r (Some (Ret v))"
  "steps_on r (Some (Cont d r')) \<longleftrightarrow> d = 0 \<and> rmem r' = rmem r"
  by (simp_all add: steps_on_def)

lemma steps_on_load:
  assumes "wf_skb skb" "0 < sz" "\<And>v. rmem (upd v) = rmem r"
  shows "steps_on r (bpf_load skb i sz upd)"
  using load_pointer_safe [OF assms(1,2), of i] assms(3)
  by (auto simp: bpf_load_def split: option.split)

lemma steps_on_nlattr:
  assumes wf: "wf_skb skb" and len: "4 \<le> skb_len skb"
  shows "steps_on r (bpf_nlattr skb r)"
proof (cases "skb_is_nonlinear skb \<or> rA r > skb_len skb - 4")
  case True
  then show ?thesis by (auto simp: bpf_nlattr_def)
next
  case False
  then have lin: "skb_data_len skb = 0" and le: "rA r \<le> skb_len skb - 4"
    by (auto simp: skb_is_nonlinear_def)
  have len': "4 \<le> uint (skb_len skb)" using len by (simp add: word_le_def)
  then have sub: "uint (skb_len skb - 4) = uint (skb_len skb) - 4" by (simp add: uint_sub_lem [THEN iffD1])
  have A: "uint (rA r) \<le> uint (skb_len skb) - 4" using le sub by (simp add: word_le_def)
  have small: "uint (skb_len skb) < 2 ^ 31" using wf by (cases skb) simp
  have "uint (skb_len skb - rA r) = uint (skb_len skb) - uint (rA r)"
    using A by (intro uint_sub_lem [THEN iffD1]) simp
  then have rem: "sint (skb_len skb - rA r) = uint (skb_len skb) - uint (rA r)"
    using small uint_ge_0 [of "rA r"] by (subst sint_small) linarith+
  have "int (length (skb_linear skb)) = uint (skb_len skb)"
    using wf lin by (cases skb) (auto simp: skb_linear_def)
  then obtain p where "nla_find (skb_linear skb) (uint (rA r)) (sint (skb_len skb - rA r)) (sint (rX r)) = Some p"
    using nla_find_in_range [of "uint (rA r)" "sint (skb_len skb - rA r)" "skb_linear skb"] rem by fastforce
  then show ?thesis using False by (simp add: bpf_nlattr_def)
qed

lemma bpf_exec_plain:
  assumes "wf_skb skb" "nlattr_ok skb c" "bpf_class c \<notin> {CLoadMem, CStore, CJumpA, CJump}"
  shows "steps_on r (bpf_exec cpu skb c f r)"
  using assms
  by (cases c) (simp_all add: bpf_class_def nlattr_ok_def steps_on_load steps_on_nlattr split: option.split)

lemma bpf_exec_ret: "bpf_class c = CRet \<Longrightarrow> \<exists>v. bpf_exec cpu skb c f r = Some (Ret v)"
  by (cases c) (simp_all add: bpf_class_def)

lemma bpf_exec_jump:
  assumes "bpf_class c = CJump"
  obtains b where "bpf_exec cpu skb c f r = bpf_branch f r b"
  using assms by (cases c) (auto simp: bpf_class_def)

lemma bpf_exec_store:
  assumes "bpf_class c = CStore" "unat (sf_k f) < length (rmem r)"
  obtains v where "bpf_exec cpu skb c f r = Some (Cont 0 (r\<lparr>rmem := (rmem r)[unat (sf_k f) := Some v]\<rparr>))"
  using assms by (cases c) (auto simp: bpf_class_def mem_wr_def)

lemma bpf_exec_load_mem:
  assumes "bpf_class c = CLoadMem" "unat (sf_k f) < length (rmem r)" "rmem r ! unat (sf_k f) \<noteq> None"
  obtains r' where "bpf_exec cpu skb c f r = Some (Cont 0 r')" "rmem r' = rmem r"
  using assms by (cases c) (auto simp: bpf_class_def mem_rd_def)

lemma bpf_class_JumpA: "bpf_class c = CJumpA \<Longrightarrow> c = BPF_S_JMP_JA"
  by (simp add: bpf_class_def split: if_splits)

subsection \<open>The scratch memory\<close>

definition covers :: "u16 \<Rightarrow> bpf_regs \<Rightarrow> bool" where
  "covers m r \<longleftrightarrow> length (rmem r) = BPF_MEMWORDS \<and> (\<forall>i < BPF_MEMWORDS. bit m i \<longrightarrow> rmem r ! i \<noteq> None)"

lemma covers_and1: "covers a r \<Longrightarrow> covers (a AND b) r"
  by (simp add: covers_def bit_and_iff)

lemma covers_and2: "covers b r \<Longrightarrow> covers (a AND b) r"
  by (simp add: covers_def bit_and_iff)

lemma covers_mem: "rmem r' = rmem r \<Longrightarrow> covers a r \<Longrightarrow> covers a r'"
  by (simp add: covers_def)

lemma covers_store:
  "covers m r \<Longrightarrow> i < BPF_MEMWORDS \<Longrightarrow> covers (m OR push_bit i 1) (r\<lparr>rmem := (rmem r)[i := Some v]\<rparr>)"
  by (auto simp: covers_def bit_or_iff bit_exp_iff nth_list_update)

lemma covers_load:
  assumes "covers m r" "m AND push_bit i 1 \<noteq> 0" "i < BPF_MEMWORDS"
  shows "i < length (rmem r) \<and> rmem r ! i \<noteq> None"
proof -
  from assms(2) obtain n where "bit (m AND push_bit i 1) n" by (auto simp: bit_eq_iff)
  then have "bit m i" by (auto simp: bit_and_iff bit_exp_iff)
  with assms(1,3) show ?thesis by (simp add: covers_def)
qed

lemma mask_and_Some:
  assumes "mask_and masks j v = Some masks'"
  shows "length masks' = length masks" "covers v r \<Longrightarrow> covers (masks' ! j) r"
    "covers (masks ! i) r \<Longrightarrow> covers (masks' ! i) r"
  using assms by (auto simp: mask_and_def covers_and1 covers_and2 nth_list_update split: if_splits)

text \<open>
  One round of the pass against one step of the interpreter: masks only shrink, and if the
  written cells cover the mask before the step, they cover the mask wherever the step goes.
\<close>

definition step_covered ::
  "u32 \<Rightarrow> sk_buff \<Rightarrow> bpf_s sock_filter list \<Rightarrow> nat \<Rightarrow> u16 list \<Rightarrow> u16 \<Rightarrow> bpf_regs \<Rightarrow> bool" where
  "step_covered cpu skb prog pc masks mv r \<longleftrightarrow>
     (case bpf_exec cpu skb (sf_code (prog ! pc)) (prog ! pc) r of
        None \<Rightarrow> False
      | Some (Ret v) \<Rightarrow> True
      | Some (Cont d r') \<Rightarrow> pc + d + 1 < length prog \<and>
          covers ((if d = 0 then mv else NOT 0) AND masks ! (pc + d + 1)) r')"

text \<open>\<open>at_insn skb prog pc\<close>: \<open>pc\<close> is in the program, its instruction passed the first
  loop of the checker, and only a return is the last instruction.\<close>

definition at_insn :: "sk_buff \<Rightarrow> bpf_s sock_filter list \<Rightarrow> nat \<Rightarrow> bool" where
  "at_insn skb prog pc \<longleftrightarrow> pc < length prog \<and>
     (pc + 1 < length prog \<or> bpf_class (sf_code (prog ! pc)) = CRet) \<and>
     insn_ok (length prog) pc (prog ! pc) \<and> nlattr_ok skb (sf_code (prog ! pc)) \<and> wf_skb skb"

lemma step_covered_store:
  assumes "at_insn skb prog pc" "bpf_class (sf_code (prog ! pc)) = CStore" "covers mv r"
  shows "step_covered cpu skb prog pc masks (mv OR push_bit (unat (sf_k (prog ! pc))) 1) r"
proof -
  let ?i = "unat (sf_k (prog ! pc))"
  have i: "?i < 16" using assms(1,2) by (simp add: at_insn_def insn_ok_def)
  with assms(3) have "?i < length (rmem r)" by (simp add: covers_def)
  then obtain v where "bpf_exec cpu skb (sf_code (prog ! pc)) (prog ! pc) r =
      Some (Cont 0 (r\<lparr>rmem := (rmem r)[?i := Some v]\<rparr>))"
    using bpf_exec_store [OF assms(2)] by metis
  then show ?thesis using covers_store [OF assms(3) i] assms(1,2)
    by (simp add: step_covered_def at_insn_def covers_and1)
qed

lemma step_covered_load:
  assumes "at_insn skb prog pc" "bpf_class (sf_code (prog ! pc)) = CLoadMem" "covers mv r"
    "mv AND push_bit (unat (sf_k (prog ! pc))) 1 \<noteq> 0"
  shows "step_covered cpu skb prog pc masks mv r"
proof -
  have "unat (sf_k (prog ! pc)) < 16" using assms(1,2) by (simp add: at_insn_def insn_ok_def)
  then obtain r' where "bpf_exec cpu skb (sf_code (prog ! pc)) (prog ! pc) r = Some (Cont 0 r')"
      "rmem r' = rmem r"
    using bpf_exec_load_mem [OF assms(2)] covers_load [OF assms(3,4)] by metis
  then show ?thesis using covers_mem [OF _ assms(3)] assms(1,2)
    by (simp add: step_covered_def at_insn_def covers_and1)
qed

lemma step_covered_ja:
  assumes "at_insn skb prog pc" "bpf_class (sf_code (prog ! pc)) = CJumpA"
    "covers (masks ! (pc + 1 + unat (sf_k (prog ! pc)))) r"
  shows "step_covered cpu skb prog pc masks (NOT 0) r"
  using assms bpf_class_JumpA [OF assms(2)]
  by (auto simp: step_covered_def at_insn_def insn_ok_def ac_simps)

lemma step_covered_jump:
  assumes "at_insn skb prog pc" "bpf_class (sf_code (prog ! pc)) = CJump"
    "covers (masks ! (pc + 1 + unat (sf_jt (prog ! pc)))) r"
    "covers (masks ! (pc + 1 + unat (sf_jf (prog ! pc)))) r"
  shows "step_covered cpu skb prog pc masks (NOT 0) r"
proof -
  obtain b where "bpf_exec cpu skb (sf_code (prog ! pc)) (prog ! pc) r = bpf_branch (prog ! pc) r b"
    using bpf_exec_jump [OF assms(2)] .
  then show ?thesis using assms
    by (cases b) (auto simp: step_covered_def at_insn_def insn_ok_def bpf_branch_def ac_simps)
qed

lemma step_covered_plain:
  assumes "at_insn skb prog pc" "bpf_class (sf_code (prog ! pc)) \<notin> {CLoadMem, CStore, CJumpA, CJump}"
    "covers mv r"
  shows "step_covered cpu skb prog pc masks mv r"
proof (cases "bpf_class (sf_code (prog ! pc)) = CRet")
  case True
  then show ?thesis using bpf_exec_ret [OF True, of cpu skb "prog ! pc" r] by (auto simp: step_covered_def)
next
  case False
  with assms(1,2) have "steps_on r (bpf_exec cpu skb (sf_code (prog ! pc)) (prog ! pc) r)"
    by (intro bpf_exec_plain) (auto simp: at_insn_def)
  with False assms(1,3) show ?thesis
    by (auto simp: step_covered_def steps_on_def at_insn_def intro!: covers_and1 intro: covers_mem
        split: option.splits bpf_out.splits)
qed

lemma cls_loop_step:
  assumes loop: "cls_loop prog pc masks mv = Some 0" and at: "at_insn skb prog pc"
  shows "\<exists>masks' mv'. cls_loop prog (pc + 1) masks' mv' = Some 0 \<and>
    (\<forall>i r. covers (masks ! i) r \<longrightarrow> covers (masks' ! i) r) \<and>
    (\<forall>r. covers (mv AND masks ! pc) r \<longrightarrow> step_covered cpu skb prog pc masks' mv' r)"
proof -
  let ?f = "prog ! pc" and ?mv = "mv AND masks ! pc"
  have pc: "pc < length prog" using at by (simp add: at_insn_def)
  note unf = loop [unfolded cls_loop.simps [of prog pc masks mv] Let_def]
  show ?thesis
  proof (cases "bpf_class (sf_code ?f) \<in> {CLoadMem, CStore, CJumpA, CJump}")
    case False
    then have "cls_loop prog (pc + 1) masks ?mv = Some 0"
      using unf pc by (cases "bpf_class (sf_code ?f)") simp_all
    with False show ?thesis using step_covered_plain [OF at] by blast
  next
    case True
    then consider "bpf_class (sf_code ?f) = CLoadMem" | "bpf_class (sf_code ?f) = CStore"
      | "bpf_class (sf_code ?f) = CJumpA" | "bpf_class (sf_code ?f) = CJump" by auto
    then show ?thesis
    proof cases
      case 1
      then have "cls_loop prog (pc + 1) masks ?mv = Some 0" "?mv AND push_bit (unat (sf_k ?f)) 1 \<noteq> 0"
        using unf pc by (simp_all split: if_splits)
      with step_covered_load [OF at 1] show ?thesis by blast
    next
      case 2
      then have "cls_loop prog (pc + 1) masks (?mv OR push_bit (unat (sf_k ?f)) 1) = Some 0"
        using unf pc by simp
      with step_covered_store [OF at 2] show ?thesis by blast
    next
      case 3
      then obtain masks' where m: "mask_and masks (pc + 1 + unat (sf_k ?f)) ?mv = Some masks'"
        and l: "cls_loop prog (pc + 1) masks' (NOT 0) = Some 0"
        using unf pc by (auto split: option.splits)
      with step_covered_ja [OF at 3] mask_and_Some [OF m] show ?thesis by blast
    next
      case 4
      then obtain masks1 masks' where m: "mask_and masks (pc + 1 + unat (sf_jt ?f)) ?mv = Some masks1"
          "mask_and masks1 (pc + 1 + unat (sf_jf ?f)) ?mv = Some masks'"
        and l: "cls_loop prog (pc + 1) masks' (NOT 0) = Some 0"
        using unf pc by (auto split: option.splits)
      with step_covered_jump [OF at 4] mask_and_Some [OF m(1)] mask_and_Some [OF m(2)] show ?thesis
        by blast
    qed
  qed
qed

text \<open>Hence a run that starts covered never makes a bad access.\<close>

lemma cls_loop_run:
  assumes "\<And>i. i < length prog \<Longrightarrow> at_insn skb prog i"
    and "cls_loop prog pc masks mv = Some 0" "pc \<le> pc'" "pc' < length prog"
    and "covers ((if pc' = pc then mv else NOT 0) AND masks ! pc') r"
  shows "\<exists>v. bpf_run cpu skb prog pc' r = Some v"
  using assms(2-)
proof (induction "length prog - pc" arbitrary: pc masks mv pc' r)
  case 0
  then show ?case by simp
next
  case (Suc n)
  obtain masks' mv' where l: "cls_loop prog (pc + 1) masks' mv' = Some 0"
    and sub: "\<And>i r. covers (masks ! i) r \<Longrightarrow> covers (masks' ! i) r"
    and st: "\<And>r. covers (mv AND masks ! pc) r \<Longrightarrow> step_covered cpu skb prog pc masks' mv' r"
    using cls_loop_step [OF Suc.prems(1) assms(1), of cpu] Suc.hyps by fastforce
  note IH = Suc.hyps(1) [OF _ l]
  show ?case
  proof (cases "pc' = pc")
    case False
    then show ?thesis using Suc.hyps(2) Suc.prems sub by (intro IH) (auto simp: covers_and2)
  next
    case True
    with Suc.prems have "step_covered cpu skb prog pc masks' mv' r" by (intro st) simp
    with True Suc.hyps(2) show ?thesis
      by (auto simp: bpf_run.simps [of cpu skb prog pc r] step_covered_def
          split: option.splits bpf_out.splits if_splits intro!: IH)
  qed
qed

subsection \<open>The checker makes no bad access itself\<close>

lemma cls_loop_total:
  assumes "\<And>i. i < length prog \<Longrightarrow> insn_ok (length prog) i (prog ! i)" "length masks = length prog"
  shows "\<exists>e. cls_loop prog pc masks mv = Some e"
  using assms(2)
proof (induction "length prog - pc" arbitrary: pc masks mv)
  case 0
  then show ?case by (simp add: cls_loop.simps [of prog pc masks mv])
next
  case (Suc n)
  have pc: "pc < length prog" using Suc.hyps(2) by linarith
  have IH: "\<exists>e. cls_loop prog (Suc pc) masks' mv' = Some e" if "length masks' = length prog" for masks' mv'
    using Suc.hyps that by (intro Suc.hyps(1)) simp_all
  have ma: "\<exists>masks'. mask_and ms j v = Some masks' \<and> length masks' = length prog"
    if "j < length prog" "length ms = length prog" for ms j v
    using that by (simp add: mask_and_def)
  show ?case
  proof (cases "bpf_class (sf_code (prog ! pc))")
    case CJumpA
    then have "pc + 1 + unat (sf_k (prog ! pc)) < length prog"
      using assms(1) [OF pc] by (simp add: insn_ok_def)
    then obtain m1 where "mask_and masks (pc + 1 + unat (sf_k (prog ! pc))) (mv AND masks ! pc) = Some m1"
        "length m1 = length prog" using ma [OF _ Suc.prems] by blast
    with IH CJumpA pc show ?thesis by (simp add: cls_loop.simps [of prog pc masks mv] Let_def)
  next
    case CJump
    then have j: "pc + 1 + unat (sf_jt (prog ! pc)) < length prog" "pc + 1 + unat (sf_jf (prog ! pc)) < length prog"
      using assms(1) [OF pc] by (simp_all add: insn_ok_def)
    obtain m1 where m1: "mask_and masks (pc + 1 + unat (sf_jt (prog ! pc))) (mv AND masks ! pc) = Some m1"
        "length m1 = length prog" using ma [OF j(1) Suc.prems] by blast
    obtain m2 where m2: "mask_and m1 (pc + 1 + unat (sf_jf (prog ! pc))) (mv AND masks ! pc) = Some m2"
        "length m2 = length prog" using ma [OF j(2) m1(2)] by blast
    from m1 m2 IH CJump pc show ?thesis
      by (simp add: cls_loop.simps [of prog pc masks mv] Let_def)
  qed (use IH [OF Suc.prems] pc in \<open>simp_all add: cls_loop.simps [of prog pc masks mv] Let_def\<close>)
qed

lemma chk_insns_prog_ok:
  assumes "chk_insns (int (length insns)) 0 insns = Inr prog" "length insns \<le> 4096"
  shows "length prog = length insns" "i < length prog \<Longrightarrow> insn_ok (length prog) i (prog ! i)"
  using chk_insns_ok [of "length insns" 0 insns prog] assms by auto

lemma chk_insns_err: "chk_insns flen pc fs = Inl e \<Longrightarrow> e = - EINVAL"
proof (induction fs arbitrary: pc)
  case (Cons f fs)
  then show ?case
    by (auto simp: chk_insn_def Let_def split: sum.splits if_splits bpf_class.splits)
qed simp

lemma sk_chk_filter_err: "sk_chk_filter kmalloc_ok insns = Some (Inl e) \<Longrightarrow> e \<noteq> 0"
  by (auto simp: sk_chk_filter_def Let_def split: if_splits sum.splits dest: chk_insns_err)

subsection \<open>Properties\<close>

lemma sk_chk_filter_total: "\<exists>res. sk_chk_filter kmalloc_ok insns = Some res"
proof (cases "chk_insns (int (length insns)) 0 insns")
  case (Inl e)
  then show ?thesis by (simp add: sk_chk_filter_def Let_def)
next
  case (Inr prog)
  show ?thesis
  proof (cases "length insns \<le> 4096")
    case True
    from chk_insns_prog_ok [OF Inr True] cls_loop_total [of prog "replicate (length prog) 0xffff" 0 0]
    show ?thesis by (auto simp: sk_chk_filter_def Let_def Inr check_load_and_stores_def)
  qed (simp add: sk_chk_filter_def Let_def)
qed

text \<open>C2: every program that \<open>sk_chk_filter\<close> accepts has between 1 and 4096 instructions, all
  jumps land inside the program, all scratch indices are below 16, no opcode is invalid and the
  last instruction is a return.\<close>

theorem sk_chk_filter_accepts_only_valid:
  assumes "sk_chk_filter kmalloc_ok insns = Some (Inr prog)"
  shows "1 \<le> length prog \<and> length prog \<le> 4096 \<and> length prog = length insns \<and>
    (\<forall>i < length prog. insn_ok (length prog) i (prog ! i)) \<and>
    bpf_class (sf_code (last prog)) = CRet"
proof -
  from assms have len: "insns \<noteq> []" "length insns \<le> 4096"
    and chk: "chk_insns (int (length insns)) 0 insns = Inr prog"
    and ret: "bpf_class (sf_code (last prog)) = CRet"
    by (auto simp: sk_chk_filter_def Let_def split: if_splits sum.splits)
  with chk_insns_prog_ok [OF chk len(2)] show ?thesis by (simp add: Suc_leI)
qed

lemma accepted_filter_runs:
  assumes "sk_chk_filter kmalloc_ok insns = Some (Inr prog)" and "wf_skb skb"
    and "\<forall>f \<in> set prog. nlattr_ok skb (sf_code f)"
  shows "\<exists>v. sk_run_filter cpu skb prog = Some v"
proof -
  from assms(1) have len: "insns \<noteq> []" "length insns \<le> 4096"
    and chk: "chk_insns (int (length insns)) 0 insns = Inr prog"
    and ret: "bpf_class (sf_code (last prog)) = CRet"
    and cls: "cls_loop prog 0 (replicate (length prog) 0xffff) 0 = Some 0"
    by (auto simp: sk_chk_filter_def Let_def check_load_and_stores_def split: if_splits sum.splits)
  note ok = chk_insns_prog_ok [OF chk len(2)]
  have at: "at_insn skb prog i" if "i < length prog" for i
  proof -
    have "bpf_class (sf_code (prog ! i)) = CRet" if "\<not> i + 1 < length prog"
    proof -
      have "i = length prog - 1" using \<open>i < length prog\<close> that by linarith
      moreover have "prog \<noteq> []" using \<open>i < length prog\<close> by auto
      ultimately show ?thesis using ret by (simp add: last_conv_nth)
    qed
    then show ?thesis using that ok(2) assms(2,3) by (auto simp: at_insn_def)
  qed
  have "covers 0 bpf_init" by (simp add: covers_def bpf_init_def)
  then show ?thesis
    unfolding sk_run_filter_def
    using len ok(1) by (intro cls_loop_run [OF at cls]) (auto intro: covers_and1)
qed

text \<open>A small program: keep 7 in cell 3, compare the half word at offset 1, return the cell when
  it matches and 0 otherwise.\<close>

definition sample_filter :: "u16 sock_filter list" where
  "sample_filter =
    [\<lparr>sf_code = 0x00, sf_jt = 0, sf_jf = 0, sf_k = 7\<rparr>,
     \<lparr>sf_code = 0x02, sf_jt = 0, sf_jf = 0, sf_k = 3\<rparr>,
     \<lparr>sf_code = 0x28, sf_jt = 0, sf_jf = 0, sf_k = 1\<rparr>,
     \<lparr>sf_code = 0x15, sf_jt = 0, sf_jf = 2, sf_k = 0x0b0c\<rparr>,
     \<lparr>sf_code = 0x60, sf_jt = 0, sf_jf = 0, sf_k = 3\<rparr>,
     \<lparr>sf_code = 0x16, sf_jt = 0, sf_jf = 0, sf_k = 0\<rparr>,
     \<lparr>sf_code = 0x06, sf_jt = 0, sf_jf = 0, sf_k = 0\<rparr>]"

definition sample_prog :: "bpf_s sock_filter list" where
  "sample_prog =
    [\<lparr>sf_code = BPF_S_LD_IMM, sf_jt = 0, sf_jf = 0, sf_k = 7\<rparr>,
     \<lparr>sf_code = BPF_S_ST, sf_jt = 0, sf_jf = 0, sf_k = 3\<rparr>,
     \<lparr>sf_code = BPF_S_LD_H_ABS, sf_jt = 0, sf_jf = 0, sf_k = 1\<rparr>,
     \<lparr>sf_code = BPF_S_JMP_JEQ_K, sf_jt = 0, sf_jf = 2, sf_k = 0x0b0c\<rparr>,
     \<lparr>sf_code = BPF_S_LD_MEM, sf_jt = 0, sf_jf = 0, sf_k = 3\<rparr>,
     \<lparr>sf_code = BPF_S_RET_A, sf_jt = 0, sf_jf = 0, sf_k = 0\<rparr>,
     \<lparr>sf_code = BPF_S_RET_K, sf_jt = 0, sf_jf = 0, sf_k = 0\<rparr>]"

lemma sample_filter_accepted: "sk_chk_filter True sample_filter = Some (Inr sample_prog)"
  by code_simp

theorem sk_chk_filter_accepts_only_valid_witness:
  "1 \<le> length sample_prog \<and> length sample_prog \<le> 4096 \<and> length sample_prog = length sample_filter \<and>
    insn_ok (length sample_prog) 2 (sample_prog ! 2) \<and> insn_ok (length sample_prog) 3 (sample_prog ! 3) \<and>
    bpf_class (sf_code (last sample_prog)) = CRet"
proof -
  have "2 < length sample_prog" "3 < length sample_prog" by (simp_all add: sample_prog_def)
  then show ?thesis
    using sk_chk_filter_accepts_only_valid [OF sample_filter_accepted] by blast
qed

definition nest_filter :: "u16 sock_filter list" where
  "nest_filter = [\<lparr>sf_code = 0x20, sf_jt = 0, sf_jf = 0, sf_k = 0xfffff010\<rparr>,
                  \<lparr>sf_code = 0x16, sf_jt = 0, sf_jf = 0, sf_k = 0\<rparr>]"

definition nest_skb :: sk_buff where
  "nest_skb = Sk_buff 4096 [100, 0, 1, 0, 4, 0, 2, 0] 4096 8 0 4096 4096 8 0 None 0 0 0 [] []"

text \<open>the check of the nested attribute load compares the attribute's length with \<open>A - len\<close>,
  which wraps around: an accepted two-instruction program reads past the end of a well-formed
  8-byte packet whose attribute claims 100 bytes.\<close>

theorem nlattr_nest_reads_outside_packet:
  "wf_skb nest_skb \<and>
   (\<exists>prog. sk_chk_filter True nest_filter = Some (Inr prog) \<and> sk_run_filter 0 nest_skb prog = None)"
proof -
  let ?prog = "[\<lparr>sf_code = BPF_S_ANC_NLATTR_NEST, sf_jt = 0, sf_jf = 0, sf_k = 0xfffff010\<rparr>,
                \<lparr>sf_code = BPF_S_RET_A, sf_jt = 0, sf_jf = 0, sf_k = 0\<rparr>]"
  have "sk_chk_filter True nest_filter = Some (Inr ?prog)" by code_simp
  moreover have "sk_run_filter 0 nest_skb ?prog = None" by code_simp
  moreover have "wf_skb nest_skb" by (simp add: nest_skb_def)
  ultimately show ?thesis by blast
qed

definition short_filter :: "u16 sock_filter list" where
  "short_filter = [\<lparr>sf_code = 0x00, sf_jt = 0, sf_jf = 0, sf_k = 0x90000000\<rparr>,
                   \<lparr>sf_code = 0x20, sf_jt = 0, sf_jf = 0, sf_k = 0xfffff00c\<rparr>,
                   \<lparr>sf_code = 0x16, sf_jt = 0, sf_jf = 0, sf_k = 0\<rparr>]"

definition short_skb :: sk_buff where
  "short_skb = Sk_buff 4096 [1, 2] 4096 2 0 4096 4096 8 0 None 0 0 0 [] []"

text \<open>the check of the plain attribute load compares \<open>A\<close> with \<open>len - 4\<close>, which wraps around
  for packets shorter than 4 bytes: an accepted program that loads \<open>0x90000000\<close> into \<open>A\<close> reads
  at that offset of a well-formed 2-byte packet.\<close>

theorem nlattr_short_packet_reads_outside:
  "wf_skb short_skb \<and>
   (\<exists>prog. sk_chk_filter True short_filter = Some (Inr prog) \<and> sk_run_filter 0 short_skb prog = None)"
proof -
  let ?prog = "[\<lparr>sf_code = BPF_S_LD_IMM, sf_jt = 0, sf_jf = 0, sf_k = 0x90000000\<rparr>,
                \<lparr>sf_code = BPF_S_ANC_NLATTR, sf_jt = 0, sf_jf = 0, sf_k = 0xfffff00c\<rparr>,
                \<lparr>sf_code = BPF_S_RET_A, sf_jt = 0, sf_jf = 0, sf_k = 0\<rparr>]"
  have "sk_chk_filter True short_filter = Some (Inr ?prog)" by code_simp
  moreover have "sk_run_filter 0 short_skb ?prog = None" by code_simp
  moreover have "wf_skb short_skb" by (simp add: short_skb_def)
  ultimately show ?thesis by blast
qed

end
