(* ===== verification/Bpf_Socket.thy ===== *)
theory Bpf_Socket
  imports Bpf_Safety
begin

text \<open>
  Socket filters attached to a socket: \<open>sk_attach_filter\<close>, \<open>sk_detach_filter\<close> and
  \<open>sk_filter\<close> of \<open>net/core/filter.c\<close>, the accounting in \<open>include/net/sock.h\<close>
  (\<open>sk_filter_charge\<close>, \<open>sk_filter_uncharge\<close>, \<open>sk_filter_release\<close>) and
  \<open>net/core/sock.c\<close> (\<open>sock_kmalloc\<close>, \<open>sock_kfree_s\<close>).

  The state is one socket and the filters in memory, a map from addresses. Filters are shared
  between sockets through their reference count. The results of \<open>kmalloc\<close> and the limit
  \<open>sysctl_optmem_max\<close> are parameters (record \<open>attach_env\<close>). RCU only delays the
  \<open>kfree\<close> of a released filter, which is modelled as its removal from memory.
\<close>

record sk_filter_obj =
  fo_refcnt :: int
  fo_len :: u32
  fo_insns :: "bpf_s sock_filter list"

record sock_state =
  sk_omem_alloc :: int
  sk_filt :: "nat option"
  filters :: "nat \<rightharpoonup> sk_filter_obj"

text \<open>\<open>fp_filter\<close>: \<open>None\<close> for a NULL pointer, otherwise the instructions readable there.\<close>

record sock_fprog =
  fp_len :: u16
  fp_filter :: "u16 sock_filter list option"

record attach_env =
  optmem_max :: int
  kmalloc_res :: "nat option"
  kmalloc_masks_ok :: bool

definition sk_filter_len :: "u32 \<Rightarrow> u32" where
  "sk_filter_len len = len * 8 + 16"

definition sk_filter_release :: "nat \<Rightarrow> sk_filter_obj \<Rightarrow> sock_state \<Rightarrow> sock_state" where
  "sk_filter_release p fp st =
     (if fo_refcnt fp - 1 = 0 then st\<lparr>filters := (filters st)(p := None)\<rparr>
      else st\<lparr>filters := (filters st)(p \<mapsto> fp\<lparr>fo_refcnt := fo_refcnt fp - 1\<rparr>)\<rparr>)"

definition sk_filter_uncharge :: "nat \<Rightarrow> sk_filter_obj \<Rightarrow> sock_state \<Rightarrow> sock_state" where
  "sk_filter_uncharge p fp st =
     sk_filter_release p fp
       (st\<lparr>sk_omem_alloc := sk_omem_alloc st - uint (sk_filter_len (fo_len fp))\<rparr>)"

definition sk_filter_charge :: "nat \<Rightarrow> sk_filter_obj \<Rightarrow> sock_state \<Rightarrow> sock_state" where
  "sk_filter_charge p fp st =
     st\<lparr>filters := (filters st)(p \<mapsto> fp\<lparr>fo_refcnt := fo_refcnt fp + 1\<rparr>),
        sk_omem_alloc := sk_omem_alloc st + uint (sk_filter_len (fo_len fp))\<rparr>"

definition sock_kmalloc :: "attach_env \<Rightarrow> u32 \<Rightarrow> sock_state \<Rightarrow> nat option \<times> sock_state" where
  "sock_kmalloc env sz st =
     (if uint sz \<le> optmem_max env \<and> sk_omem_alloc st + sint sz < optmem_max env then
        (let st = st\<lparr>sk_omem_alloc := sk_omem_alloc st + sint sz\<rparr> in
         case kmalloc_res env of
           Some p \<Rightarrow> (Some p, st)
         | None \<Rightarrow> (None, st\<lparr>sk_omem_alloc := sk_omem_alloc st - sint sz\<rparr>))
      else (None, st))"

definition sock_kfree_s :: "u32 \<Rightarrow> sock_state \<Rightarrow> sock_state" where
  "sock_kfree_s sz st = st\<lparr>sk_omem_alloc := sk_omem_alloc st - sint sz\<rparr>"

definition copy_insns_from_user :: "u16 sock_filter list \<Rightarrow> nat \<Rightarrow> u16 sock_filter list option" where
  "copy_insns_from_user user n = (if n \<le> length user then Some (take n user) else None)"

definition sk_attach_filter ::
  "attach_env \<Rightarrow> sock_fprog \<Rightarrow> sock_state \<Rightarrow> (errno \<times> sock_state) option" where
  "sk_attach_filter env fprog st =
     (let fsize = 8 * ucast (fp_len fprog) :: u32; len = ucast (fp_len fprog) :: u32 in
      case fp_filter fprog of
        None \<Rightarrow> Some (- EINVAL, st)
      | Some user \<Rightarrow>
          (case sock_kmalloc env (fsize + 16) st of
             (None, st) \<Rightarrow> Some (- ENOMEM, st)
           | (Some fp, st) \<Rightarrow>
               (case copy_insns_from_user user (unat (fp_len fprog)) of
                  None \<Rightarrow> Some (- EFAULT, sock_kfree_s (fsize + 16) st)
                | Some insns \<Rightarrow> do {
                    r \<leftarrow> sk_chk_filter (kmalloc_masks_ok env) insns;
                    case r of
                      Inl err \<Rightarrow>
                        Some (err, st\<lparr>sk_omem_alloc := sk_omem_alloc st - uint (sk_filter_len len)\<rparr>)
                    | Inr prog \<Rightarrow>
                        (let old = sk_filt st;
                             st = st\<lparr>sk_filt := Some fp,
                                     filters := (filters st)(fp \<mapsto>
                                       \<lparr>fo_refcnt = 1, fo_len = len, fo_insns = prog\<rparr>)\<rparr> in
                         case old of
                           None \<Rightarrow> Some (0, st)
                         | Some q \<Rightarrow> do {
                             fq \<leftarrow> filters st q;
                             Some (0, sk_filter_uncharge q fq st)
                           })
                  })))"

definition sk_detach_filter :: "sock_state \<Rightarrow> (errno \<times> sock_state) option" where
  "sk_detach_filter st =
     (case sk_filt st of
        None \<Rightarrow> Some (- ENOENT, st)
      | Some p \<Rightarrow> do {
          fp \<leftarrow> filters st p;
          Some (0, sk_filter_uncharge p fp (st\<lparr>sk_filt := None\<rparr>))
        })"

text \<open>
  \<open>security_sock_rcv_skb\<close> (the security module's verdict) and \<open>pskb_trim\<close> are parameters.
\<close>

definition sk_filter ::
  "(sk_buff \<Rightarrow> errno) \<Rightarrow> (sk_buff \<Rightarrow> u32 \<Rightarrow> errno \<times> sk_buff) \<Rightarrow> u32 \<Rightarrow> sock_state \<Rightarrow> sk_buff \<Rightarrow>
   (errno \<times> sk_buff) option" where
  "sk_filter security_sock_rcv_skb pskb_trim cpu st skb =
     (let err = security_sock_rcv_skb skb in
      if err \<noteq> 0 then Some (err, skb)
      else case sk_filt st of
        None \<Rightarrow> Some (err, skb)
      | Some p \<Rightarrow> do {
          fp \<leftarrow> filters st p;
          pkt_len \<leftarrow> sk_run_filter cpu skb (fo_insns fp);
          Some (if pkt_len \<noteq> 0 then pskb_trim skb pkt_len else (- EPERM, skb))
        })"

subsection \<open>The contract between the socket layer and the filter engine\<close>

text \<open>
  What attaching and running filters relies on: the checker always answers, and a program it
  lets through runs to a result on every packet it is fit for.
\<close>

locale filter_engine =
  fixes check :: "'raw \<Rightarrow> (errno + 'prog) option"
    and run :: "'pkt \<Rightarrow> 'prog \<Rightarrow> u32 option"
    and fit :: "'pkt \<Rightarrow> 'prog \<Rightarrow> bool"
  assumes check_answers: "\<exists>res. check raw = Some res"
    and check_error: "check raw = Some (Inl e) \<Longrightarrow> e \<noteq> 0"
    and run_answers: "check raw = Some (Inr prog) \<Longrightarrow> fit pkt prog \<Longrightarrow> \<exists>v. run pkt prog = Some v"
begin

definition vetted :: "'prog \<Rightarrow> bool" where
  "vetted prog \<longleftrightarrow> (\<exists>raw. check raw = Some (Inr prog))"

lemma vetted_runs: "vetted prog \<Longrightarrow> fit pkt prog \<Longrightarrow> \<exists>v. run pkt prog = Some v"
  by (auto simp: vetted_def dest: run_answers)

lemma check_cases:
  obtains e where "check raw = Some (Inl e)" "e \<noteq> 0" | prog where "check raw = Some (Inr prog)" "vetted prog"
proof -
  obtain res where "check raw = Some res" using check_answers by blast
  then show ?thesis using that by (cases res) (auto simp: vetted_def dest: check_error)
qed

end

definition bpf_fit :: "sk_buff \<Rightarrow> bpf_s sock_filter list \<Rightarrow> bool" where
  "bpf_fit skb prog \<longleftrightarrow> wf_skb skb \<and> (\<forall>f \<in> set prog. nlattr_ok skb (sf_code f))"

interpretation bpf: filter_engine
  "\<lambda>(ok, insns). sk_chk_filter ok insns" "\<lambda>skb. sk_run_filter cpu skb" bpf_fit for cpu
proof unfold_locales
  show "\<exists>res. (case raw of (ok, insns) \<Rightarrow> sk_chk_filter ok insns) = Some res" for raw
    by (simp add: sk_chk_filter_total split: prod.split)
  show "e \<noteq> 0" if "(case raw of (ok, insns) \<Rightarrow> sk_chk_filter ok insns) = Some (Inl e)" for raw e
    using that by (auto split: prod.splits dest: sk_chk_filter_err)
  show "\<exists>v. sk_run_filter cpu pkt prog = Some v"
    if "(case raw of (ok, insns) \<Rightarrow> sk_chk_filter ok insns) = Some (Inr prog)" "bpf_fit pkt prog"
    for raw prog pkt
    using that by (auto simp: bpf_fit_def split: prod.splits intro: accepted_filter_runs)
qed

subsection \<open>The invariant of a socket\<close>

abbreviation vetted_prog :: "bpf_s sock_filter list \<Rightarrow> bool" where
  "vetted_prog \<equiv> filter_engine.vetted (\<lambda>(ok, insns). sk_chk_filter ok insns)"

text \<open>
  \<open>sock_inv base st\<close>: apart from \<open>base\<close> bytes charged for other options, the socket is charged
  exactly for its filter, which is in memory, referenced and was let through by the checker.
\<close>

definition sock_inv :: "int \<Rightarrow> sock_state \<Rightarrow> bool" where
  "sock_inv base st \<longleftrightarrow>
     (case sk_filt st of
        None \<Rightarrow> sk_omem_alloc st = base
      | Some p \<Rightarrow>
          (case filters st p of
             None \<Rightarrow> False
           | Some fp \<Rightarrow> 1 \<le> fo_refcnt fp \<and> vetted_prog (fo_insns fp) \<and>
               sk_omem_alloc st = base + uint (sk_filter_len (fo_len fp))))"

lemma uint_filter_size:
  "uint (8 * ucast (len :: u16) + 16 :: u32) = 8 * uint len + 16"
  "sint (8 * ucast (len :: u16) + 16 :: u32) = 8 * uint len + 16"
  "uint (sk_filter_len (ucast (len :: u16))) = 8 * uint len + 16"
proof -
  have l: "uint len < 65536" using uint_lt2p [of len] by simp
  have u: "uint (ucast len :: u32) = uint len" by (simp add: uint_up_ucast is_up)
  show a: "uint (8 * ucast len + 16 :: u32) = 8 * uint len + 16"
    using l u by (simp add: uint_word_ariths)
  then show "sint (8 * ucast len + 16 :: u32) = 8 * uint len + 16"
    using l by (subst sint_small) simp_all
  show "uint (sk_filter_len (ucast len)) = 8 * uint len + 16"
    using a by (simp add: sk_filter_len_def mult.commute)
qed

lemma sock_kmalloc_cases:
  "(sock_kmalloc env sz st = (None, st)) \<or>
   (\<exists>p. kmalloc_res env = Some p \<and>
      sock_kmalloc env sz st = (Some p, st\<lparr>sk_omem_alloc := sk_omem_alloc st + sint sz\<rparr>))"
  by (simp add: sock_kmalloc_def Let_def split: option.split)

text \<open>The two ways \<open>sk_attach_filter\<close> ends.\<close>

lemma sk_attach_filter_cases:
  assumes inv: "sock_inv base st" and fresh: "\<And>p. kmalloc_res env = Some p \<Longrightarrow> filters st p = None"
  obtains (refused) err where "sk_attach_filter env fprog st = Some (err, st)" "err \<noteq> 0"
  | (attached) p fp where "sk_attach_filter env fprog st = Some (0,
        (case sk_filt st of None \<Rightarrow> id | Some q \<Rightarrow> sk_filter_uncharge q (the (filters st q)))
          (st\<lparr>sk_omem_alloc := sk_omem_alloc st + uint (sk_filter_len (fo_len fp)),
              sk_filt := Some p, filters := (filters st)(p \<mapsto> fp)\<rparr>))"
      "kmalloc_res env = Some p" "fo_refcnt fp = 1" "vetted_prog (fo_insns fp)"
proof -
  let ?m = "sock_kmalloc env (8 * ucast (fp_len fprog) + 16) st"
  let ?st = "st\<lparr>sk_omem_alloc := sk_omem_alloc st + (8 * uint (fp_len fprog) + 16)\<rparr>"
  show thesis
  proof (cases "fp_filter fprog")
    case None
    then show thesis by (intro refused [of "- EINVAL"]) (simp_all add: sk_attach_filter_def)
  next
    case (Some user)
    consider "?m = (None, st)" | p where "kmalloc_res env = Some p" "?m = (Some p, ?st)"
      using sock_kmalloc_cases [of env "8 * ucast (fp_len fprog) + 16" st] by (auto simp: uint_filter_size)
    then show thesis
    proof cases
      case 1
      with Some show thesis by (intro refused [of "- ENOMEM"]) (simp_all add: sk_attach_filter_def)
    next
      case (2 p)
      show thesis
      proof (cases "copy_insns_from_user user (unat (fp_len fprog))")
        case None
        with Some 2 show thesis
          by (intro refused [of "- EFAULT"]) (simp_all add: sk_attach_filter_def sock_kfree_s_def uint_filter_size)
      next
        case insns: (Some insns)
        show thesis
        proof (rule bpf.check_cases [of "(kmalloc_masks_ok env, insns)"])
          fix e assume "(case (kmalloc_masks_ok env, insns) of (ok, insns) \<Rightarrow> sk_chk_filter ok insns) = Some (Inl e)" "e \<noteq> 0"
          with Some 2 insns show thesis
            by (intro refused [of e]) (simp_all add: sk_attach_filter_def uint_filter_size)
        next
          fix prog assume v: "(case (kmalloc_masks_ok env, insns) of (ok, insns) \<Rightarrow> sk_chk_filter ok insns) = Some (Inr prog)" "vetted_prog prog"
          show thesis
          proof (rule attached [of p "\<lparr>fo_refcnt = 1, fo_len = ucast (fp_len fprog), fo_insns = prog\<rparr>"])
          qed (use Some 2 insns v inv fresh in \<open>auto simp: sk_attach_filter_def uint_filter_size Let_def sock_inv_def split: option.splits\<close>)
        qed
      qed
    qed
  qed
qed

lemma sk_attach_filter_step:
  assumes "sock_inv base st" and "\<And>p. kmalloc_res env = Some p \<Longrightarrow> filters st p = None"
  shows "\<exists>err st'. sk_attach_filter env fprog st = Some (err, st') \<and> sock_inv base st' \<and>
    (if err = 0 then sk_filt st' = kmalloc_res env \<and> sk_filt st' \<noteq> None else st' = st)"
proof (rule sk_attach_filter_cases [OF assms, of env fprog])
  fix err assume "sk_attach_filter env fprog st = Some (err, st)" "err \<noteq> 0"
  with assms show ?thesis by simp
next
  fix p fp
  assume "sk_attach_filter env fprog st = Some (0,
        (case sk_filt st of None \<Rightarrow> id | Some q \<Rightarrow> sk_filter_uncharge q (the (filters st q)))
          (st\<lparr>sk_omem_alloc := sk_omem_alloc st + uint (sk_filter_len (fo_len fp)),
              sk_filt := Some p, filters := (filters st)(p \<mapsto> fp)\<rparr>))"
    "kmalloc_res env = Some p" "fo_refcnt fp = 1" "vetted_prog (fo_insns fp)"
  with assms show ?thesis
    by (cases "sk_filt st")
       (fastforce simp: sock_inv_def sk_filter_uncharge_def sk_filter_release_def split: option.splits)+
qed

lemma sk_detach_filter_step:
  assumes "sock_inv base st"
  shows "\<exists>err st'. sk_detach_filter st = Some (err, st') \<and> sk_filt st' = None \<and> sk_omem_alloc st' = base \<and>
    (\<forall>p fp. sk_filt st = Some p \<and> filters st p = Some fp \<longrightarrow>
       filters st' p = (if fo_refcnt fp = 1 then None else Some (fp\<lparr>fo_refcnt := fo_refcnt fp - 1\<rparr>)))"
  using assms
  by (auto simp: sk_detach_filter_def sock_inv_def sk_filter_uncharge_def sk_filter_release_def
      split: option.splits)

subsection \<open>Sequences of operations on a socket\<close>

inductive sock_step :: "sock_state \<Rightarrow> sock_state \<Rightarrow> bool" where
  attach: "(\<And>p. kmalloc_res env = Some p \<Longrightarrow> filters st p = None) \<Longrightarrow>
    sk_attach_filter env fprog st = Some (err, st') \<Longrightarrow> sock_step st st'"
| detach: "sk_detach_filter st = Some (err, st') \<Longrightarrow> sock_step st st'"

interpretation sock: transition_system sock_step "sock_inv base" for base
proof unfold_locales
  show "sock_inv base st'" if "sock_inv base st" "sock_step st st'" for st st'
    using that(2,1)
  proof cases
    case (attach env fprog err)
    with that(1) sk_attach_filter_step [of base st env fprog] show ?thesis by auto
  next
    case (detach err)
    with that(1) sk_detach_filter_step [of base st] show ?thesis by (auto simp: sock_inv_def)
  qed
qed

subsection \<open>Properties\<close>

text \<open>\<open>sk_chk_filter\<close> itself never reads or writes outside its arrays, whatever the program.\<close>

theorem sk_chk_filter_memory_safe: "\<exists>res. sk_chk_filter kmalloc_ok insns = Some res"
  using bpf.check_answers [of "(kmalloc_ok, insns)"] by simp

text \<open>C1: a program accepted by \<open>sk_chk_filter\<close> runs on every well-formed packet to a return
  value, without ever leaving the program, indexing the scratch memory out of range, reading a
  scratch cell that was not written, or reading outside the packet, provided it does not use the
  nested netlink attribute load and, if it uses the plain one, the packet has at least 4 bytes.\<close>

theorem sk_run_filter_safe:
  assumes "sk_chk_filter kmalloc_ok insns = Some (Inr prog)" and "wf_skb skb"
    and "\<forall>f \<in> set prog. nlattr_ok skb (sf_code f)"
  shows "\<exists>v. sk_run_filter cpu skb prog = Some v"
  using bpf.run_answers [of "(kmalloc_ok, insns)" prog skb cpu] assms by (simp add: bpf_fit_def)

theorem sk_run_filter_safe_witness: "\<exists>v. sk_run_filter 0 sample_skb sample_prog = Some v"
  by (rule sk_run_filter_safe [OF sample_filter_accepted wf_sample_skb])
     (simp add: sample_prog_def nlattr_ok_def)

text \<open>C4: attaching a filter is atomic. On a socket that is charged exactly for its filter,
  \<open>sk_attach_filter\<close> always returns; with an error it leaves the socket, its charge and every filter as
  they were, and otherwise the new filter is attached, the old one is uncharged, and the socket is
  again charged exactly for its filter.\<close>

theorem sk_attach_filter_atomic:
  assumes "sock_inv base st" and "\<And>p. kmalloc_res env = Some p \<Longrightarrow> filters st p = None"
  shows "\<exists>err st'. sk_attach_filter env fprog st = Some (err, st') \<and> sock_inv base st' \<and>
    (if err = 0 then sk_filt st' = kmalloc_res env \<and> sk_filt st' \<noteq> None else st' = st)"
  using sk_attach_filter_step [OF assms] .

definition sample_sock :: sock_state where
  "sample_sock = \<lparr>sk_omem_alloc = 40, sk_filt = None, filters = (\<lambda>_. None)\<rparr>"

definition sample_env :: attach_env where
  "sample_env = \<lparr>optmem_max = 10240, kmalloc_res = Some 7, kmalloc_masks_ok = True\<rparr>"

definition sample_fprog :: sock_fprog where
  "sample_fprog = \<lparr>fp_len = 1, fp_filter = Some [\<lparr>sf_code = 6, sf_jt = 0, sf_jf = 0, sf_k = 5\<rparr>]\<rparr>"

lemma sample_sock_inv: "sock_inv 40 sample_sock"
  by (simp add: sample_sock_def sock_inv_def)

lemma sample_env_fresh: "kmalloc_res sample_env = Some 7" "filters sample_sock p = None"
  by (simp_all add: sample_env_def sample_sock_def)

lemma sample_fprog_checked: "sk_chk_filter True [\<lparr>sf_code = 6, sf_jt = 0, sf_jf = 0, sf_k = 5\<rparr>] =
    Some (Inr [\<lparr>sf_code = BPF_S_RET_K, sf_jt = 0, sf_jf = 0, sf_k = 5\<rparr>])"
  by code_simp

theorem sk_attach_filter_atomic_witness:
  "\<exists>err st'. sk_attach_filter sample_env sample_fprog sample_sock = Some (err, st') \<and> sock_inv 40 st' \<and>
    (if err = 0 then sk_filt st' = Some 7 \<and> sk_filt st' \<noteq> None else st' = sample_sock)"
  using sk_attach_filter_atomic [OF sample_sock_inv, of sample_env sample_fprog]
  unfolding sample_env_fresh by simp

definition sample_filtered :: sock_state where
  "sample_filtered = \<lparr>sk_omem_alloc = 64, sk_filt = Some 7, filters = [7 \<mapsto>
    \<lparr>fo_refcnt = 1, fo_len = 1, fo_insns = [\<lparr>sf_code = BPF_S_RET_K, sf_jt = 0, sf_jf = 0, sf_k = 5\<rparr>]\<rparr>]\<rparr>"

lemma sample_attached: "sock_step\<^sup>*\<^sup>* sample_sock sample_filtered"
proof -
  have "sk_attach_filter sample_env sample_fprog sample_sock = Some (0, sample_filtered)"
    using sample_fprog_checked
    by (simp add: sk_attach_filter_def sample_env_def sample_fprog_def sample_sock_def sock_kmalloc_def
        copy_insns_from_user_def sample_filtered_def Let_def)
  then have "sock_step sample_sock sample_filtered"
    by (rule sock_step.attach [rotated]) (simp add: sample_env_fresh)
  then show ?thesis ..
qed

text \<open>C5: whatever sequence of attach and detach calls a socket has seen, detaching returns, leaves it
  with no filter and exactly the charge it had before its first filter, and frees the filter unless
  another socket still holds it.\<close>

theorem socket_charge_restored:
  assumes "sock_step\<^sup>*\<^sup>* st0 st" and "sk_filt st0 = None"
  shows "\<exists>err st'. sk_detach_filter st = Some (err, st') \<and> sk_filt st' = None \<and>
    sk_omem_alloc st' = sk_omem_alloc st0 \<and>
    (\<forall>p fp. sk_filt st = Some p \<and> filters st p = Some fp \<longrightarrow>
       filters st' p = (if fo_refcnt fp = 1 then None else Some (fp\<lparr>fo_refcnt := fo_refcnt fp - 1\<rparr>)))"
  using sk_detach_filter_step sock.reachable_inv [OF assms(1), of "sk_omem_alloc st0"] assms(2)
  by (simp add: sock_inv_def)

theorem socket_charge_restored_witness:
  "\<exists>st. sock_step\<^sup>*\<^sup>* sample_sock st \<and> sk_filt st = Some 7 \<and>
    (\<exists>err st'. sk_detach_filter st = Some (err, st') \<and> sk_filt st' = None \<and> sk_omem_alloc st' = 40)"
  using socket_charge_restored [OF sample_attached] sample_attached
  by (intro exI [of _ sample_filtered]) (auto simp: sample_sock_def sample_filtered_def)

text \<open>C3: \<open>sk_filter\<close> returns without a memory fault on a socket reached by attach and detach
  calls, whatever the security module and \<open>pskb_trim\<close> answer, when the attached filter is fit for the
  packet (\<open>bpf_fit\<close>): the packet is well formed, the filter does not use the nested netlink attribute
  load and, if it uses the plain one, the packet has at least 4 bytes.\<close>

theorem sk_filter_verdict:
  assumes "sock_step\<^sup>*\<^sup>* st0 st" and "sk_filt st0 = None"
    and "\<And>p fp. sk_filt st = Some p \<Longrightarrow> filters st p = Some fp \<Longrightarrow> bpf_fit skb (fo_insns fp)"
  shows "\<exists>err skb'. sk_filter security_sock_rcv_skb pskb_trim cpu st skb = Some (err, skb')"
proof (cases "sk_filt st")
  case None
  then show ?thesis by (simp add: sk_filter_def Let_def)
next
  case (Some p)
  have "sock_inv (sk_omem_alloc st0) st"
    using sock.reachable_inv [OF assms(1)] assms(2) by (simp add: sock_inv_def)
  with Some obtain fp where fp: "filters st p = Some fp" "vetted_prog (fo_insns fp)"
    by (auto simp: sock_inv_def split: option.splits)
  with Some assms(3) bpf.vetted_runs obtain v where "sk_run_filter cpu skb (fo_insns fp) = Some v" by blast
  with Some fp show ?thesis by (auto simp: sk_filter_def Let_def)
qed

theorem sk_filter_verdict_witness:
  "sk_filt sample_filtered = Some 7 \<and>
   (\<exists>err skb'. sk_filter (\<lambda>_. 0) (\<lambda>skb n. (0, skb)) 0 sample_filtered sample_skb = Some (err, skb'))"
proof -
  have fit: "bpf_fit sample_skb (fo_insns fp)" if "sk_filt sample_filtered = Some p" "filters sample_filtered p = Some fp" for p fp
    using that wf_sample_skb by (auto simp: sample_filtered_def bpf_fit_def nlattr_ok_def)
  have "\<exists>err skb'. sk_filter (\<lambda>_. 0) (\<lambda>skb n. (0, skb)) 0 sample_filtered sample_skb = Some (err, skb')"
    by (rule sk_filter_verdict [OF sample_attached _ fit]) (simp_all add: sample_sock_def)
  then show ?thesis
    by (simp add: sample_filtered_def)
qed

end
