(* ===== verification/Ring_Buffer.thy ===== *)
theory Ring_Buffer
  imports Kernel_Prelude
begin

text \<open>
  Generic facts about a ring of \<open>B\<close> cells kept in the first \<open>B\<close> cells of a list: masking an index
  with a power of two, and reading and writing runs of cells that may wrap around the end. The
  component theories reduce their pairs of \<open>memcpy\<close> calls to \<open>ring_read\<close> and \<open>ring_write\<close>.
\<close>

lemma unat_and_mask:
  fixes x m :: u32
  assumes "unat m + 1 = 2 ^ k"
  shows "unat (x AND m) = unat x mod (unat m + 1)"
proof -
  have "k \<le> 32"
  proof (rule ccontr)
    assume "\<not> k \<le> 32"
    then have "(2 :: nat) ^ 33 \<le> 2 ^ k" by (intro power_increasing) auto
    with assms have "8589934592 \<le> unat m + 1" by simp
    with unat_less_u32 [of m] show False by linarith
  qed
  have "uint m = 2 ^ k - 1" using arg_cong [OF assms, of int] by simp
  then have "uint m = uint (mask k :: u32)"
    using \<open>k \<le> 32\<close> uint_mask_eq [of k, where 'a = 32] by (simp add: mask_eq_exp_minus_1 [of k, where 'a = int] min_absorb2)
  then have "m = mask k" by (simp only: word_uint_eq_iff)
  then have "x AND m = take_bit k x" by (simp add: take_bit_eq_mask)
  then have "unat (x AND m) = take_bit k (unat x)" by (simp only: unsigned_take_bit_eq)
  then show ?thesis
    using assms by (simp add: take_bit_eq_mod)
qed

lemma mod_add_below:
  fixes p k B :: nat
  assumes "0 < B" "k \<le> B"
  shows "(p + k) mod B = (if p mod B + k < B then p mod B + k else p mod B + k - B)"
proof -
  have p: "p mod B < B" using assms by simp
  show ?thesis
  proof (cases "p mod B + k < B")
    case True
    then show ?thesis using mod_less [OF True] by (simp add: mod_add_left_eq)
  next
    case False
    then have "p mod B + k - B < B" using p assms by linarith
    then show ?thesis using False le_mod_geq [of B "p mod B + k"] mod_less [of "p mod B + k - B" B]
      by (simp add: mod_add_left_eq)
  qed
qed

lemma unat_add_mod:
  fixes a b :: u32
  assumes "n dvd 2 ^ 32"
  shows "unat (a + b) mod n = (unat a + unat b) mod n"
  using assms by (simp add: unat_word_ariths mod_mod_cancel)

lemma unat_mult_less: "unat a * unat b < 2 ^ 32 \<Longrightarrow> unat (a * b :: u32) = unat a * unat b"
  by (simp add: unat_word_ariths)

definition ring_read :: "'a list \<Rightarrow> nat \<Rightarrow> nat \<Rightarrow> nat \<Rightarrow> 'a list" where
  "ring_read d B p n = map (\<lambda>i. d ! ((p + i) mod B)) [0..<n]"

definition ring_write :: "'a list \<Rightarrow> nat \<Rightarrow> nat \<Rightarrow> 'a list \<Rightarrow> 'a list" where
  "ring_write d B p xs =
     (let p = p mod B; l = min (length xs) (B - p) in list_put (list_put d p (take l xs)) 0 (drop l xs))"

lemma length_ring_read [simp]: "length (ring_read d B p n) = n"
  by (simp add: ring_read_def)

lemma ring_write_parts:
  assumes "w < B" "B \<le> length d" "length xs \<le> B" and l: "l = min (length xs) (B - w)"
  shows "length (list_put (list_put d w (take l xs)) 0 (drop l xs)) = length d"
    and "q < B \<Longrightarrow> list_put (list_put d w (take l xs)) 0 (drop l xs) ! q =
      (if w \<le> q \<and> q < w + l then xs ! (q - w) else if q < length xs - l then xs ! (l + q) else d ! q)"
proof -
  have len: "l \<le> length xs" "w + l \<le> length d" "length xs - l \<le> w" using assms by auto
  then have d': "length (list_put d w (take l xs)) = length d" by simp
  then show "length (list_put (list_put d w (take l xs)) 0 (drop l xs)) = length d"
    using assms len by simp
  show "list_put (list_put d w (take l xs)) 0 (drop l xs) ! q =
      (if w \<le> q \<and> q < w + l then xs ! (q - w) else if q < length xs - l then xs ! (l + q) else d ! q)"
    if "q < B"
  proof -
    have "list_put (list_put d w (take l xs)) 0 (drop l xs) ! q =
      (if q < length xs - l then xs ! (l + q) else list_put d w (take l xs) ! q)"
      using that assms len d' by (simp add: nth_list_put)
    moreover have "list_put d w (take l xs) ! q = (if w \<le> q \<and> q < w + l then xs ! (q - w) else d ! q)"
      using that assms(2) len by (auto simp: nth_list_put)
    ultimately show ?thesis using len by simp
  qed
qed

lemma length_ring_write [simp]:
  "0 < B \<Longrightarrow> B \<le> length d \<Longrightarrow> length xs \<le> B \<Longrightarrow> length (ring_write d B p xs) = length d"
  unfolding ring_write_def Let_def by (rule ring_write_parts(1) [of _ B]) simp_all

lemma ring_read_two_parts:
  assumes "n \<le> B" "0 < B" "B \<le> length d"
  shows "ring_read d B p n =
    (let p = p mod B; l = min n (B - p) in take l (drop p d) @ take (n - l) d)"
proof (rule nth_equalityI)
  have p: "p mod B < B" using assms by simp
  show "length (ring_read d B p n) = length (let p = p mod B; l = min n (B - p) in take l (drop p d) @ take (n - l) d)"
    using assms p by (auto simp: Let_def)
  fix i assume "i < length (ring_read d B p n)"
  then have i: "i < n" by simp
  have "(p + i) mod B = (if p mod B + i < B then p mod B + i else p mod B + i - B)"
    using i assms by (intro mod_add_below) auto
  then show "ring_read d B p n ! i = (let p = p mod B; l = min n (B - p) in take l (drop p d) @ take (n - l) d) ! i"
    using p i assms by (auto simp: ring_read_def Let_def nth_append add.commute)
qed

lemma ring_position:
  fixes r m k n w q l B :: nat
  assumes "r < B" "k < B" "m + n \<le> B"
    and "w = (if r + m < B then r + m else r + m - B)" and "q = (if r + k < B then r + k else r + k - B)"
    and "l = min n (B - w)"
  shows "w \<le> q \<and> q < w + l \<and> m \<le> k \<and> k < m + n \<and> q - w = k - m \<or>
    \<not> (w \<le> q \<and> q < w + l) \<and> q < n - l \<and> m \<le> k \<and> k < m + n \<and> l + q = k - m \<or>
    \<not> (w \<le> q \<and> q < w + l) \<and> \<not> q < n - l \<and> \<not> (m \<le> k \<and> k < m + n)"
proof -
  have w: "w = r + m \<and> r + m < B \<or> w + B = r + m" and q: "q = r + k \<and> r + k < B \<or> q + B = r + k"
    using assms by (auto split: if_splits)
  have l: "l = n \<and> w + n \<le> B \<or> l + w = B \<and> B < w + n" "w < B" using assms w by auto
  consider "m \<le> k" "k < m + n" "w \<le> q" "q < w + l" | "m \<le> k" "k < m + n" "\<not> (w \<le> q \<and> q < w + l)"
    | "\<not> (m \<le> k \<and> k < m + n)" by blast
  then show ?thesis
  proof cases
    case 1
    then have "q - w = k - m" using w q l assms(1-3) by linarith
    with 1 show ?thesis by simp
  next
    case 2
    then have "q < n - l" "l + q = k - m" using w q l assms(1-3) by linarith+
    with 2 show ?thesis by simp
  next
    case 3
    then have "\<not> (w \<le> q \<and> q < w + l)" "\<not> q < n - l" using w q l assms(1-3) by linarith+
    with 3 show ?thesis by simp
  qed
qed

lemma nth_ring_write:
  assumes "0 < B" "B \<le> length d" "k < B" "m + length xs \<le> B"
  shows "ring_write d B (p + m) xs ! ((p + k) mod B) =
    (if m \<le> k \<and> k < m + length xs then xs ! (k - m) else d ! ((p + k) mod B))"
proof -
  have p: "p mod B < B" using assms by simp
  have w: "(p + m) mod B = (if p mod B + m < B then p mod B + m else p mod B + m - B)"
    using assms by (intro mod_add_below) auto
  have q: "(p + k) mod B = (if p mod B + k < B then p mod B + k else p mod B + k - B)"
    using assms by (intro mod_add_below) auto
  define l where "l = min (length xs) (B - (p + m) mod B)"
  have "ring_write d B (p + m) xs ! ((p + k) mod B) =
     (if (p + m) mod B \<le> (p + k) mod B \<and> (p + k) mod B < (p + m) mod B + l then xs ! ((p + k) mod B - (p + m) mod B)
      else if (p + k) mod B < length xs - l then xs ! (l + (p + k) mod B) else d ! ((p + k) mod B))"
    using assms ring_write_parts(2) [of "(p + m) mod B" B d xs l "(p + k) mod B"]
    by (simp add: ring_write_def Let_def l_def)
  also have "\<dots> = (if m \<le> k \<and> k < m + length xs then xs ! (k - m) else d ! ((p + k) mod B))"
    using ring_position [OF p assms(3,4) w q l_def] by auto
  finally show ?thesis .
qed

lemma ring_read_write_after:
  assumes "0 < B" "B \<le> length d" "m + length xs \<le> B"
  shows "ring_read (ring_write d B (p + m) xs) B p (m + length xs) = ring_read d B p m @ xs"
  using assms
  by (intro nth_equalityI) (auto simp: ring_read_def nth_append nth_ring_write)

lemma take_ring_read: "j \<le> n \<Longrightarrow> take j (ring_read d B p n) = ring_read d B p j"
  by (simp add: ring_read_def take_map)

lemma drop_ring_read: "drop j (ring_read d B p n) = ring_read d B (p + j) (n - j)"
  by (intro nth_equalityI) (auto simp: ring_read_def add.assoc)

lemma ring_read_mod: "ring_read d B (p mod B) n = ring_read d B p n"
  by (simp add: ring_read_def mod_add_left_eq)

lemma ring_write_mod: "ring_write d B (p mod B) xs = ring_write d B p xs"
  by (simp add: ring_write_def)

lemma ring_read_write_prefix:
  assumes "0 < B" "B \<le> length d" "m + length xs \<le> B" "j \<le> length xs"
  shows "ring_read (ring_write d B (p + m) xs) B p (m + j) = ring_read d B p m @ take j xs"
proof -
  have "ring_read (ring_write d B (p + m) xs) B p (m + j) =
      take (m + j) (ring_read (ring_write d B (p + m) xs) B p (m + length xs))"
    using assms by (simp add: take_ring_read)
  then show ?thesis using assms by (simp add: ring_read_write_after)
qed

lemma ring_write_flat: "length xs \<le> B - p mod B \<Longrightarrow> ring_write d B p xs = list_put d (p mod B) xs"
  by (simp add: ring_write_def Let_def)

lemma ring_write_padded:
  assumes "l = min n (B - p mod B)" "l \<le> length user" "l \<le> n"
  shows "list_put (list_put d (p mod B) (take l user)) 0 (take (n - l) (drop l user) @ replicate (n - length user) 0) =
    ring_write d B p (take n user @ replicate (n - length user) 0)"
proof -
  let ?xs = "take n user @ replicate (n - length user) 0"
  have "length ?xs = n" by simp
  moreover have "take l ?xs = take l user" "drop l ?xs = take (n - l) (drop l user) @ replicate (n - length user) 0"
    using assms(2,3) by (simp_all add: min_def drop_take)
  ultimately show ?thesis using assms(1) by (simp add: ring_write_def Let_def)
qed

end
