(* ===== verification/Kfifo.thy ===== *)
theory Kfifo
  imports Ring_Buffer
begin

text \<open>
  The generic FIFO of \<open>kernel/kfifo.c\<close> and \<open>include/linux/kfifo.h\<close>: a ring buffer whose indices
  \<open>in\<close> and \<open>out\<close> run freely modulo \<open>2\<^sup>3\<^sup>2\<close> and are masked at each access. This theory
  holds the state and the plain element operations; theory \<open>Kfifo_User\<close> those that copy from and to
  user space and \<open>Kfifo_Record\<close> those on variable-length records.

  A buffer is the list of its bytes (\<open>None\<close> for a NULL pointer). The source and destination of
  \<open>memcpy\<close> outside the FIFO are byte lists too: the readable bytes at a source pointer, the bytes
  written to a destination.

  The functions \<open>__kfifo_f\<close> are called \<open>raw_kfifo_f\<close> here, the macros \<open>kfifo_f\<close> have their name.
  A macro's \<open>sizeof\<close> of the record length field is the argument \<open>recsize\<close>.

  The lemmas show that under \<open>wf_kfifo\<close> every operation stays inside the buffer and that the
  FIFO implements a bounded queue: \<open>kfifo_bytes\<close> is the queue's content.
\<close>

record kfifo =
  kf_in :: u32
  kf_out :: u32
  kf_mask :: u32
  kf_esize :: u32
  kf_data :: "u8 list option"

subsection \<open>Creation\<close>

definition is_power_of_2 :: "u32 \<Rightarrow> bool" where
  "is_power_of_2 n \<longleftrightarrow> n \<noteq> 0 \<and> n AND (n - 1) = 0"

fun fls_nat :: "nat \<Rightarrow> nat" where
  "fls_nat n = (if n = 0 then 0 else Suc (fls_nat (n div 2)))"

declare fls_nat.simps [simp del]

definition fls_long :: "u32 \<Rightarrow> u32" where
  "fls_long l = of_nat (fls_nat (unat l))"

definition rounddown_pow_of_two :: "u32 \<Rightarrow> u32" where
  "rounddown_pow_of_two n = shl32 1 (fls_long n - 1)"

definition kfifo_unused :: "kfifo \<Rightarrow> u32" where
  "kfifo_unused fifo = (kf_mask fifo + 1) - (kf_in fifo - kf_out fifo)"

text \<open>\<open>kmalloc\<close> is a parameter: the bytes of the new object, or \<open>None\<close>.\<close>

definition raw_kfifo_alloc :: "(u32 \<Rightarrow> u8 list option) \<Rightarrow> kfifo \<Rightarrow> u32 \<Rightarrow> u32 \<Rightarrow> errno \<times> kfifo" where
  "raw_kfifo_alloc kmalloc fifo sz esize =
     (let sz = (if \<not> is_power_of_2 sz then rounddown_pow_of_two sz else sz);
          fifo = fifo\<lparr>kf_in := 0, kf_out := 0, kf_esize := esize\<rparr> in
      if sz < 2 then (- EINVAL, fifo\<lparr>kf_data := None, kf_mask := 0\<rparr>)
      else
        (let fifo = fifo\<lparr>kf_data := kmalloc (sz * esize)\<rparr> in
         if kf_data fifo = None then (- ENOMEM, fifo\<lparr>kf_mask := 0\<rparr>)
         else (0, fifo\<lparr>kf_mask := sz - 1\<rparr>)))"

definition raw_kfifo_free :: "kfifo \<Rightarrow> kfifo" where
  "raw_kfifo_free fifo =
     fifo\<lparr>kf_in := 0, kf_out := 0, kf_esize := 0, kf_data := None, kf_mask := 0\<rparr>"

definition raw_kfifo_init :: "kfifo \<Rightarrow> u8 list \<Rightarrow> u32 \<Rightarrow> u32 \<Rightarrow> errno \<times> kfifo" where
  "raw_kfifo_init fifo buffer sz esize =
     (let sz = sz div esize;
          sz = (if \<not> is_power_of_2 sz then rounddown_pow_of_two sz else sz);
          fifo = fifo\<lparr>kf_in := 0, kf_out := 0, kf_esize := esize, kf_data := Some buffer\<rparr> in
      if sz < 2 then (- EINVAL, fifo\<lparr>kf_mask := 0\<rparr>)
      else (0, fifo\<lparr>kf_mask := sz - 1\<rparr>))"

subsection \<open>Copying in and out of the ring\<close>

text \<open>
  The lines shared by \<open>kfifo_copy_in\<close>, \<open>kfifo_copy_out\<close>, \<open>kfifo_copy_from_user\<close>,
  \<open>kfifo_copy_to_user\<close> and \<open>setup_sgl\<close>: the offset and the length in bytes, and the length \<open>l\<close>
  of the part before the end of the buffer.
\<close>

definition kfifo_span :: "kfifo \<Rightarrow> u32 \<Rightarrow> u32 \<Rightarrow> u32 \<times> u32 \<times> u32" where
  "kfifo_span fifo len off =
     (let sz = kf_mask fifo + 1; esize = kf_esize fifo; off = off AND kf_mask fifo;
          (off, sz, len) =
            (if esize \<noteq> 1 then (off * esize, sz * esize, len * esize) else (off, sz, len)) in
      (off, min len (sz - off), len))"

definition kfifo_copy_in :: "kfifo \<Rightarrow> u8 list \<Rightarrow> u32 \<Rightarrow> u32 \<Rightarrow> kfifo option" where
  "kfifo_copy_in fifo src len off =
     (case kfifo_span fifo len off of (off, l, len) \<Rightarrow> do {
        data \<leftarrow> kf_data fifo;
        a \<leftarrow> mem_read src 0 (unat l);
        data \<leftarrow> mem_write data (unat off) a;
        b \<leftarrow> mem_read src (unat l) (unat (len - l));
        data \<leftarrow> mem_write data 0 b;
        Some (fifo\<lparr>kf_data := Some data\<rparr>)
      })"

definition raw_kfifo_in :: "kfifo \<Rightarrow> u8 list \<Rightarrow> u32 \<Rightarrow> (u32 \<times> kfifo) option" where
  "raw_kfifo_in fifo buf len =
     (let l = kfifo_unused fifo; len = (if len > l then l else len) in do {
        fifo \<leftarrow> kfifo_copy_in fifo buf len (kf_in fifo);
        Some (len, fifo\<lparr>kf_in := kf_in fifo + len\<rparr>)
      })"

definition kfifo_copy_out :: "kfifo \<Rightarrow> u32 \<Rightarrow> u32 \<Rightarrow> u8 list option" where
  "kfifo_copy_out fifo len off =
     (case kfifo_span fifo len off of (off, l, len) \<Rightarrow> do {
        data \<leftarrow> kf_data fifo;
        a \<leftarrow> mem_read data (unat off) (unat l);
        b \<leftarrow> mem_read data 0 (unat (len - l));
        Some (a @ b)
      })"

definition raw_kfifo_out_peek :: "kfifo \<Rightarrow> u32 \<Rightarrow> (u32 \<times> u8 list) option" where
  "raw_kfifo_out_peek fifo len =
     (let l = kf_in fifo - kf_out fifo; len = (if len > l then l else len) in
      map_option (\<lambda>bs. (len, bs)) (kfifo_copy_out fifo len (kf_out fifo)))"

definition raw_kfifo_out :: "kfifo \<Rightarrow> u32 \<Rightarrow> (u32 \<times> u8 list \<times> kfifo) option" where
  "raw_kfifo_out fifo len =
     map_option (\<lambda>(len, bs). (len, bs, fifo\<lparr>kf_out := kf_out fifo + len\<rparr>))
       (raw_kfifo_out_peek fifo len)"

subsection \<open>The invariant and the queue it represents\<close>

definition kf_size :: "kfifo \<Rightarrow> nat" where
  "kf_size f = unat (kf_mask f) + 1"

definition kf_len :: "kfifo \<Rightarrow> nat" where
  "kf_len f = unat (kf_in f - kf_out f)"

definition kf_buf :: "kfifo \<Rightarrow> u8 list" where
  "kf_buf f = (case kf_data f of None \<Rightarrow> [] | Some d \<Rightarrow> d)"

definition wf_kfifo :: "kfifo \<Rightarrow> bool" where
  "wf_kfifo f \<longleftrightarrow>
     kf_data f \<noteq> None \<and> (\<exists>k \<in> {1..<32}. kf_size f = 2 ^ k) \<and> 0 < kf_esize f \<and>
     kf_size f * unat (kf_esize f) \<le> length (kf_buf f) \<and> length (kf_buf f) < 2 ^ 31 \<and>
     kf_len f \<le> kf_size f"

definition kfifo_bytes :: "kfifo \<Rightarrow> u8 list" where
  "kfifo_bytes f =
     ring_read (kf_buf f) (kf_size f * unat (kf_esize f)) (unat (kf_out f) * unat (kf_esize f))
       (kf_len f * unat (kf_esize f))"

lemma kf_update_simps [simp]:
  "kf_size (f\<lparr>kf_in := i\<rparr>) = kf_size f" "kf_size (f\<lparr>kf_out := i\<rparr>) = kf_size f" "kf_size (f\<lparr>kf_data := d\<rparr>) = kf_size f"
  "kf_buf (f\<lparr>kf_in := i\<rparr>) = kf_buf f" "kf_buf (f\<lparr>kf_out := i\<rparr>) = kf_buf f" "kf_buf (f\<lparr>kf_data := Some bs\<rparr>) = bs"
  "kf_len (f\<lparr>kf_data := d\<rparr>) = kf_len f"
  by (simp_all add: kf_size_def kf_buf_def kf_len_def)

lemma wf_kfifoD:
  assumes "wf_kfifo f"
  shows "kf_data f = Some (kf_buf f)" "0 < unat (kf_esize f)" "2 \<le> kf_size f" "kf_size f dvd 2 ^ 32"
    "kf_size f * unat (kf_esize f) \<le> length (kf_buf f)" "length (kf_buf f) < 2 ^ 31"
    "kf_len f \<le> kf_size f" "unat (kf_mask f + 1) = kf_size f"
    "unat (off AND kf_mask f) = unat off mod kf_size f"
proof -
  obtain k where k: "k \<in> {1..<32}" "kf_size f = 2 ^ k" using assms by (auto simp: wf_kfifo_def)
  show "kf_data f = Some (kf_buf f)" using assms by (auto simp: wf_kfifo_def kf_buf_def)
  show "0 < unat (kf_esize f)" using assms by (simp add: wf_kfifo_def word_less_nat_alt)
  show "kf_size f * unat (kf_esize f) \<le> length (kf_buf f)" "length (kf_buf f) < 2 ^ 31"
    "kf_len f \<le> kf_size f" using assms by (simp_all add: wf_kfifo_def)
  have "(2 :: nat) ^ 1 \<le> 2 ^ k" using k by (intro power_increasing) auto
  then show "2 \<le> kf_size f" using k by simp
  show "kf_size f dvd 2 ^ 32" using k le_imp_power_dvd [of k 32 "2 :: nat"] by simp
  have "(2 :: nat) ^ k \<le> 2 ^ 31" using k by (intro power_increasing) auto
  with k show "unat (kf_mask f + 1) = kf_size f"
    by (simp add: kf_size_def unat_word_ariths)
  show "unat (off AND kf_mask f) = unat off mod kf_size f"
    using unat_and_mask [of "kf_mask f" k off] k by (simp add: kf_size_def)
qed

abbreviation kf_bytesize :: "kfifo \<Rightarrow> nat" where
  "kf_bytesize f \<equiv> kf_size f * unat (kf_esize f)"

lemma kfifo_span_eq:
  assumes wf: "wf_kfifo f" and len: "unat len \<le> kf_size f"
  obtains o1 l n where "kfifo_span f len off = (o1, l, n)"
    "unat o1 = (unat off * unat (kf_esize f)) mod kf_bytesize f"
    "unat n = unat len * unat (kf_esize f)"
    "unat l = min (unat n) (kf_bytesize f - unat o1)"
    "unat (n - l) = unat n - unat l"
    "0 < kf_bytesize f" "unat n \<le> kf_bytesize f" "unat l \<le> unat n"
    "unat o1 + unat l \<le> length (kf_buf f)" "unat n - unat l \<le> length (kf_buf f)"
proof -
  define e where "e = unat (kf_esize f)"
  define B where "B = kf_size f * e"
  note D = wf_kfifoD [OF wf]
  have B: "B < 2 ^ 32" using D(5,6) by (simp add: B_def e_def)
  have "unat off mod kf_size f < kf_size f" using D(3) by simp
  then have off: "unat (off AND kf_mask f) * e < B"
    using D(2) mult_less_mono1 unfolding D(9) B_def e_def by blast
  have o1: "unat ((off AND kf_mask f) * kf_esize f) = unat (off AND kf_mask f) * e"
    using off B by (simp add: e_def unat_mult_less)
  have sz: "unat ((kf_mask f + 1) * kf_esize f) = B"
    using B by (simp add: B_def e_def D(8) unat_mult_less)
  have n: "unat (len * kf_esize f) = unat len * e"
    using B mult_le_mono1 [OF len, of e] unfolding B_def e_def by (intro unat_mult_less) linarith
  obtain o1 s n where span: "kfifo_span f len off = (o1, min n (s - o1), n)" and
    u: "unat o1 = unat (off AND kf_mask f) * e" "unat s = B" "unat n = unat len * e"
  proof (cases "kf_esize f = 1")
    case True
    then have "kfifo_span f len off = (off AND kf_mask f, min len (kf_mask f + 1 - (off AND kf_mask f)), len)" "e = 1"
      by (simp_all add: kfifo_span_def Let_def e_def)
    then show thesis using that D(8) by (simp add: B_def)
  next
    case False
    then have "kfifo_span f len off = ((off AND kf_mask f) * kf_esize f,
        min (len * kf_esize f) ((kf_mask f + 1) * kf_esize f - (off AND kf_mask f) * kf_esize f), len * kf_esize f)"
      by (simp add: kfifo_span_def Let_def)
    then show thesis using that o1 sz n by blast
  qed
  have o1': "unat o1 = (unat off * e) mod B"
    unfolding u(1) D(9) B_def by (rule mult_mod_left)
  have l: "unat (min n (s - o1)) = min (unat n) (B - unat o1)"
    using u off by (simp add: min_def word_le_nat_alt unat_sub)
  have d: "unat (n - min n (s - o1)) = unat n - unat (min n (s - o1))"
    by (simp add: unat_sub)
  have B0: "0 < B" using D(2,3) by (simp add: B_def e_def)
  have nB: "unat n \<le> B" using u(3) mult_le_mono1 [OF len, of e] by (simp add: B_def)
  have o1B: "unat o1 < B" "B \<le> length (kf_buf f)" using u(1) off D(5) by (simp_all add: B_def e_def)
  have parts: "unat (min n (s - o1)) \<le> unat n" "unat o1 + unat (min n (s - o1)) \<le> length (kf_buf f)"
      "unat n - unat (min n (s - o1)) \<le> length (kf_buf f)"
    unfolding l using nB o1B by linarith+
  show thesis
    by (rule that [OF span, folded e_def, folded B_def, OF o1' u(3) l d B0 nB parts])
qed

lemma kfifo_copy_in_eq:
  assumes wf: "wf_kfifo f" and len: "unat len \<le> kf_size f" and src: "unat len * unat (kf_esize f) \<le> length src"
  shows "kfifo_copy_in f src len off = Some (f\<lparr>kf_data := Some (ring_write (kf_buf f)
    (kf_bytesize f) (unat off * unat (kf_esize f)) (take (unat len * unat (kf_esize f)) src))\<rparr>)"
proof -
  note D = wf_kfifoD [OF wf]
  obtain o1 l n where span: "kfifo_span f len off = (o1, l, n)" and
    u: "unat o1 = (unat off * unat (kf_esize f)) mod kf_bytesize f" "unat n = unat len * unat (kf_esize f)"
    "unat l = min (unat n) (kf_bytesize f - unat o1)" "unat (n - l) = unat n - unat l" and
    B: "0 < kf_bytesize f" "unat n \<le> kf_bytesize f" and
    l: "unat l \<le> unat n" "unat o1 + unat l \<le> length (kf_buf f)" "unat n - unat l \<le> length (kf_buf f)"
    using kfifo_span_eq [OF wf len, of off] by blast
  have src': "unat n \<le> length src" using src u(2) by simp
  have "kfifo_copy_in f src len off = Some (f\<lparr>kf_data := Some (list_put (list_put (kf_buf f) (unat o1) (take (unat l) src)) 0
      (take (unat n - unat l) (drop (unat l) src)))\<rparr>)"
    using l src' by (simp add: kfifo_copy_in_def span D(1) mem_read_SomeI mem_write_SomeI u(4))
  moreover have "take (unat n - unat l) (drop (unat l) src) = drop (unat l) (take (unat n) src)"
    by (simp add: drop_take)
  moreover have "take (unat l) src = take (unat l) (take (unat n) src)" using l(1) by (simp add: min_def)
  ultimately show ?thesis
    using src' u by (simp add: ring_write_def Let_def min_def)
qed

lemma kfifo_copy_out_eq:
  assumes wf: "wf_kfifo f" and len: "unat len \<le> kf_size f"
  shows "kfifo_copy_out f len off = Some (ring_read (kf_buf f)
    (kf_bytesize f) (unat off * unat (kf_esize f)) (unat len * unat (kf_esize f)))"
proof -
  note D = wf_kfifoD [OF wf]
  obtain o1 l n where span: "kfifo_span f len off = (o1, l, n)" and
    u: "unat o1 = (unat off * unat (kf_esize f)) mod kf_bytesize f" "unat n = unat len * unat (kf_esize f)"
    "unat l = min (unat n) (kf_bytesize f - unat o1)" "unat (n - l) = unat n - unat l" and
    B: "0 < kf_bytesize f" "unat n \<le> kf_bytesize f" and
    l: "unat l \<le> unat n" "unat o1 + unat l \<le> length (kf_buf f)" "unat n - unat l \<le> length (kf_buf f)"
    using kfifo_span_eq [OF wf len, of off] by blast
  have "kfifo_copy_out f len off =
      Some (take (unat l) (drop (unat o1) (kf_buf f)) @ take (unat n - unat l) (kf_buf f))"
    using l by (simp add: kfifo_copy_out_def span D(1) mem_read_SomeI u(4))
  also have "\<dots> = Some (ring_read (kf_buf f) (kf_bytesize f) (unat off * unat (kf_esize f)) (unat n))"
    using ring_read_two_parts [OF B(2,1) D(5)] u by (simp add: Let_def)
  finally show ?thesis by (simp only: u(2))
qed

lemma unat_kfifo_unused: "wf_kfifo f \<Longrightarrow> unat (kfifo_unused f) = kf_size f - kf_len f"
  using wf_kfifoD(7,8) [of f] by (simp add: kfifo_unused_def kf_len_def unat_sub word_le_nat_alt)

lemma kf_len_in:
  assumes "wf_kfifo f" "unat l \<le> kf_size f - kf_len f"
  shows "unat (kf_in f + l - kf_out f) = kf_len f + unat l"
proof -
  have "kf_len f + unat l < 2 ^ 32"
    using assms wf_kfifoD(3,7) [OF assms(1)] unat_less_u32 [of "kf_mask f + 1"] unfolding wf_kfifoD(8) [OF assms(1)]
    by simp
  then have "unat ((kf_in f - kf_out f) + l) = kf_len f + unat l"
    by (simp add: unat_word_ariths kf_len_def)
  then show ?thesis by (simp add: algebra_simps)
qed

lemma kf_in_position:
  assumes "wf_kfifo f"
  shows "(unat (kf_in f) * e) mod (kf_size f * e) = (unat (kf_out f) * e + kf_len f * e) mod (kf_size f * e)"
proof -
  have "unat (kf_in f) mod kf_size f = (unat (kf_out f) + kf_len f) mod kf_size f"
    using unat_add_mod [OF wf_kfifoD(4) [OF assms], of "kf_out f" "kf_in f - kf_out f"] by (simp add: kf_len_def)
  then show ?thesis
    by (simp add: mult_mod_left [symmetric] distrib_right [symmetric])
qed

text \<open>Writing after the last element and moving \<open>in\<close> appends to the queue; moving \<open>out\<close> removes.\<close>

lemma kfifo_append:
  assumes wf: "wf_kfifo f" and fits: "kf_len f * unat (kf_esize f) + length xs \<le> kf_bytesize f"
    and s: "unat s * unat (kf_esize f) \<le> length xs"
  defines "f' \<equiv> f\<lparr>kf_data := Some (ring_write (kf_buf f) (kf_bytesize f) (unat (kf_in f) * unat (kf_esize f)) xs),
      kf_in := kf_in f + s\<rparr>"
  shows "wf_kfifo f'" "kf_size f' = kf_size f" "kf_len f' = kf_len f + unat s" "kf_esize f' = kf_esize f"
    "kfifo_bytes f' = kfifo_bytes f @ take (unat s * unat (kf_esize f)) xs"
proof -
  note D = wf_kfifoD [OF wf]
  define e where "e = unat (kf_esize f)"
  define d where "d = ring_write (kf_buf f) (kf_size f * e) (unat (kf_out f) * e + kf_len f * e) xs"
  have d: "ring_write (kf_buf f) (kf_bytesize f) (unat (kf_in f) * unat (kf_esize f)) xs = d"
    using ring_write_mod [of "kf_buf f" "kf_size f * e" _ xs] kf_in_position [OF wf, of e]
    unfolding d_def e_def by metis
  have pos: "0 < kf_size f * e" "0 < e" using D(2,3) by (auto simp: e_def)
  have "(kf_len f + unat s) * e \<le> kf_size f * e" using fits s by (simp add: e_def distrib_right)
  then have s': "unat s \<le> kf_size f - kf_len f" using pos(2) by simp
  have len_d: "length d = length (kf_buf f)"
    using D(5) fits pos unfolding d_def e_def by (intro length_ring_write) simp_all
  have f': "f' = f\<lparr>kf_data := Some d, kf_in := kf_in f + s\<rparr>" by (simp add: f'_def d)
  show "kf_size f' = kf_size f" "kf_esize f' = kf_esize f" by (simp_all add: f')
  show len': "kf_len f' = kf_len f + unat s" using kf_len_in [OF wf s'] by (simp add: f' kf_len_def)
  show "wf_kfifo f'"
    unfolding wf_kfifo_def len' using wf len_d s' D(7) by (simp add: wf_kfifo_def f')
  have "kfifo_bytes f' = ring_read d (kf_size f * e) (unat (kf_out f) * e) (kf_len f * e + unat s * e)"
    unfolding kfifo_bytes_def len' by (simp add: f' e_def distrib_right)
  also have "\<dots> = ring_read (kf_buf f) (kf_size f * e) (unat (kf_out f) * e) (kf_len f * e) @ take (unat s * e) xs"
    using pos D(5) fits s unfolding d_def e_def by (intro ring_read_write_prefix) simp_all
  finally show "kfifo_bytes f' = kfifo_bytes f @ take (unat s * unat (kf_esize f)) xs"
    by (simp add: kfifo_bytes_def e_def)
qed

lemma kfifo_advance:
  assumes wf: "wf_kfifo f" and s: "unat s \<le> kf_len f"
  defines "f' \<equiv> f\<lparr>kf_out := kf_out f + s\<rparr>"
  shows "wf_kfifo f'" "kf_size f' = kf_size f" "kf_len f' = kf_len f - unat s" "kf_esize f' = kf_esize f"
    "kfifo_bytes f' = drop (unat s * unat (kf_esize f)) (kfifo_bytes f)"
proof -
  note D = wf_kfifoD [OF wf]
  define e where "e = unat (kf_esize f)"
  show "kf_size f' = kf_size f" "kf_esize f' = kf_esize f" by (simp_all add: f'_def)
  have "unat (kf_in f - (kf_out f + s)) = kf_len f - unat s"
    using s unat_sub [of s "kf_in f - kf_out f"] by (simp add: kf_len_def word_le_nat_alt algebra_simps)
  then show len': "kf_len f' = kf_len f - unat s" by (simp add: kf_len_def f'_def)
  show "wf_kfifo f'" unfolding wf_kfifo_def len' using wf by (auto simp: wf_kfifo_def f'_def)
  have "kfifo_bytes f' = ring_read (kf_buf f) (kf_size f * e) (unat (kf_out f + s) * e) (kf_len f * e - unat s * e)"
    unfolding kfifo_bytes_def len' by (simp add: f'_def e_def diff_mult_distrib)
  also have "\<dots> = ring_read (kf_buf f) (kf_size f * e) (unat (kf_out f) * e + unat s * e) (kf_len f * e - unat s * e)"
    using unat_add_mod [OF D(4), of "kf_out f" s]
    by (metis (no_types, lifting) distrib_right mult_mod_left ring_read_mod)
  finally show "kfifo_bytes f' = drop (unat s * unat (kf_esize f)) (kfifo_bytes f)"
    by (simp add: kfifo_bytes_def e_def drop_ring_read)
qed

lemma raw_kfifo_in_eq:
  assumes wf: "wf_kfifo f" and src: "min (unat len) (kf_size f - kf_len f) * unat (kf_esize f) \<le> length src"
  obtains l f' where "raw_kfifo_in f src len = Some (l, f')" "unat l = min (unat len) (kf_size f - kf_len f)"
    "wf_kfifo f'" "kf_size f' = kf_size f" "kf_esize f' = kf_esize f"
    "kfifo_bytes f' = kfifo_bytes f @ take (unat l * unat (kf_esize f)) src"
proof -
  define l where "l = (if len > kfifo_unused f then kfifo_unused f else len)"
  have l: "unat l = min (unat len) (kf_size f - kf_len f)"
    using unat_kfifo_unused [OF wf] by (auto simp: l_def word_less_nat_alt)
  then have l': "unat l \<le> kf_size f" "kf_len f + unat l \<le> kf_size f" using wf_kfifoD(7) [OF wf] by auto
  let ?xs = "take (unat l * unat (kf_esize f)) src"
  have xs: "length ?xs = unat l * unat (kf_esize f)" using src l by simp
  have fits: "kf_len f * unat (kf_esize f) + length ?xs \<le> kf_bytesize f"
    unfolding xs distrib_right [symmetric] using l'(2) by (rule mult_le_mono1)
  show thesis
  proof (rule that [of l])
    show "raw_kfifo_in f src len = Some (l, f\<lparr>kf_data := Some (ring_write (kf_buf f) (kf_bytesize f)
        (unat (kf_in f) * unat (kf_esize f)) ?xs), kf_in := kf_in f + l\<rparr>)"
      using kfifo_copy_in_eq [OF wf l'(1), of src "kf_in f"] src l
      unfolding raw_kfifo_in_def Let_def l_def [symmetric] by simp
  qed (use l kfifo_append [OF wf fits, of l] xs in simp_all)
qed

lemma raw_kfifo_out_eq:
  assumes wf: "wf_kfifo f"
  obtains l f' where "raw_kfifo_out f len = Some (l, take (unat l * unat (kf_esize f)) (kfifo_bytes f), f')"
    "unat l = min (unat len) (kf_len f)"
    "wf_kfifo f'" "kf_size f' = kf_size f" "kf_esize f' = kf_esize f"
    "kfifo_bytes f' = drop (unat l * unat (kf_esize f)) (kfifo_bytes f)"
proof -
  define l where "l = (if len > kf_in f - kf_out f then kf_in f - kf_out f else len)"
  have l: "unat l = min (unat len) (kf_len f)"
    by (auto simp: l_def word_less_nat_alt kf_len_def)
  then have l': "unat l \<le> kf_len f" "unat l \<le> kf_size f" using wf_kfifoD(7) [OF wf] by auto
  show thesis
  proof (rule that [of l "f\<lparr>kf_out := kf_out f + l\<rparr>"])
    show "raw_kfifo_out f len = Some (l, take (unat l * unat (kf_esize f)) (kfifo_bytes f), f\<lparr>kf_out := kf_out f + l\<rparr>)"
      using kfifo_copy_out_eq [OF wf l'(2), of "kf_out f"] l'(1)
      unfolding raw_kfifo_out_def raw_kfifo_out_peek_def Let_def l_def [symmetric]
      by (simp add: kfifo_bytes_def take_ring_read)
  qed (use l kfifo_advance [OF wf l'(1)] in simp_all)
qed

end
