(* ===== verification/Kfifo_User.thy ===== *)
theory Kfifo_User
  imports Kfifo
begin

text \<open>
  The FIFO operations of \<open>kernel/kfifo.c\<close> that copy from and to user space. User memory is the list
  of the bytes accessible from the user pointer on; \<open>copy_from_user\<close> copies them, pads the
  destination with zeros and returns the number of bytes it could not copy, as
  \<open>arch/x86/lib/usercopy_32.c\<close> specifies.

  The lemmas give the exact effect when the user memory faults part way: the whole elements that
  arrived are in the queue. They also give the value of \<open>*copied\<close>, which is not the number of bytes
  copied when an element has more than one byte.
\<close>

subsection \<open>Copying from and to user space\<close>

definition copy_from_user :: "u8 list \<Rightarrow> nat \<Rightarrow> u8 list \<Rightarrow> nat \<Rightarrow> nat \<Rightarrow> (u32 \<times> u8 list) option" where
  "copy_from_user dst doff user uoff n =
     (let got = take n (drop uoff user) in
      map_option (\<lambda>dst. (of_nat (n - length got), dst))
        (mem_write dst doff (got @ replicate (n - length got) 0)))"

definition copy_to_user :: "u8 list \<Rightarrow> nat \<Rightarrow> nat \<Rightarrow> nat \<Rightarrow> (u32 \<times> u8 list) option" where
  "copy_to_user src soff room n =
     map_option (\<lambda>bs. (of_nat (n - min n room), take (min n room) bs)) (mem_read src soff n)"

definition DIV_ROUND_UP :: "u32 \<Rightarrow> u32 \<Rightarrow> u32" where
  "DIV_ROUND_UP n d = (n + d - 1) div d"

text \<open>The results are the number of elements not copied, \<open>*copied\<close> and the FIFO.\<close>

definition kfifo_copy_from_user ::
  "kfifo \<Rightarrow> u8 list \<Rightarrow> u32 \<Rightarrow> u32 \<Rightarrow> (u32 \<times> u32 \<times> kfifo) option" where
  "kfifo_copy_from_user fifo from len off =
     (case kfifo_span fifo len off of (off, l, len) \<Rightarrow> do {
        data \<leftarrow> kf_data fifo;
        (ret, data) \<leftarrow> copy_from_user data (unat off) from 0 (unat l);
        (ret, data) \<leftarrow>
          (if ret \<noteq> 0 then Some (DIV_ROUND_UP (ret + len - l) (kf_esize fifo), data)
           else do {
             (ret, data) \<leftarrow> copy_from_user data 0 from (unat l) (unat (len - l));
             Some (if ret \<noteq> 0 then DIV_ROUND_UP ret (kf_esize fifo) else ret, data)
           });
        Some (ret, len - ret, fifo\<lparr>kf_data := Some data\<rparr>)
      })"

definition raw_kfifo_from_user :: "kfifo \<Rightarrow> u8 list \<Rightarrow> u32 \<Rightarrow> (errno \<times> u32 \<times> kfifo) option" where
  "raw_kfifo_from_user fifo from len =
     (let esize = kf_esize fifo;
          len = (if esize \<noteq> 1 then len div esize else len);
          l = kfifo_unused fifo;
          len = (if len > l then l else len) in do {
        (ret, copied, fifo) \<leftarrow> kfifo_copy_from_user fifo from len (kf_in fifo);
        let (len, err) = (if ret \<noteq> 0 then (len - ret, - EFAULT) else (len, 0));
        Some (err, copied, fifo\<lparr>kf_in := kf_in fifo + len\<rparr>)
      })"

text \<open>
  \<open>room\<close> is the number of accessible bytes at the user pointer; the bytes written there are the
  last result of \<open>kfifo_copy_to_user\<close>.
\<close>

definition kfifo_copy_to_user ::
  "kfifo \<Rightarrow> nat \<Rightarrow> u32 \<Rightarrow> u32 \<Rightarrow> (u32 \<times> u32 \<times> u8 list) option" where
  "kfifo_copy_to_user fifo room len off =
     (case kfifo_span fifo len off of (off, l, len) \<Rightarrow> do {
        data \<leftarrow> kf_data fifo;
        (ret, a) \<leftarrow> copy_to_user data (unat off) room (unat l);
        (ret, bs) \<leftarrow>
          (if ret \<noteq> 0 then Some (DIV_ROUND_UP (ret + len - l) (kf_esize fifo), a)
           else do {
             (ret, b) \<leftarrow> copy_to_user data 0 (room - unat l) (unat (len - l));
             Some (if ret \<noteq> 0 then DIV_ROUND_UP ret (kf_esize fifo) else ret, a @ b)
           });
        Some (ret, len - ret, bs)
      })"

definition raw_kfifo_to_user :: "kfifo \<Rightarrow> nat \<Rightarrow> u32 \<Rightarrow> (errno \<times> u32 \<times> u8 list \<times> kfifo) option" where
  "raw_kfifo_to_user fifo room len =
     (let esize = kf_esize fifo;
          len = (if esize \<noteq> 1 then len div esize else len);
          l = kf_in fifo - kf_out fifo;
          len = (if len > l then l else len) in do {
        (ret, copied, bs) \<leftarrow> kfifo_copy_to_user fifo room len (kf_out fifo);
        let (len, err) = (if ret \<noteq> 0 then (len - ret, - EFAULT) else (len, 0));
        Some (err, copied, bs, fifo\<lparr>kf_out := kf_out fifo + len\<rparr>)
      })"

subsection \<open>What the copies do\<close>

lemma div_round_up_eq:
  assumes "unat a < 2 ^ 31" "0 < unat d" "unat d < 2 ^ 31"
  shows "unat (DIV_ROUND_UP a d) = (unat a + unat d - 1) div unat d"
proof -
  have "unat (a + d) = unat a + unat d" using assms by (simp add: unat_word_ariths)
  moreover have "unat (a + d - 1) = unat (a + d) - 1"
    using assms calculation by (subst unat_sub) (simp_all add: word_le_nat_alt)
  ultimately show ?thesis by (simp add: DIV_ROUND_UP_def unat_div)
qed

text \<open>Elements that do not arrive whole: \<open>n\<close> elements of \<open>e\<close> bytes of which \<open>a\<close> bytes arrive.\<close>

lemma missing_elements:
  fixes n e a :: nat
  assumes "0 < e" "a < n * e"
  shows "(n * e - a + e - 1) div e = n - a div e"
proof -
  obtain q r where qr: "a = q * e + r" "r < e"
    using assms(1) div_mod_decomp [of a e] mod_less_divisor by blast
  then have q: "q < n" using assms by (metis add_lessD1 mult_less_cancel2)
  then obtain k where k: "n = q + Suc k" using less_imp_Suc_add by auto
  have "n * e - a + e - 1 = k * e + e + (e - 1 - r)"
    using qr k by (simp add: distrib_right)
  also have "\<dots> = (e - 1 - r) + Suc k * e" by simp
  also have "\<dots> div e = Suc k" using assms(1) by (subst div_mult_self1) auto
  finally show ?thesis using qr k assms(1) by simp
qed

lemma copy_from_user_eq:
  assumes "doff + n \<le> length dst"
  shows "copy_from_user dst doff user uoff n = Some (of_nat (n - (length user - uoff)),
    list_put dst doff (take n (drop uoff user) @ replicate (n - (length user - uoff)) 0))"
proof -
  have "n - length (take n (drop uoff user)) = n - (length user - uoff)" by simp
  then show ?thesis
    using assms unfolding copy_from_user_def Let_def by (simp add: mem_write_SomeI)
qed

text \<open>The number of elements not copied when \<open>a\<close> of the \<open>n * e\<close> bytes are accessible.\<close>

lemma not_copied_eq:
  fixes es :: u32 and n a :: nat
  defines "e \<equiv> unat es"
  assumes "0 < e" "e < 2 ^ 31" "n * e < 2 ^ 31"
  shows "unat (if n * e \<le> a then 0 else DIV_ROUND_UP (of_nat (n * e - a)) es) = n - min n (a div e)"
proof (cases "n * e \<le> a")
  case True
  then have "n \<le> a div e" using assms(2) by (simp add: less_eq_div_iff_mult_less_eq)
  then show ?thesis using True by simp
next
  case False
  then have "a div e < n" using assms(2) by (simp add: div_less_iff_less_mult)
  moreover have "unat (of_nat (n * e - a) :: u32) = n * e - a"
    using assms(4) by (simp del: of_nat_diff add: unat_of_nat)
  ultimately show ?thesis
    using False assms missing_elements [of e a n] div_round_up_eq [of "of_nat (n * e - a)" es]
    by (simp del: of_nat_diff of_nat_mult)
qed

lemma kfifo_copy_from_user_raw:
  assumes wf: "wf_kfifo f" and len: "unat len \<le> kf_size f"
  obtains n xs where "unat n = unat len * unat (kf_esize f)"
    "kfifo_copy_from_user f user len off =
      (let ret = (if unat n \<le> length user then 0 else DIV_ROUND_UP (of_nat (unat n - length user)) (kf_esize f)) in
       Some (ret, n - ret, f\<lparr>kf_data := Some (ring_write (kf_buf f) (kf_bytesize f) (unat off * unat (kf_esize f)) xs)\<rparr>))"
    "min (unat n) (length user) \<le> length xs" "length xs \<le> unat n"
    "take (min (unat n) (length user)) xs = take (unat n) user"
proof -
  note D = wf_kfifoD [OF wf]
  obtain o1 l n where span: "kfifo_span f len off = (o1, l, n)" and
    u: "unat o1 = (unat off * unat (kf_esize f)) mod kf_bytesize f" "unat n = unat len * unat (kf_esize f)"
    "unat l = min (unat n) (kf_bytesize f - unat o1)" "unat (n - l) = unat n - unat l" and
    B: "0 < kf_bytesize f" "unat n \<le> kf_bytesize f" and
    l: "unat l \<le> unat n" "unat o1 + unat l \<le> length (kf_buf f)" "unat n - unat l \<le> length (kf_buf f)"
    using kfifo_span_eq [OF wf len, of off] by blast
  let ?lu = "length user"
  have less: "unat l - ?lu < 2 ^ 32" "unat n - ?lu < 2 ^ 32" by (auto intro: le_less_trans [OF diff_le_self])
  show thesis
  proof (cases "?lu < unat l")
    case True
    define xs where "xs = user @ replicate (unat l - ?lu) 0"
    define r where "r = (of_nat (unat l - ?lu) :: u32)"
    have copy: "copy_from_user (kf_buf f) (unat o1) user 0 (unat l) = Some (r, list_put (kf_buf f) (unat o1) xs)"
      using True l(2) by (simp add: copy_from_user_eq xs_def r_def)
    have "unat r = unat l - ?lu" using less(1) by (simp del: of_nat_diff add: r_def unat_of_nat)
    with True have "r \<noteq> 0" by (metis unat_0 zero_less_diff less_numeral_extra(3))
    moreover have "r + n - l = of_nat (unat n - ?lu)" using True l(1) by (simp add: r_def of_nat_diff)
    moreover have "list_put (kf_buf f) (unat o1) xs = ring_write (kf_buf f) (kf_bytesize f) (unat off * unat (kf_esize f)) xs"
      using True u(1,3) by (simp add: ring_write_flat xs_def)
    ultimately have "kfifo_copy_from_user f user len off =
      (let ret = (if unat n \<le> ?lu then 0 else DIV_ROUND_UP (of_nat (unat n - ?lu)) (kf_esize f)) in
       Some (ret, n - ret, f\<lparr>kf_data := Some (ring_write (kf_buf f) (kf_bytesize f) (unat off * unat (kf_esize f)) xs)\<rparr>))"
      using True l(1) by (simp del: of_nat_diff add: kfifo_copy_from_user_def span D(1) copy Let_def)
    then show thesis
      by (rule that [OF u(2)]) (use True l(1) in \<open>simp_all add: xs_def\<close>)
  next
    case False
    define xs where "xs = take (unat n) user @ replicate (unat n - ?lu) 0"
    define r where "r = (of_nat (unat n - ?lu) :: u32)"
    have "copy_from_user (kf_buf f) (unat o1) user 0 (unat l) = Some (0, list_put (kf_buf f) (unat o1) (take (unat l) user))"
      using False l(2) by (simp add: copy_from_user_eq)
    moreover have "copy_from_user (list_put (kf_buf f) (unat o1) (take (unat l) user)) 0 user (unat l) (unat n - unat l) =
        Some (r, list_put (list_put (kf_buf f) (unat o1) (take (unat l) user)) 0
          (take (unat n - unat l) (drop (unat l) user) @ replicate (unat n - ?lu) 0))"
    proof -
      have "unat n - unat l - (?lu - unat l) = unat n - ?lu" using False l(1) by linarith
      then show ?thesis using False l by (subst copy_from_user_eq) (simp_all add: r_def)
    qed
    moreover have "list_put (list_put (kf_buf f) (unat o1) (take (unat l) user)) 0
          (take (unat n - unat l) (drop (unat l) user) @ replicate (unat n - ?lu) 0) =
        ring_write (kf_buf f) (kf_bytesize f) (unat off * unat (kf_esize f)) xs"
      unfolding xs_def u(1) by (rule ring_write_padded [OF u(3) [unfolded u(1)] _ l(1)]) (use False in simp)
    moreover have "(r \<noteq> 0) = (\<not> unat n \<le> ?lu)"
      using less(2) by (auto simp del: of_nat_diff simp: r_def word_unat_eq_iff unat_of_nat)
    ultimately have "kfifo_copy_from_user f user len off =
      (let ret = (if unat n \<le> ?lu then 0 else DIV_ROUND_UP (of_nat (unat n - ?lu)) (kf_esize f)) in
       Some (ret, n - ret, f\<lparr>kf_data := Some (ring_write (kf_buf f) (kf_bytesize f) (unat off * unat (kf_esize f)) xs)\<rparr>))"
      by (simp del: of_nat_diff add: kfifo_copy_from_user_def span D(1) u(4) Let_def r_def [symmetric])
    then show thesis
      by (rule that [OF u(2)]) (simp_all add: xs_def min_def)
  qed
qed

lemma raw_kfifo_from_user_eq:
  fixes f :: kfifo and user :: "u8 list" and len :: u32
  assumes wf: "wf_kfifo f"
  defines "e \<equiv> unat (kf_esize f)"
  defines "n \<equiv> min (unat len div e) (kf_size f - kf_len f)"
  defines "m \<equiv> min n (length user div e)"
  obtains copied f' where
    "raw_kfifo_from_user f user len = Some (if m = n then 0 else - EFAULT, copied, f')"
    "unat copied = n * e - (n - m)"
    "wf_kfifo f'" "kf_size f' = kf_size f" "kf_esize f' = kf_esize f"
    "kfifo_bytes f' = kfifo_bytes f @ take (m * e) user"
proof -
  note D = wf_kfifoD [OF wf]
  define l where "l = (let len = (if kf_esize f \<noteq> 1 then len div kf_esize f else len) in
    if len > kfifo_unused f then kfifo_unused f else len)"
  have l: "unat l = n"
    using unat_kfifo_unused [OF wf]
    by (auto simp: l_def Let_def word_less_nat_alt n_def e_def unat_div)
  have l': "unat l \<le> kf_size f" "kf_len f + n \<le> kf_size f" using l D(7) by (auto simp: n_def)
  obtain nb xs where nb: "unat nb = n * e" and
    copy: "kfifo_copy_from_user f user l (kf_in f) =
      (let ret = (if unat nb \<le> length user then 0 else DIV_ROUND_UP (of_nat (unat nb - length user)) (kf_esize f)) in
       Some (ret, nb - ret, f\<lparr>kf_data := Some (ring_write (kf_buf f) (kf_bytesize f) (unat (kf_in f) * unat (kf_esize f)) xs)\<rparr>))"
    and xs: "min (unat nb) (length user) \<le> length xs" "length xs \<le> unat nb"
    "take (min (unat nb) (length user)) xs = take (unat nb) user"
    using kfifo_copy_from_user_raw [OF wf l'(1), of user "kf_in f"] unfolding l e_def by metis
  define ret where "ret = (if unat nb \<le> length user then 0 else DIV_ROUND_UP (of_nat (unat nb - length user)) (kf_esize f))"
  have e: "0 < e" "e \<le> kf_bytesize f" "n * e \<le> kf_bytesize f"
    using D(2,3) mult_le_mono1 [of n "kf_size f" e] l'(2) by (auto simp: e_def)
  then have e31: "e < 2 ^ 31" "n * e < 2 ^ 31" using D(5,6) by linarith+
  have ret: "unat ret = n - m"
    using not_copied_eq [of "kf_esize f" n "length user", folded e_def, OF e(1) e31] by (simp only: ret_def nb m_def)
  have s: "unat (l - ret) = m" using ret l by (simp add: unat_sub word_le_nat_alt m_def)
  have me: "m * e \<le> min (n * e) (length user)"
    using order_trans [OF mult_le_mono1 [of m "length user div e" e] div_times_less_eq_dividend] by (simp add: m_def)
  have fits: "kf_len f * unat (kf_esize f) + length xs \<le> kf_bytesize f"
    using xs(2) mult_le_mono1 [OF l'(2), of e] by (simp add: nb e_def distrib_right)
  have se: "unat (l - ret) * unat (kf_esize f) \<le> length xs" 
    using order_trans [OF me xs(1) [unfolded nb]] by (simp only: s e_def)
  have "take (m * e) xs = take (m * e) (take (min (n * e) (length user)) xs)" using me by (simp add: min_def)
  also have "\<dots> = take (m * e) user" unfolding xs(3) [unfolded nb] by (simp add: m_def min_absorb1)
  finally have bytes: "take (m * e) xs = take (m * e) user" .
  show thesis
  proof (rule that [of "nb - ret"])
    show "raw_kfifo_from_user f user len = Some (if m = n then 0 else - EFAULT, nb - ret,
        f\<lparr>kf_data := Some (ring_write (kf_buf f) (kf_bytesize f) (unat (kf_in f) * unat (kf_esize f)) xs), kf_in := kf_in f + (l - ret)\<rparr>)"
    proof -
      have "(ret \<noteq> 0) = (m \<noteq> n)" using ret by (auto simp: m_def word_unat_eq_iff)
      then show ?thesis
        using copy unfolding ret_def [symmetric] raw_kfifo_from_user_def Let_def l_def by simp
    qed
    have "n - m \<le> n * e" using e(1) by (metis diff_le_self le_trans mult_le_mono2 nat_mult_1_right Suc_leI One_nat_def)
    then show "unat (nb - ret) = n * e - (n - m)" using ret by (simp add: unat_sub word_le_nat_alt nb)
  qed (use kfifo_append [OF wf fits se] bytes in \<open>simp_all add: s e_def\<close>)
qed

lemma copy_to_user_eq:
  "soff + n \<le> length src \<Longrightarrow>
   copy_to_user src soff room n = Some (of_nat (n - room), take (min n room) (take n (drop soff src)))"
  by (auto simp: copy_to_user_def mem_read_SomeI min_def)

lemma kfifo_copy_to_user_raw:
  assumes wf: "wf_kfifo f" and len: "unat len \<le> kf_size f"
  obtains n where "unat n = unat len * unat (kf_esize f)"
    "kfifo_copy_to_user f room len off =
      (let ret = (if unat n \<le> room then 0 else DIV_ROUND_UP (of_nat (unat n - room)) (kf_esize f)) in
       Some (ret, n - ret, take room (ring_read (kf_buf f) (kf_bytesize f) (unat off * unat (kf_esize f)) (unat n))))"
proof -
  note D = wf_kfifoD [OF wf]
  obtain o1 l n where span: "kfifo_span f len off = (o1, l, n)" and
    u: "unat o1 = (unat off * unat (kf_esize f)) mod kf_bytesize f" "unat n = unat len * unat (kf_esize f)"
    "unat l = min (unat n) (kf_bytesize f - unat o1)" "unat (n - l) = unat n - unat l" and
    B: "0 < kf_bytesize f" "unat n \<le> kf_bytesize f" and
    l: "unat l \<le> unat n" "unat o1 + unat l \<le> length (kf_buf f)" "unat n - unat l \<le> length (kf_buf f)"
    using kfifo_span_eq [OF wf len, of off] by blast
  have less: "unat l - room < 2 ^ 32" "unat n - room < 2 ^ 32" by (auto intro: le_less_trans [OF diff_le_self])
  have ring: "ring_read (kf_buf f) (kf_bytesize f) (unat off * unat (kf_esize f)) (unat n) =
      take (unat l) (drop (unat o1) (kf_buf f)) @ take (unat n - unat l) (kf_buf f)"
    using ring_read_two_parts [OF B(2,1) D(5)] u by (simp add: Let_def)
  define r where "r = (of_nat (unat l - room) :: u32)"
  have first: "copy_to_user (kf_buf f) (unat o1) room (unat l) =
      Some (r, take (min (unat l) room) (take (unat l) (drop (unat o1) (kf_buf f))))"
    using l(2) by (simp add: copy_to_user_eq r_def)
  have r: "unat r = unat l - room" using less(1) by (simp del: of_nat_diff add: r_def unat_of_nat)
  show thesis
  proof (cases "room < unat l")
    case True
    then have "r \<noteq> 0" using r by (metis unat_0 zero_less_diff less_numeral_extra(3))
    moreover have "r + n - l = of_nat (unat n - room)" using True l(1) by (simp add: r_def of_nat_diff)
    ultimately show thesis
      using True l by (intro that [OF u(2)])
        (simp del: of_nat_diff add: kfifo_copy_to_user_def span D(1) first Let_def ring)
  next
    case False
    then have "r = 0" using r by (simp add: word_unat_eq_iff)
    moreover have "copy_to_user (kf_buf f) 0 (room - unat l) (unat n - unat l) =
        Some (of_nat (unat n - room), take (room - unat l) (take (unat n - unat l) (kf_buf f)))"
    proof -
      have "unat n - unat l - (room - unat l) = unat n - room" using False by linarith
      then show ?thesis using l(3) by (simp add: copy_to_user_eq min_def)
    qed
    moreover have "((of_nat (unat n - room) :: u32) \<noteq> 0) = (\<not> unat n \<le> room)"
      using less(2) by (auto simp del: of_nat_diff simp: word_unat_eq_iff unat_of_nat)
    ultimately show thesis
      using False l by (intro that [OF u(2)])
        (simp del: of_nat_diff add: kfifo_copy_to_user_def span D(1) first u(4) Let_def ring)
  qed
qed

lemma raw_kfifo_to_user_eq:
  fixes f :: kfifo and room :: nat and len :: u32
  assumes wf: "wf_kfifo f"
  defines "e \<equiv> unat (kf_esize f)"
  defines "n \<equiv> min (unat len div e) (kf_len f)"
  defines "m \<equiv> min n (room div e)"
  obtains copied f' where
    "raw_kfifo_to_user f room len = Some (if m = n then 0 else - EFAULT, copied, take (min (n * e) room) (kfifo_bytes f), f')"
    "unat copied = n * e - (n - m)"
    "wf_kfifo f'" "kf_size f' = kf_size f" "kf_esize f' = kf_esize f"
    "kfifo_bytes f' = drop (m * e) (kfifo_bytes f)"
proof -
  note D = wf_kfifoD [OF wf]
  define l where "l = (let len = (if kf_esize f \<noteq> 1 then len div kf_esize f else len) in
    if len > kf_in f - kf_out f then kf_in f - kf_out f else len)"
  have l: "unat l = n"
    by (auto simp: l_def Let_def word_less_nat_alt n_def e_def unat_div kf_len_def)
  have l': "n \<le> kf_len f" "unat l \<le> kf_size f" using l D(7) by (auto simp: n_def)
  obtain nb where nb: "unat nb = n * e" and
    copy: "kfifo_copy_to_user f room l (kf_out f) =
      (let ret = (if unat nb \<le> room then 0 else DIV_ROUND_UP (of_nat (unat nb - room)) (kf_esize f)) in
       Some (ret, nb - ret, take room (ring_read (kf_buf f) (kf_bytesize f) (unat (kf_out f) * unat (kf_esize f)) (unat nb))))"
    using kfifo_copy_to_user_raw [OF wf l'(2), of room "kf_out f"] unfolding l e_def by metis
  define ret where "ret = (if unat nb \<le> room then 0 else DIV_ROUND_UP (of_nat (unat nb - room)) (kf_esize f))"
  have e: "0 < e" "e \<le> kf_bytesize f" "n * e \<le> kf_bytesize f"
    using D(2,3) mult_le_mono1 [of n "kf_size f" e] l' l by (auto simp: e_def)
  then have e31: "e < 2 ^ 31" "n * e < 2 ^ 31" using D(5,6) by linarith+
  have ret: "unat ret = n - m"
    using not_copied_eq [of "kf_esize f" n room, folded e_def, OF e(1) e31] by (simp only: ret_def nb m_def)
  have s: "unat (l - ret) = m" using ret l by (simp add: unat_sub word_le_nat_alt m_def)
  have bytes: "take room (ring_read (kf_buf f) (kf_bytesize f) (unat (kf_out f) * unat (kf_esize f)) (unat nb)) =
      take (min (n * e) room) (kfifo_bytes f)"
  proof -
    have "ring_read (kf_buf f) (kf_bytesize f) (unat (kf_out f) * unat (kf_esize f)) (n * e) = take (n * e) (kfifo_bytes f)"
      unfolding kfifo_bytes_def e_def by (rule take_ring_read [symmetric]) (rule mult_le_mono1 [OF l'(1)])
    then show ?thesis by (simp add: nb min.commute)
  qed
  show thesis
  proof (rule that [of "nb - ret"])
    show "raw_kfifo_to_user f room len = Some (if m = n then 0 else - EFAULT, nb - ret,
        take (min (n * e) room) (kfifo_bytes f), f\<lparr>kf_out := kf_out f + (l - ret)\<rparr>)"
    proof -
      have "(ret \<noteq> 0) = (m \<noteq> n)" using ret by (auto simp: m_def word_unat_eq_iff)
      then show ?thesis
        using copy bytes unfolding ret_def [symmetric] raw_kfifo_to_user_def Let_def l_def by simp
    qed
    have "n - m \<le> n * e" using e(1) by (metis diff_le_self le_trans mult_le_mono2 nat_mult_1_right Suc_leI One_nat_def)
    then show "unat (nb - ret) = n * e - (n - m)" using ret by (simp add: unat_sub word_le_nat_alt nb)
  qed (use kfifo_advance [OF wf, of "l - ret"] l'(1) in \<open>simp_all add: s e_def m_def\<close>)
qed

end
