(* ===== verification/Kfifo_Record.thy ===== *)
theory Kfifo_Record
  imports Kfifo_User
begin

text \<open>
  The operations of \<open>kernel/kfifo.c\<close> on variable-length records (\<open>__kfifo_in_r\<close>,
  \<open>__kfifo_out_r\<close>, ...): each record is stored as its length in \<open>recsize\<close> bytes, least significant
  first, followed by its bytes. \<open>rec_queue\<close> relates such a FIFO to the list of its records, and the
  lemmas show that the operations add and remove whole records.
\<close>

definition raw_kfifo_max_r :: "u32 \<Rightarrow> u32 \<Rightarrow> u32" where
  "raw_kfifo_max_r len recsize =
     (let max = shl32 1 (shl32 recsize 3) - 1 in if len > max then max else len)"

definition KFIFO_PEEK :: "u8 list \<Rightarrow> u32 \<Rightarrow> u32 \<Rightarrow> u8 option" where
  "KFIFO_PEEK data i msk =
     (if unat (i AND msk) < length data then Some (data ! unat (i AND msk)) else None)"

definition raw_kfifo_peek_n :: "kfifo \<Rightarrow> u32 \<Rightarrow> u32 option" where
  "raw_kfifo_peek_n fifo recsize = do {
     data \<leftarrow> kf_data fifo;
     l \<leftarrow> KFIFO_PEEK data (kf_out fifo) (kf_mask fifo);
     if recsize - 1 \<noteq> 0 then do {
       h \<leftarrow> KFIFO_PEEK data (kf_out fifo + 1) (kf_mask fifo);
       Some (ucast l OR push_bit 8 (ucast h))
     } else Some (ucast l)
   }"

definition KFIFO_POKE :: "u8 list \<Rightarrow> u32 \<Rightarrow> u32 \<Rightarrow> u32 \<Rightarrow> u8 list option" where
  "KFIFO_POKE data i msk val = mem_write data (unat (i AND msk)) [ucast val]"

definition raw_kfifo_poke_n :: "kfifo \<Rightarrow> u32 \<Rightarrow> u32 \<Rightarrow> kfifo option" where
  "raw_kfifo_poke_n fifo n recsize = do {
     data \<leftarrow> kf_data fifo;
     data \<leftarrow> KFIFO_POKE data (kf_in fifo) (kf_mask fifo) n;
     data \<leftarrow>
       (if recsize > 1 then KFIFO_POKE data (kf_in fifo + 1) (kf_mask fifo) (drop_bit 8 n)
        else Some data);
     Some (fifo\<lparr>kf_data := Some data\<rparr>)
   }"

definition raw_kfifo_len_r :: "kfifo \<Rightarrow> u32 \<Rightarrow> u32 option" where
  "raw_kfifo_len_r fifo recsize = raw_kfifo_peek_n fifo recsize"

definition raw_kfifo_in_r :: "kfifo \<Rightarrow> u8 list \<Rightarrow> u32 \<Rightarrow> u32 \<Rightarrow> (u32 \<times> kfifo) option" where
  "raw_kfifo_in_r fifo buf len recsize =
     (if len + recsize > kfifo_unused fifo then Some (0, fifo)
      else do {
        fifo \<leftarrow> raw_kfifo_poke_n fifo len recsize;
        fifo \<leftarrow> kfifo_copy_in fifo buf len (kf_in fifo + recsize);
        Some (len, fifo\<lparr>kf_in := kf_in fifo + (len + recsize)\<rparr>)
      })"

text \<open>The results are the number of bytes copied, the bytes, and \<open>*n\<close>.\<close>

definition kfifo_out_copy_r :: "kfifo \<Rightarrow> u32 \<Rightarrow> u32 \<Rightarrow> (u32 \<times> u8 list \<times> u32) option" where
  "kfifo_out_copy_r fifo len recsize = do {
     n \<leftarrow> raw_kfifo_peek_n fifo recsize;
     let len = (if len > n then n else len);
     bs \<leftarrow> kfifo_copy_out fifo len (kf_out fifo + recsize);
     Some (len, bs, n)
   }"

definition raw_kfifo_out_peek_r :: "kfifo \<Rightarrow> u32 \<Rightarrow> u32 \<Rightarrow> (u32 \<times> u8 list) option" where
  "raw_kfifo_out_peek_r fifo len recsize =
     (if kf_in fifo = kf_out fifo then Some (0, [])
      else map_option (\<lambda>(len, bs, n). (len, bs)) (kfifo_out_copy_r fifo len recsize))"

definition raw_kfifo_out_r :: "kfifo \<Rightarrow> u32 \<Rightarrow> u32 \<Rightarrow> (u32 \<times> u8 list \<times> kfifo) option" where
  "raw_kfifo_out_r fifo len recsize =
     (if kf_in fifo = kf_out fifo then Some (0, [], fifo)
      else do {
        (len, bs, n) \<leftarrow> kfifo_out_copy_r fifo len recsize;
        Some (len, bs, fifo\<lparr>kf_out := kf_out fifo + (n + recsize)\<rparr>)
      })"

definition raw_kfifo_skip_r :: "kfifo \<Rightarrow> u32 \<Rightarrow> kfifo option" where
  "raw_kfifo_skip_r fifo recsize =
     map_option (\<lambda>n. fifo\<lparr>kf_out := kf_out fifo + (n + recsize)\<rparr>) (raw_kfifo_peek_n fifo recsize)"

definition raw_kfifo_from_user_r :: "kfifo \<Rightarrow> u8 list \<Rightarrow> u32 \<Rightarrow> u32 \<Rightarrow> (errno \<times> u32 \<times> kfifo) option" where
  "raw_kfifo_from_user_r fifo from len recsize =
     (let len = raw_kfifo_max_r len recsize in
      if len + recsize > kfifo_unused fifo then Some (0, 0, fifo)
      else do {
        fifo \<leftarrow> raw_kfifo_poke_n fifo len recsize;
        (ret, copied, fifo) \<leftarrow> kfifo_copy_from_user fifo from len (kf_in fifo + recsize);
        if ret \<noteq> 0 then Some (- EFAULT, 0, fifo)
        else Some (0, copied, fifo\<lparr>kf_in := kf_in fifo + (len + recsize)\<rparr>)
      })"

definition raw_kfifo_to_user_r ::
  "kfifo \<Rightarrow> nat \<Rightarrow> u32 \<Rightarrow> u32 \<Rightarrow> (errno \<times> u32 \<times> u8 list \<times> kfifo) option" where
  "raw_kfifo_to_user_r fifo room len recsize =
     (if kf_in fifo = kf_out fifo then Some (0, 0, [], fifo)
      else do {
        n \<leftarrow> raw_kfifo_peek_n fifo recsize;
        let len = (if len > n then n else len);
        (ret, copied, bs) \<leftarrow> kfifo_copy_to_user fifo room len (kf_out fifo + recsize);
        if ret \<noteq> 0 then Some (- EFAULT, 0, bs, fifo)
        else Some (0, copied, bs, fifo\<lparr>kf_out := kf_out fifo + (n + recsize)\<rparr>)
      })"

definition raw_kfifo_dma_in_finish_r :: "kfifo \<Rightarrow> u32 \<Rightarrow> u32 \<Rightarrow> kfifo option" where
  "raw_kfifo_dma_in_finish_r fifo len recsize =
     (let len = raw_kfifo_max_r len recsize in
      map_option (\<lambda>fifo. fifo\<lparr>kf_in := kf_in fifo + (len + recsize)\<rparr>)
        (raw_kfifo_poke_n fifo len recsize))"

definition raw_kfifo_dma_out_finish_r :: "kfifo \<Rightarrow> u32 \<Rightarrow> kfifo option" where
  "raw_kfifo_dma_out_finish_r fifo recsize =
     map_option (\<lambda>len. fifo\<lparr>kf_out := kf_out fifo + (len + recsize)\<rparr>) (raw_kfifo_peek_n fifo recsize)"

subsection \<open>The queue of records\<close>

definition rec_hdr :: "u32 \<Rightarrow> nat \<Rightarrow> u8 list" where
  "rec_hdr recsize n = (if recsize = 2 then [of_nat n, of_nat (n div 256)] else [of_nat n])"

definition rec_enc :: "u32 \<Rightarrow> u8 list \<Rightarrow> u8 list" where
  "rec_enc recsize r = rec_hdr recsize (length r) @ r"

definition rec_ok :: "u32 \<Rightarrow> u8 list \<Rightarrow> bool" where
  "rec_ok recsize r \<longleftrightarrow> length r \<le> (if recsize = 2 then 65535 else 255)"

definition rec_queue :: "u32 \<Rightarrow> kfifo \<Rightarrow> u8 list list \<Rightarrow> bool" where
  "rec_queue recsize f rs \<longleftrightarrow>
     wf_kfifo f \<and> kf_esize f = 1 \<and> (recsize = 1 \<or> recsize = 2) \<and> (\<forall>r \<in> set rs. rec_ok recsize r) \<and>
     kfifo_bytes f = concat (map (rec_enc recsize) rs)"

lemma length_kfifo_bytes [simp]: "length (kfifo_bytes f) = kf_len f * unat (kf_esize f)"
  by (simp add: kfifo_bytes_def)

lemma length_rec_hdr: "recsize = 1 \<or> recsize = 2 \<Longrightarrow> length (rec_hdr recsize n) = unat recsize"
  by (auto simp: rec_hdr_def)

lemma KFIFO_POKE_eq:
  assumes "wf_kfifo f" "kf_esize f = 1"
  shows "KFIFO_POKE (kf_buf f) i (kf_mask f) v = Some (ring_write (kf_buf f) (kf_bytesize f) (unat i) [ucast v])"
proof -
  have "unat i mod kf_size f < kf_size f" using wf_kfifoD(3) [OF assms(1)] by simp
  then show ?thesis
    using assms wf_kfifoD(5,9) [OF assms(1)] by (simp add: KFIFO_POKE_def mem_write_SomeI ring_write_flat)
qed

lemma KFIFO_PEEK_eq:
  assumes "wf_kfifo f" "kf_esize f = 1" "unat j < kf_len f"
  shows "KFIFO_PEEK (kf_buf f) (kf_out f + j) (kf_mask f) = Some (kfifo_bytes f ! unat j)"
proof -
  note D = wf_kfifoD [OF assms(1)]
  have "unat (kf_out f + j) mod kf_size f < kf_size f" using D(3) by simp
  then show ?thesis
    using assms(2,3) D(5,9) unat_add_mod [OF D(4), of "kf_out f" j]
    by (simp add: KFIFO_PEEK_def kfifo_bytes_def ring_read_def)
qed

lemma kfifo_append_byte:
  fixes b :: u8
  assumes "wf_kfifo f" "kf_esize f = 1" "kf_len f < kf_size f"
  defines "f' \<equiv> f\<lparr>kf_data := Some (ring_write (kf_buf f) (kf_bytesize f) (unat (kf_in f)) [b]), kf_in := kf_in f + 1\<rparr>"
  shows "wf_kfifo f'" "kf_size f' = kf_size f" "kf_len f' = kf_len f + 1" "kf_esize f' = 1" "kfifo_bytes f' = kfifo_bytes f @ [b]"
  using kfifo_append [OF assms(1), of "[b]" 1] assms(2,3) by (simp_all add: f'_def)

lemma rec_hdr_words:
  fixes n :: u32
  shows "rec_hdr recsize (unat (n :: u32)) = (if recsize = 2 then [ucast n, ucast (drop_bit 8 n)] else [ucast n])"
proof -
  have "(of_nat (unat x) :: u8) = ucast x" for x :: u32 by (simp add: unsigned_of_nat)
  moreover have "unat (drop_bit 8 n) = unat n div 256" by (simp add: drop_bit_eq_div unat_div)
  ultimately show ?thesis by (metis rec_hdr_def)
qed

lemma raw_kfifo_poke_n_eq:
  assumes wf: "wf_kfifo f" "kf_esize f = 1" and rs: "recsize = 1 \<or> recsize = 2" and fits: "kf_len f + unat recsize \<le> kf_size f"
  obtains d where "raw_kfifo_poke_n f n recsize = Some (f\<lparr>kf_data := Some d\<rparr>)"
    "wf_kfifo (f\<lparr>kf_data := Some d, kf_in := kf_in f + recsize\<rparr>)"
    "kf_len (f\<lparr>kf_data := Some d, kf_in := kf_in f + recsize\<rparr>) = kf_len f + unat recsize"
    "kfifo_bytes (f\<lparr>kf_data := Some d, kf_in := kf_in f + recsize\<rparr>) = kfifo_bytes f @ rec_hdr recsize (unat n)"
    "length d = length (kf_buf f)"
proof -
  note D = wf_kfifoD [OF wf(1)]
  define d1 where "d1 = ring_write (kf_buf f) (kf_bytesize f) (unat (kf_in f)) [ucast n]"
  define f1 where "f1 = f\<lparr>kf_data := Some d1, kf_in := kf_in f + 1\<rparr>"
  have len1: "kf_len f < kf_size f" using fits rs by auto
  note A1 = kfifo_append_byte [OF wf len1, of "ucast n", folded d1_def, folded f1_def]
  have poke1: "KFIFO_POKE (kf_buf f) (kf_in f) (kf_mask f) n = Some d1"
    using KFIFO_POKE_eq [OF wf] by (simp add: d1_def)
  have len_d1: "length d1 = length (kf_buf f)" using D(3,5) wf(2) by (simp add: d1_def)
  show thesis
  proof (cases "recsize = 1")
    case True
    then show thesis
      using that [of d1] A1 poke1 len_d1 D(1) by (simp add: raw_kfifo_poke_n_def f1_def rec_hdr_words)
  next
    case False
    with rs have [simp]: "recsize = 2" by simp
    define d2 where "d2 = ring_write d1 (kf_bytesize f) (unat (kf_in f + 1)) [ucast (drop_bit 8 n)]"
    have f1: "kf_buf f1 = d1" "kf_in f1 = kf_in f + 1" "kf_mask f1 = kf_mask f" "kf_size f1 = kf_size f" by (simp_all add: f1_def)
    have "kf_len f1 < kf_size f1" using A1(2,3) fits by simp
    note A2 = kfifo_append_byte [OF A1(1,4) this, of "ucast (drop_bit 8 n)"]
    have poke2: "KFIFO_POKE d1 (kf_in f + 1) (kf_mask f) (drop_bit 8 n) = Some d2"
      using KFIFO_POKE_eq [OF A1(1,4), of "kf_in f + 1"] A1(4) wf(2) by (simp add: d2_def f1)
    have g: "f1\<lparr>kf_data := Some (ring_write (kf_buf f1) (kf_bytesize f1) (unat (kf_in f1)) [ucast (drop_bit 8 n)]), kf_in := kf_in f1 + 1\<rparr> =
        f\<lparr>kf_data := Some d2, kf_in := kf_in f + 2\<rparr>"
      using A1(4) wf(2) by (simp add: f1) (simp add: d2_def f1_def)
    have "length d2 = length (kf_buf f)" using D(3,5) wf(2) len_d1 by (simp add: d2_def)
    then show thesis
      using that [of d2] A2 [unfolded g] A1(3,5) poke1 poke2 D(1) by (simp add: raw_kfifo_poke_n_def rec_hdr_words)
  qed
qed

text \<open>Storing a header and then \<open>len\<close> bytes of it, as both \<open>__kfifo_in_r\<close> and \<open>__kfifo_from_user_r\<close> do.\<close>

lemma rec_queue_append:
  assumes q: "rec_queue recsize f rs" and r: "rec_ok recsize r" and fits: "kf_len f + unat recsize + length r \<le> kf_size f"
    and n: "unat n = length r"
    and poke: "wf_kfifo (f\<lparr>kf_data := Some d, kf_in := kf_in f + recsize\<rparr>)"
    "kf_len (f\<lparr>kf_data := Some d, kf_in := kf_in f + recsize\<rparr>) = kf_len f + unat recsize"
    "kfifo_bytes (f\<lparr>kf_data := Some d, kf_in := kf_in f + recsize\<rparr>) = kfifo_bytes f @ rec_hdr recsize (unat n)"
    and xs: "length xs \<le> length r" "take (length r) xs = r"
  shows "rec_queue recsize (f\<lparr>kf_data := Some (ring_write d (kf_size f) (unat (kf_in f + recsize)) xs),
    kf_in := kf_in f + (n + recsize)\<rparr>) (rs @ [r])"
proof -
  let ?g = "f\<lparr>kf_data := Some d, kf_in := kf_in f + recsize\<rparr>"
  have e: "kf_esize f = 1" using q by (simp add: rec_queue_def)
  have len: "length xs = length r" using xs by (metis order_antisym length_take min.cobounded1)
  have "kf_len ?g * unat (kf_esize ?g) + length xs \<le> kf_bytesize ?g" unfolding poke(2) using fits len e by simp
  note A = kfifo_append [OF poke(1) this, of n]
  have h: "?g\<lparr>kf_data := Some (ring_write (kf_buf ?g) (kf_bytesize ?g) (unat (kf_in ?g) * unat (kf_esize ?g)) xs),
      kf_in := kf_in ?g + n\<rparr> =
    f\<lparr>kf_data := Some (ring_write d (kf_size f) (unat (kf_in f + recsize)) xs), kf_in := kf_in f + (n + recsize)\<rparr>"
    using e by (simp add: ac_simps)
  show ?thesis
    using q r A(1,4,5) xs n e len unfolding h poke(3) by (simp add: rec_queue_def rec_enc_def)
qed

lemma unat_rec_total:
  fixes n recsize :: u32
  assumes "recsize = 1 \<or> recsize = 2" "unat n < 2 ^ 31"
  shows "unat (n + recsize) = unat n + unat recsize"
  using assms by (auto simp: unat_word_ariths)

lemma rec_guard:
  assumes "rec_queue recsize f rs" "unat l < 2 ^ 31"
  shows "kfifo_unused f < l + recsize \<longleftrightarrow> kf_size f - kf_len f < unat l + unat recsize"
  using assms unat_rec_total [of recsize l] unat_kfifo_unused [of f]
  by (auto simp: rec_queue_def word_less_nat_alt)

lemma raw_kfifo_in_r_eq:
  assumes q: "rec_queue recsize f rs" and r: "rec_ok recsize r" and n: "unat n = length r"
  shows "if kf_size f - kf_len f < length r + unat recsize then raw_kfifo_in_r f r n recsize = Some (0, f)
    else \<exists>f'. raw_kfifo_in_r f r n recsize = Some (n, f') \<and> rec_queue recsize f' (rs @ [r]) \<and> kf_size f' = kf_size f"
proof -
  have wf: "wf_kfifo f" "kf_esize f = 1" and rs: "recsize = 1 \<or> recsize = 2" using q by (simp_all add: rec_queue_def)
  note D = wf_kfifoD [OF wf(1)]
  have "unat n < 2 ^ 31" using r n by (auto simp: rec_ok_def split: if_splits)
  note guard = rec_guard [OF q this, unfolded n]
  show ?thesis
  proof (cases "kf_size f - kf_len f < length r + unat recsize")
    case True
    then show ?thesis using guard by (simp add: raw_kfifo_in_r_def)
  next
    case False
    then have fits: "kf_len f + unat recsize + length r \<le> kf_size f" using D(7) by linarith
    then have fits': "kf_len f + unat recsize \<le> kf_size f" by simp
    obtain d where d: "raw_kfifo_poke_n f n recsize = Some (f\<lparr>kf_data := Some d\<rparr>)"
      "wf_kfifo (f\<lparr>kf_data := Some d, kf_in := kf_in f + recsize\<rparr>)"
      "kf_len (f\<lparr>kf_data := Some d, kf_in := kf_in f + recsize\<rparr>) = kf_len f + unat recsize"
      "kfifo_bytes (f\<lparr>kf_data := Some d, kf_in := kf_in f + recsize\<rparr>) = kfifo_bytes f @ rec_hdr recsize (unat n)"
      "length d = length (kf_buf f)"
      using raw_kfifo_poke_n_eq [OF wf rs fits'] by blast
    have "wf_kfifo (f\<lparr>kf_data := Some d\<rparr>)" using wf(1) d(5) by (simp add: wf_kfifo_def)
    then have "kfifo_copy_in (f\<lparr>kf_data := Some d\<rparr>) r n (kf_in f + recsize) =
        Some (f\<lparr>kf_data := Some (ring_write d (kf_size f) (unat (kf_in f + recsize)) r)\<rparr>)"
      using kfifo_copy_in_eq [of "f\<lparr>kf_data := Some d\<rparr>" n r "kf_in f + recsize"] wf(2) n fits by simp
    then have "raw_kfifo_in_r f r n recsize = Some (n, f\<lparr>kf_data := Some (ring_write d (kf_size f) (unat (kf_in f + recsize)) r),
        kf_in := kf_in f + (n + recsize)\<rparr>)"
      using False guard d(1) by (simp add: raw_kfifo_in_r_def)
    then show ?thesis
      using False rec_queue_append [OF q r fits n d(2-4), of r] by simp
  qed
qed

lemma rec_queue_Cons:
  assumes q: "rec_queue recsize f (r # rs)"
  shows "kfifo_bytes f = rec_hdr recsize (length r) @ r @ concat (map (rec_enc recsize) rs)"
    "unat recsize + length r \<le> kf_len f" "length r < 65536" "kf_in f \<noteq> kf_out f"
proof -
  have rs: "recsize = 1 \<or> recsize = 2" and e: "kf_esize f = 1" using q by (simp_all add: rec_queue_def)
  show b: "kfifo_bytes f = rec_hdr recsize (length r) @ r @ concat (map (rec_enc recsize) rs)"
    using q by (simp add: rec_queue_def rec_enc_def)
  show len: "unat recsize + length r \<le> kf_len f"
    using arg_cong [OF b, of length] length_rec_hdr [OF rs] e by simp
  show "length r < 65536" using q by (auto simp: rec_queue_def rec_ok_def split: if_splits)
  show "kf_in f \<noteq> kf_out f" using len rs by (auto simp: kf_len_def)
qed

lemma rec_len_word:
  assumes "n < 65536"
  shows "ucast (of_nat n :: u8) OR push_bit 8 (ucast (of_nat (n div 256) :: u8)) = (of_nat n :: u32)"
proof -
  let ?x = "of_nat n :: u32"
  have x: "unat ?x = n" using assms by (simp add: unat_of_nat)
  have "unat (take_bit 8 ?x) = n mod 256"
    by (simp only: unsigned_take_bit_eq x) (simp add: take_bit_eq_mod)
  then have "ucast (of_nat n :: u8) = take_bit 8 ?x"
    by (simp add: word_unat_eq_iff [of "ucast _"] unat_ucast_up unat_of_nat)
  moreover have "ucast (of_nat (n div 256) :: u8) = drop_bit 8 ?x"
    using assms by (simp add: word_unat_eq_iff unat_ucast_up unat_of_nat drop_bit_eq_div unat_div x)
  moreover have "take_bit 8 ?x OR push_bit 8 (drop_bit 8 ?x) = ?x"
    by (rule bit_eqI) (auto simp: bit_simps)
  ultimately show ?thesis by simp
qed

lemma raw_kfifo_peek_n_eq:
  assumes q: "rec_queue recsize f (r # rs)"
  shows "raw_kfifo_peek_n f recsize = Some (of_nat (length r))"
proof -
  have wf: "wf_kfifo f" "kf_esize f = 1" and rs: "recsize = 1 \<or> recsize = 2" using q by (simp_all add: rec_queue_def)
  note C = rec_queue_Cons [OF q]
  show ?thesis
  proof (cases "recsize = 1")
    case True
    then have "length r < 256" using q by (simp add: rec_queue_def rec_ok_def)
    then have "unat (of_nat (length r) :: u8) = length r" by (simp add: unat_of_nat)
    then have "(ucast (of_nat (length r) :: u8) :: u32) = of_nat (length r)"
      using C(3) by (simp add: word_unat_eq_iff unat_ucast_up unat_of_nat)
    then show ?thesis
      using True C(1,2) KFIFO_PEEK_eq [OF wf, of 0] wf_kfifoD(1) [OF wf(1)]
      by (simp add: raw_kfifo_peek_n_def rec_hdr_def)
  next
    case False
    with rs have "recsize = 2" by simp
    then show ?thesis
      using C(1,2,3) KFIFO_PEEK_eq [OF wf, of 0] KFIFO_PEEK_eq [OF wf, of 1] wf_kfifoD(1) [OF wf(1)] rec_len_word [of "length r"]
      by (simp add: raw_kfifo_peek_n_def rec_hdr_def)
  qed
qed

lemma rec_queue_advance:
  assumes q: "rec_queue recsize f (r # rs)"
  shows "rec_queue recsize (f\<lparr>kf_out := kf_out f + (of_nat (length r) + recsize)\<rparr>) rs"
proof -
  have rs: "recsize = 1 \<or> recsize = 2" and e: "wf_kfifo f" "kf_esize f = 1" using q by (simp_all add: rec_queue_def)
  note C = rec_queue_Cons [OF q]
  have n: "unat (of_nat (length r) :: u32) = length r" using C(3) by (simp add: unat_of_nat)
  then have s: "unat (of_nat (length r) + recsize) = length r + unat recsize"
    using unat_rec_total [OF rs, of "of_nat (length r)"] C(3) by simp
  have "unat (of_nat (length r) + recsize) \<le> kf_len f" unfolding s using C(2) by simp
  note A = kfifo_advance [OF e(1) this]
  show ?thesis
    using q A(1,4,5) unfolding s C(1) by (simp add: rec_queue_def length_rec_hdr [OF rs])
qed

lemma rec_queue_read:
  assumes q: "rec_queue recsize f (r # rs)" and l: "unat l \<le> length r"
  shows "ring_read (kf_buf f) (kf_bytesize f) (unat (kf_out f + recsize) * unat (kf_esize f)) (unat l) = take (unat l) r"
proof -
  have rs: "recsize = 1 \<or> recsize = 2" and e: "wf_kfifo f" "kf_esize f = 1" using q by (simp_all add: rec_queue_def)
  note C = rec_queue_Cons [OF q]
  have "unat recsize \<le> kf_len f" using C(2) by simp
  note A = kfifo_advance [OF e(1) this]
  have "kfifo_bytes (f\<lparr>kf_out := kf_out f + recsize\<rparr>) = r @ concat (map (rec_enc recsize) rs)"
    using A(5) C(1) e(2) by (simp add: length_rec_hdr [OF rs])
  then have "take (unat l) (kfifo_bytes (f\<lparr>kf_out := kf_out f + recsize\<rparr>)) = take (unat l) r" using l by simp
  moreover have "unat l \<le> kf_len (f\<lparr>kf_out := kf_out f + recsize\<rparr>)" unfolding A(3) using l C(2) by simp
  ultimately show ?thesis using e(2) by (simp add: kfifo_bytes_def take_ring_read)
qed

lemma kfifo_out_copy_r_eq:
  assumes q: "rec_queue recsize f (r # rs)"
  obtains l where "kfifo_out_copy_r f len recsize = Some (l, take (unat l) r, of_nat (length r))"
    "unat l = min (unat len) (length r)"
proof -
  have e: "wf_kfifo f" "kf_esize f = 1" using q by (simp_all add: rec_queue_def)
  note C = rec_queue_Cons [OF q]
  define l where "l = (if len > of_nat (length r) then of_nat (length r) else len)"
  have l: "unat l = min (unat len) (length r)"
    using C(3) by (auto simp: l_def word_less_nat_alt unat_of_nat)
  have "unat l \<le> kf_size f" using l C(2) wf_kfifoD(7) [OF e(1)] by simp
  then have "kfifo_copy_out f l (kf_out f + recsize) = Some (take (unat l) r)"
    using kfifo_copy_out_eq [OF e(1), of l "kf_out f + recsize"] rec_queue_read [OF q, of l] l e(2) by simp
  then show thesis
    using that [of l] l raw_kfifo_peek_n_eq [OF q] unfolding kfifo_out_copy_r_def by (simp add: l_def [symmetric])
qed

lemma raw_kfifo_out_r_eq:
  assumes q: "rec_queue recsize f rs"
  shows "case rs of [] \<Rightarrow> raw_kfifo_out_r f len recsize = Some (0, [], f)
    | r # rs' \<Rightarrow> \<exists>l f'. raw_kfifo_out_r f len recsize = Some (l, take (unat l) r, f') \<and>
        unat l = min (unat len) (length r) \<and> rec_queue recsize f' rs' \<and> kf_size f' = kf_size f"
proof (cases rs)
  case Nil
  then have "length (kfifo_bytes f) = 0" "kf_esize f = 1" using q by (simp_all add: rec_queue_def)
  then have "kf_len f = 0" by simp
  then have "kf_in f = kf_out f" by (simp add: kf_len_def unat_eq_0)
  then show ?thesis by (simp add: Nil raw_kfifo_out_r_def)
next
  case (Cons r rs')
  note q = q [unfolded Cons]
  obtain l where l: "kfifo_out_copy_r f len recsize = Some (l, take (unat l) r, of_nat (length r))"
    "unat l = min (unat len) (length r)" using kfifo_out_copy_r_eq [OF q] by blast
  then show ?thesis
    using rec_queue_Cons(4) [OF q] rec_queue_advance [OF q] by (simp add: Cons raw_kfifo_out_r_def)
qed

text \<open>Data written after \<open>in\<close> does not matter until \<open>in\<close> moves.\<close>

lemma kfifo_retract:
  assumes wf: "wf_kfifo g" and s: "unat s \<le> kf_len g"
  defines "f' \<equiv> g\<lparr>kf_in := kf_in g - s\<rparr>"
  shows "wf_kfifo f'" "kfifo_bytes f' = take ((kf_len g - unat s) * unat (kf_esize g)) (kfifo_bytes g)"
proof -
  have "unat (kf_in g - s - kf_out g) = kf_len g - unat s"
    using s unat_sub [of s "kf_in g - kf_out g"] by (simp add: kf_len_def word_le_nat_alt algebra_simps)
  then have len': "kf_len f' = kf_len g - unat s" by (simp add: kf_len_def f'_def)
  show "wf_kfifo f'" unfolding wf_kfifo_def len' using wf by (auto simp: wf_kfifo_def f'_def)
  have "(kf_len g - unat s) * unat (kf_esize g) \<le> kf_len g * unat (kf_esize g)" by simp
  then show "kfifo_bytes f' = take ((kf_len g - unat s) * unat (kf_esize g)) (kfifo_bytes g)"
    unfolding kfifo_bytes_def len' by (subst take_ring_read) (simp_all add: f'_def)
qed

lemma raw_kfifo_max_r_eq:
  "unat (raw_kfifo_max_r len 1) = min (unat len) 255" "unat (raw_kfifo_max_r len 2) = min (unat len) 65535"
  by (auto simp: raw_kfifo_max_r_def shl32_def Let_def word_less_nat_alt)

lemma rec_queue_scribble:
  assumes q: "rec_queue recsize f rs"
    and g: "wf_kfifo (f\<lparr>kf_data := Some d, kf_in := kf_in f + recsize\<rparr>)"
    "kf_len (f\<lparr>kf_data := Some d, kf_in := kf_in f + recsize\<rparr>) = kf_len f + unat recsize"
    "kfifo_bytes (f\<lparr>kf_data := Some d, kf_in := kf_in f + recsize\<rparr>) = kfifo_bytes f @ hdr"
    and fits: "kf_len f + unat recsize + length xs \<le> kf_size f"
  shows "rec_queue recsize (f\<lparr>kf_data := Some (ring_write d (kf_size f) (unat (kf_in f + recsize)) xs)\<rparr>) rs"
proof -
  let ?g = "f\<lparr>kf_data := Some d, kf_in := kf_in f + recsize\<rparr>"
  let ?h = "f\<lparr>kf_data := Some (ring_write d (kf_size f) (unat (kf_in f + recsize)) xs), kf_in := kf_in f + recsize\<rparr>"
  have e: "kf_esize f = 1" using q by (simp add: rec_queue_def)
  have "kf_len ?g * unat (kf_esize ?g) + length xs \<le> kf_bytesize ?g" unfolding g(2) using fits e by simp
  note A = kfifo_append [OF g(1) this, of 0]
  have "?g\<lparr>kf_data := Some (ring_write (kf_buf ?g) (kf_bytesize ?g) (unat (kf_in ?g) * unat (kf_esize ?g)) xs),
      kf_in := kf_in ?g + 0\<rparr> = ?h" using e by simp
  note A = A [unfolded this]
  have "unat recsize \<le> kf_len ?h" using A(3) g(2) by simp
  note R = kfifo_retract [OF A(1) this]
  have "?h\<lparr>kf_in := kf_in ?h - recsize\<rparr> = f\<lparr>kf_data := Some (ring_write d (kf_size f) (unat (kf_in f + recsize)) xs)\<rparr>"
    by simp
  note R = R [unfolded this]
  have "kfifo_bytes (f\<lparr>kf_data := Some (ring_write d (kf_size f) (unat (kf_in f + recsize)) xs)\<rparr>) = kfifo_bytes f"
    using R(2) A(3,5) g(2,3) e by simp
  then show ?thesis using q R(1) by (simp add: rec_queue_def)
qed

lemma raw_kfifo_from_user_r_eq:
  fixes len :: u32 and user :: "u8 list"
  assumes q: "rec_queue recsize f rs"
  defines "n \<equiv> min (unat len) (if recsize = 2 then 65535 else 255)"
  shows "if kf_size f - kf_len f < n + unat recsize then raw_kfifo_from_user_r f user len recsize = Some (0, 0, f)
    else if length user < n then \<exists>f'. raw_kfifo_from_user_r f user len recsize = Some (- EFAULT, 0, f') \<and> rec_queue recsize f' rs
    else \<exists>f'. raw_kfifo_from_user_r f user len recsize = Some (0, of_nat n, f') \<and> rec_queue recsize f' (rs @ [take n user])"
proof -
  have wf: "wf_kfifo f" "kf_esize f = 1" and rs: "recsize = 1 \<or> recsize = 2" using q by (simp_all add: rec_queue_def)
  note D = wf_kfifoD [OF wf(1)]
  define l where "l = raw_kfifo_max_r len recsize"
  have l: "unat l = n" using rs raw_kfifo_max_r_eq by (auto simp: l_def n_def)
  have "unat l < 2 ^ 31" unfolding l by (simp add: n_def min_less_iff_disj)
  note guard = rec_guard [OF q this, unfolded l]
  show ?thesis
  proof (cases "kf_size f - kf_len f < n + unat recsize")
    case True
    then show ?thesis using guard by (simp add: raw_kfifo_from_user_r_def l_def [symmetric])
  next
    case False
    then have fits: "kf_len f + unat recsize + n \<le> kf_size f" using D(7) by linarith
    then have fits': "kf_len f + unat recsize \<le> kf_size f" by simp
    obtain d where d: "raw_kfifo_poke_n f l recsize = Some (f\<lparr>kf_data := Some d\<rparr>)"
      "wf_kfifo (f\<lparr>kf_data := Some d, kf_in := kf_in f + recsize\<rparr>)"
      "kf_len (f\<lparr>kf_data := Some d, kf_in := kf_in f + recsize\<rparr>) = kf_len f + unat recsize"
      "kfifo_bytes (f\<lparr>kf_data := Some d, kf_in := kf_in f + recsize\<rparr>) = kfifo_bytes f @ rec_hdr recsize (unat l)"
      "length d = length (kf_buf f)"
      using raw_kfifo_poke_n_eq [OF wf rs fits'] by blast
    let ?f1 = "f\<lparr>kf_data := Some d\<rparr>"
    have f1: "wf_kfifo ?f1" using wf(1) d(5) by (simp add: wf_kfifo_def)
    have ln: "unat l \<le> kf_size ?f1" using l fits by simp
    obtain nb xs where R: "unat nb = unat l * unat (kf_esize ?f1)"
      "kfifo_copy_from_user ?f1 user l (kf_in f + recsize) =
        (let ret = (if unat nb \<le> length user then 0 else DIV_ROUND_UP (of_nat (unat nb - length user)) (kf_esize ?f1)) in
         Some (ret, nb - ret, ?f1\<lparr>kf_data := Some (ring_write (kf_buf ?f1) (kf_bytesize ?f1)
           (unat (kf_in f + recsize) * unat (kf_esize ?f1)) xs)\<rparr>))"
      "min (unat nb) (length user) \<le> length xs" "length xs \<le> unat nb"
      "take (min (unat nb) (length user)) xs = take (unat nb) user"
      by (rule kfifo_copy_from_user_raw [OF f1 ln, of user "kf_in f + recsize"])
    have nb: "unat nb = n" using R(1) wf(2) l by simp
    note copy = R(2) [unfolded nb] and xs = R(3-5) [unfolded nb]
    show ?thesis
    proof (cases "length user < n")
      case True
      define ret where "ret = DIV_ROUND_UP (of_nat (n - length user)) 1"
      have "unat ret = n - length user"
        using not_copied_eq [of 1 n "length user"] True l \<open>unat l < 2 ^ 31\<close> by (simp add: ret_def)
      then have "ret \<noteq> 0" using True by auto
      then have "raw_kfifo_from_user_r f user len recsize = Some (- EFAULT, 0,
          f\<lparr>kf_data := Some (ring_write d (kf_size f) (unat (kf_in f + recsize)) xs)\<rparr>)"
        using True False guard d(1) copy wf(2) by (simp add: raw_kfifo_from_user_r_def l_def [symmetric] ret_def Let_def)
      moreover have "kf_len f + unat recsize + length xs \<le> kf_size f" using xs(2) fits by simp
      ultimately show ?thesis using rec_queue_scribble [OF q d(2-4)] True False by simp
    next
      case lu: False
      define r where "r = take n user"
      have r: "length r = n" "rec_ok recsize r" using lu rs by (auto simp: r_def rec_ok_def n_def)
      have "raw_kfifo_from_user_r f user len recsize = Some (0, nb,
          f\<lparr>kf_data := Some (ring_write d (kf_size f) (unat (kf_in f + recsize)) xs), kf_in := kf_in f + (l + recsize)\<rparr>)"
        using lu False guard d(1) copy wf(2) by (simp add: raw_kfifo_from_user_r_def l_def [symmetric] Let_def)
      moreover have "nb = of_nat n" using nb [symmetric] by simp
      moreover have "rec_queue recsize (f\<lparr>kf_data := Some (ring_write d (kf_size f) (unat (kf_in f + recsize)) xs),
          kf_in := kf_in f + (l + recsize)\<rparr>) (rs @ [r])"
        using rec_queue_append [OF q r(2), of l d xs] d(2-4) fits l xs lu r(1) by (simp add: r_def)
      ultimately show ?thesis using lu False by (simp add: r_def)
    qed
  qed
qed

lemma raw_kfifo_to_user_r_eq:
  fixes len :: u32
  assumes q: "rec_queue recsize f (r # rs)"
  defines "n \<equiv> min (unat len) (length r)"
  shows "if room < n then raw_kfifo_to_user_r f room len recsize = Some (- EFAULT, 0, take room (take n r), f)
    else \<exists>f'. raw_kfifo_to_user_r f room len recsize = Some (0, of_nat n, take n r, f') \<and> rec_queue recsize f' rs"
proof -
  have wf: "wf_kfifo f" "kf_esize f = 1" using q by (simp_all add: rec_queue_def)
  note C = rec_queue_Cons [OF q]
  define l where "l = (if len > of_nat (length r) then of_nat (length r) else len)"
  have l: "unat l = n" using C(3) by (auto simp: l_def n_def word_less_nat_alt unat_of_nat)
  then have l': "unat l \<le> length r" "unat l \<le> kf_size f" "unat l < 2 ^ 31"
    using C(2,3) wf_kfifoD(7) [OF wf(1)] by (simp_all add: n_def min_less_iff_disj)
  obtain nb where R: "unat nb = unat l * unat (kf_esize f)"
    "kfifo_copy_to_user f room l (kf_out f + recsize) =
      (let ret = (if unat nb \<le> room then 0 else DIV_ROUND_UP (of_nat (unat nb - room)) (kf_esize f)) in
       Some (ret, nb - ret, take room (ring_read (kf_buf f) (kf_bytesize f) (unat (kf_out f + recsize) * unat (kf_esize f)) (unat nb))))"
    by (rule kfifo_copy_to_user_raw [OF wf(1) l'(2), of room "kf_out f + recsize"])
  have nb: "unat nb = n" "nb = l" using R(1) wf(2) l by (simp_all add: word_unat_eq_iff)
  have copy: "kfifo_copy_to_user f room l (kf_out f + recsize) =
      (let ret = (if n \<le> room then 0 else DIV_ROUND_UP (of_nat (n - room)) 1) in Some (ret, l - ret, take room (take n r)))"
    using R(2) rec_queue_read [OF q l'(1)] l wf(2) by (simp add: nb)
  define ret where "ret = (if n \<le> room then 0 else DIV_ROUND_UP (of_nat (n - room)) 1)"
  note copy = copy [folded ret_def]
  have ret: "unat ret = n - min n room"
    using not_copied_eq [of 1 n room] l'(3) l unfolding ret_def by (cases "n \<le> room") (simp_all del: of_nat_diff)
  show ?thesis
  proof (cases "room < n")
    case True
    then have "ret \<noteq> 0" using ret by auto
    then show ?thesis
      using True C(4) raw_kfifo_peek_n_eq [OF q] copy
      by (simp add: raw_kfifo_to_user_r_def l_def [symmetric] Let_def)
  next
    case False
    then have "ret = 0" using ret by (simp add: word_unat_eq_iff)
    moreover have "l = of_nat n" using l [symmetric] by simp
    ultimately show ?thesis
      using False C(4) raw_kfifo_peek_n_eq [OF q] copy rec_queue_advance [OF q]
      by (simp add: raw_kfifo_to_user_r_def l_def [symmetric] Let_def)
  qed
qed

end
