(* ===== verification/Queue_Interface.thy ===== *)
theory Queue_Interface
  imports Main
begin

text \<open>
  The contract of a bounded queue, as its clients rely on it: \<open>repr s xs\<close> says that the state \<open>s\<close>
  holds the items \<open>xs\<close>, oldest first; \<open>put\<close> appends an item or refuses it, \<open>get\<close> removes the oldest
  one. \<open>None\<close> is a memory fault. The lemma \<open>run_fifo\<close> holds for every interleaving of the two.
\<close>

datatype 'a queue_op = Put 'a | Get

text \<open>The results are the items accepted and the items delivered, both in order.\<close>

primrec queue_run ::
  "('a \<Rightarrow> 's \<Rightarrow> (bool \<times> 's) option) \<Rightarrow> ('s \<Rightarrow> ('a option \<times> 's) option) \<Rightarrow> 'a queue_op list \<Rightarrow> 's \<Rightarrow>
   ('a list \<times> 'a list \<times> 's) option" where
  "queue_run put get [] s = Some ([], [], s)"
| "queue_run put get (oper # ops) s =
     (case oper of
        Put x \<Rightarrow>
          (case put x s of
             None \<Rightarrow> None
           | Some (ok, s) \<Rightarrow>
               map_option (\<lambda>(acc, out, s). (if ok then x # acc else acc, out, s)) (queue_run put get ops s))
      | Get \<Rightarrow>
          (case get s of
             None \<Rightarrow> None
           | Some (res, s) \<Rightarrow>
               map_option (\<lambda>(acc, out, s). (acc, case res of Some x \<Rightarrow> x # out | None \<Rightarrow> out, s))
                 (queue_run put get ops s)))"

locale bounded_queue =
  fixes repr :: "'s \<Rightarrow> 'a list \<Rightarrow> bool"
    and item :: "'a \<Rightarrow> bool"
    and put :: "'a \<Rightarrow> 's \<Rightarrow> (bool \<times> 's) option"
    and get :: "'s \<Rightarrow> ('a option \<times> 's) option"
  assumes put_law: "repr s xs \<Longrightarrow> item x \<Longrightarrow> \<exists>ok s'. put x s = Some (ok, s') \<and> repr s' (if ok then xs @ [x] else xs)"
    and get_empty: "repr s [] \<Longrightarrow> \<exists>s'. get s = Some (None, s') \<and> repr s' []"
    and get_first: "repr s (x # xs) \<Longrightarrow> \<exists>s'. get s = Some (Some x, s') \<and> repr s' xs"
begin

lemma run_fifo:
  "repr s xs \<Longrightarrow> (\<And>x. Put x \<in> set ops \<Longrightarrow> item x) \<Longrightarrow>
   \<exists>acc out s' ys. queue_run put get ops s = Some (acc, out, s') \<and> repr s' ys \<and> xs @ acc = out @ ys"
proof (induction ops arbitrary: s xs)
  case Nil
  then show ?case by auto
next
  case (Cons oper ops)
  note IH = Cons.IH
  have items: "\<And>x. Put x \<in> set ops \<Longrightarrow> item x" using Cons.prems(2) by simp
  show ?case
  proof (cases oper)
    case (Put x)
    then obtain ok s1 where s1: "put x s = Some (ok, s1)" "repr s1 (if ok then xs @ [x] else xs)"
      using put_law [OF Cons.prems(1), of x] Cons.prems(2) by auto
    then show ?thesis using IH [OF s1(2) items] Put by (cases ok) auto
  next
    case Get
    show ?thesis
    proof (cases xs)
      case Nil
      then obtain s1 where s1: "get s = Some (None, s1)" "repr s1 []" using get_empty Cons.prems(1) by blast
      then show ?thesis using IH [OF s1(2) items] Get Nil by auto
    next
      case (Cons x xs')
      then obtain s1 where s1: "get s = Some (Some x, s1)" "repr s1 xs'"
        using get_first \<open>repr s xs\<close> by blast
      then show ?thesis using IH [OF s1(2) items] Get Cons by auto
    qed
  qed
qed

end

end
