(* ===== verification/Kfifo_Api.thy ===== *)
theory Kfifo_Api
  imports Kfifo_Record Queue_Interface
begin

text \<open>
  The macros of \<open>include/linux/kfifo.h\<close> through which the kernel uses a FIFO. \<open>recsize\<close> is the size
  of the record length field the macro takes from the FIFO's type: 0 for a FIFO of elements, 1 or 2
  for a FIFO of records. A value \<open>val\<close> is the list of its bytes. The memory barriers and the
  unused type checks of the macros have no counterpart.

  The theorems show that a FIFO of elements and a FIFO of records are bounded queues, so that for
  every sequence of calls the items delivered are the items accepted, in the same order, that the
  fast paths \<open>kfifo_put\<close> and \<open>kfifo_get\<close> agree with the general functions, and what happens where
  the record length field is too small.
\<close>

definition kfifo_initialized :: "kfifo \<Rightarrow> bool" where
  "kfifo_initialized fifo \<longleftrightarrow> kf_mask fifo \<noteq> 0"

definition kfifo_size :: "kfifo \<Rightarrow> u32" where
  "kfifo_size fifo = kf_mask fifo + 1"

definition kfifo_reset :: "kfifo \<Rightarrow> kfifo" where
  "kfifo_reset fifo = fifo\<lparr>kf_in := 0, kf_out := 0\<rparr>"

definition kfifo_reset_out :: "kfifo \<Rightarrow> kfifo" where
  "kfifo_reset_out fifo = fifo\<lparr>kf_out := kf_in fifo\<rparr>"

definition kfifo_len :: "kfifo \<Rightarrow> u32" where
  "kfifo_len fifo = kf_in fifo - kf_out fifo"

definition kfifo_is_empty :: "kfifo \<Rightarrow> bool" where
  "kfifo_is_empty fifo \<longleftrightarrow> kf_in fifo = kf_out fifo"

definition kfifo_is_full :: "kfifo \<Rightarrow> bool" where
  "kfifo_is_full fifo \<longleftrightarrow> kfifo_len fifo > kf_mask fifo"

definition kfifo_avail :: "u32 \<Rightarrow> kfifo \<Rightarrow> u32" where
  "kfifo_avail recsize fifo =
     (let avail = kfifo_size fifo - kfifo_len fifo in
      if recsize \<noteq> 0 then
        (if avail \<le> recsize then 0 else raw_kfifo_max_r (avail - recsize) recsize)
      else avail)"

definition kfifo_skip :: "u32 \<Rightarrow> kfifo \<Rightarrow> kfifo option" where
  "kfifo_skip recsize fifo =
     (if recsize \<noteq> 0 then raw_kfifo_skip_r fifo recsize else Some (fifo\<lparr>kf_out := kf_out fifo + 1\<rparr>))"

definition kfifo_peek_len :: "u32 \<Rightarrow> kfifo \<Rightarrow> u32 option" where
  "kfifo_peek_len recsize fifo =
     (if recsize = 0 then Some (kfifo_len fifo * kf_esize fifo) else raw_kfifo_len_r fifo recsize)"

definition kfifo_alloc :: "(u32 \<Rightarrow> u8 list option) \<Rightarrow> bool \<Rightarrow> kfifo \<Rightarrow> u32 \<Rightarrow> u32 \<Rightarrow> errno \<times> kfifo" where
  "kfifo_alloc kmalloc is_kfifo_ptr fifo sz esize =
     (if is_kfifo_ptr then raw_kfifo_alloc kmalloc fifo sz esize else (- EINVAL, fifo))"

definition kfifo_free :: "bool \<Rightarrow> kfifo \<Rightarrow> kfifo" where
  "kfifo_free is_kfifo_ptr fifo = (if is_kfifo_ptr then raw_kfifo_free fifo else fifo)"

definition kfifo_init :: "bool \<Rightarrow> kfifo \<Rightarrow> u8 list \<Rightarrow> u32 \<Rightarrow> u32 \<Rightarrow> errno \<times> kfifo" where
  "kfifo_init is_kfifo_ptr fifo buffer sz esize =
     (if is_kfifo_ptr then raw_kfifo_init fifo buffer sz esize else (- EINVAL, fifo))"

text \<open>Access to \<open>((type *) data)[i & mask]\<close>.\<close>

definition elem_offset :: "kfifo \<Rightarrow> u32 \<Rightarrow> nat" where
  "elem_offset fifo i = unat (i AND kf_mask fifo) * unat (kf_esize fifo)"

definition kfifo_put :: "u32 \<Rightarrow> kfifo \<Rightarrow> u8 list \<Rightarrow> (u32 \<times> kfifo) option" where
  "kfifo_put recsize fifo val =
     (if recsize \<noteq> 0 then raw_kfifo_in_r fifo val (of_nat (length val)) recsize
      else if \<not> kfifo_is_full fifo then do {
        data \<leftarrow> kf_data fifo;
        data \<leftarrow> mem_write data (elem_offset fifo (kf_in fifo)) val;
        Some (1, fifo\<lparr>kf_data := Some data, kf_in := kf_in fifo + 1\<rparr>)
      } else Some (0, fifo))"

text \<open>\<open>n\<close> is the size of the variable \<open>*val\<close>; the bytes stored there are the second result.\<close>

definition kfifo_get :: "u32 \<Rightarrow> kfifo \<Rightarrow> u32 \<Rightarrow> (u32 \<times> u8 list \<times> kfifo) option" where
  "kfifo_get recsize fifo n =
     (if recsize \<noteq> 0 then raw_kfifo_out_r fifo n recsize
      else if \<not> kfifo_is_empty fifo then do {
        data \<leftarrow> kf_data fifo;
        val \<leftarrow> mem_read data (elem_offset fifo (kf_out fifo)) (unat (kf_esize fifo));
        Some (1, val, fifo\<lparr>kf_out := kf_out fifo + 1\<rparr>)
      } else Some (0, [], fifo))"

definition kfifo_peek :: "u32 \<Rightarrow> kfifo \<Rightarrow> u32 \<Rightarrow> (u32 \<times> u8 list) option" where
  "kfifo_peek recsize fifo n =
     (if recsize \<noteq> 0 then raw_kfifo_out_peek_r fifo n recsize
      else if \<not> kfifo_is_empty fifo then do {
        data \<leftarrow> kf_data fifo;
        val \<leftarrow> mem_read data (elem_offset fifo (kf_out fifo)) (unat (kf_esize fifo));
        Some (1, val)
      } else Some (0, []))"

definition kfifo_in :: "u32 \<Rightarrow> kfifo \<Rightarrow> u8 list \<Rightarrow> u32 \<Rightarrow> (u32 \<times> kfifo) option" where
  "kfifo_in recsize fifo buf n =
     (if recsize \<noteq> 0 then raw_kfifo_in_r fifo buf n recsize else raw_kfifo_in fifo buf n)"

definition kfifo_out :: "u32 \<Rightarrow> kfifo \<Rightarrow> u32 \<Rightarrow> (u32 \<times> u8 list \<times> kfifo) option" where
  "kfifo_out recsize fifo n =
     (if recsize \<noteq> 0 then raw_kfifo_out_r fifo n recsize else raw_kfifo_out fifo n)"

definition kfifo_from_user :: "u32 \<Rightarrow> kfifo \<Rightarrow> u8 list \<Rightarrow> u32 \<Rightarrow> (errno \<times> u32 \<times> kfifo) option" where
  "kfifo_from_user recsize fifo from len =
     (if recsize \<noteq> 0 then raw_kfifo_from_user_r fifo from len recsize
      else raw_kfifo_from_user fifo from len)"

definition kfifo_to_user :: "u32 \<Rightarrow> kfifo \<Rightarrow> nat \<Rightarrow> u32 \<Rightarrow> (errno \<times> u32 \<times> u8 list \<times> kfifo) option" where
  "kfifo_to_user recsize fifo room len =
     (if recsize \<noteq> 0 then raw_kfifo_to_user_r fifo room len recsize
      else raw_kfifo_to_user fifo room len)"

definition kfifo_dma_in_finish :: "u32 \<Rightarrow> kfifo \<Rightarrow> u32 \<Rightarrow> kfifo option" where
  "kfifo_dma_in_finish recsize fifo len =
     (if recsize \<noteq> 0 then raw_kfifo_dma_in_finish_r fifo len recsize
      else Some (fifo\<lparr>kf_in := kf_in fifo + len div kf_esize fifo\<rparr>))"

definition kfifo_dma_out_finish :: "u32 \<Rightarrow> kfifo \<Rightarrow> u32 \<Rightarrow> kfifo option" where
  "kfifo_dma_out_finish recsize fifo len =
     (if recsize \<noteq> 0 then raw_kfifo_dma_out_finish_r fifo recsize
      else Some (fifo\<lparr>kf_out := kf_out fifo + len div kf_esize fifo\<rparr>))"

definition kfifo_out_peek :: "u32 \<Rightarrow> kfifo \<Rightarrow> u32 \<Rightarrow> (u32 \<times> u8 list) option" where
  "kfifo_out_peek recsize fifo n =
     (if recsize \<noteq> 0 then raw_kfifo_out_peek_r fifo n recsize else raw_kfifo_out_peek fifo n)"

subsection \<open>The fast paths\<close>

lemma kfifo_is_full_iff: "wf_kfifo f \<Longrightarrow> kfifo_is_full f \<longleftrightarrow> kf_len f = kf_size f"
  using wf_kfifoD(7) [of f]
  by (auto simp: kfifo_is_full_def kfifo_len_def word_less_nat_alt kf_len_def kf_size_def)

lemma kfifo_is_empty_iff: "kfifo_is_empty f \<longleftrightarrow> kf_len f = 0"
  by (simp add: kfifo_is_empty_def kf_len_def unat_eq_0)

lemma elem_offset_eq:
  assumes "wf_kfifo f"
  shows "elem_offset f i = (unat i * unat (kf_esize f)) mod kf_bytesize f"
    "elem_offset f i + unat (kf_esize f) \<le> kf_bytesize f"
proof -
  note D = wf_kfifoD [OF assms]
  show "elem_offset f i = (unat i * unat (kf_esize f)) mod kf_bytesize f"
    unfolding elem_offset_def D(9) by (rule mult_mod_left)
  have "unat i mod kf_size f < kf_size f" using D(3) by simp
  then have "(unat i mod kf_size f + 1) * unat (kf_esize f) \<le> kf_bytesize f" by (intro mult_le_mono1) simp
  then show "elem_offset f i + unat (kf_esize f) \<le> kf_bytesize f" by (simp add: elem_offset_def D(9))
qed

lemma raw_kfifo_in_one:
  assumes wf: "wf_kfifo f" and val: "length val = unat (kf_esize f)"
  shows "raw_kfifo_in f val 1 = kfifo_put 0 f val"
proof (cases "kf_len f = kf_size f")
  case True
  then have "unat (kfifo_unused f) = 0" using unat_kfifo_unused [OF wf] by simp
  then have [simp]: "kfifo_unused f = 0" by (simp add: unat_eq_0)
  have "f\<lparr>kf_data := Some (kf_buf f)\<rparr> = f" using wf_kfifoD(1) [OF wf] by simp
  then show ?thesis
    using kfifo_copy_in_eq [OF wf, of 0 val "kf_in f"] True kfifo_is_full_iff [OF wf]
    by (simp add: raw_kfifo_in_def kfifo_put_def ring_write_def Let_def)
next
  case False
  then have "unat (kfifo_unused f) \<ge> 1" using unat_kfifo_unused [OF wf] wf_kfifoD(7) [OF wf] by simp
  then have u: "\<not> kfifo_unused f < 1" by (simp add: word_less_nat_alt)
  note E = elem_offset_eq [OF wf, of "kf_in f"]
  have "ring_write (kf_buf f) (kf_bytesize f) (unat (kf_in f) * unat (kf_esize f)) val = list_put (kf_buf f) (elem_offset f (kf_in f)) val"
    using E val by (simp add: ring_write_flat)
  moreover have "mem_write (kf_buf f) (elem_offset f (kf_in f)) val = Some (list_put (kf_buf f) (elem_offset f (kf_in f)) val)"
    using E(2) val wf_kfifoD(5) [OF wf] by (simp add: mem_write_SomeI)
  ultimately show ?thesis
    using kfifo_copy_in_eq [OF wf, of 1 val "kf_in f"] False kfifo_is_full_iff [OF wf] u val wf_kfifoD(1,3) [OF wf]
    by (simp add: raw_kfifo_in_def kfifo_put_def Let_def)
qed

lemma raw_kfifo_out_one:
  assumes wf: "wf_kfifo f"
  shows "raw_kfifo_out f 1 = kfifo_get 0 f n"
proof (cases "kf_len f = 0")
  case True
  then have "kf_in f - kf_out f = 0" by (simp add: kf_len_def unat_eq_0)
  then show ?thesis
    using kfifo_copy_out_eq [OF wf, of 0 "kf_out f"] True
    by (simp add: raw_kfifo_out_def raw_kfifo_out_peek_def kfifo_get_def kfifo_is_empty_iff ring_read_def)
next
  case False
  then have u: "\<not> kf_in f - kf_out f < 1" by (simp add: word_less_nat_alt kf_len_def)
  note E = elem_offset_eq [OF wf, of "kf_out f"] and D = wf_kfifoD [OF wf]
  have e: "unat (kf_esize f) \<le> kf_bytesize f" "0 < kf_bytesize f" using D(2,3) by auto
  have "ring_read (kf_buf f) (kf_bytesize f) (unat (kf_out f) * unat (kf_esize f)) (unat (kf_esize f)) =
      take (unat (kf_esize f)) (drop (elem_offset f (kf_out f)) (kf_buf f))"
    using ring_read_two_parts [OF e D(5), of "unat (kf_out f) * unat (kf_esize f)"] E
    by (simp add: Let_def min_absorb1)
  then show ?thesis
    using kfifo_copy_out_eq [OF wf, of 1 "kf_out f"] False u E(2) D(1,3,5)
    by (simp add: raw_kfifo_out_def raw_kfifo_out_peek_def kfifo_get_def kfifo_is_empty_iff mem_read_SomeI)
qed

subsection \<open>FIFOs are bounded queues\<close>

definition elem_queue :: "nat \<Rightarrow> kfifo \<Rightarrow> u8 list list \<Rightarrow> bool" where
  "elem_queue e f xs \<longleftrightarrow>
     wf_kfifo f \<and> unat (kf_esize f) = e \<and> (\<forall>x \<in> set xs. length x = e) \<and> kfifo_bytes f = concat xs"

definition elem_put :: "u8 list \<Rightarrow> kfifo \<Rightarrow> (bool \<times> kfifo) option" where
  "elem_put x f = map_option (\<lambda>(r, f). (r \<noteq> 0, f)) (kfifo_put 0 f x)"

definition elem_get :: "kfifo \<Rightarrow> (u8 list option \<times> kfifo) option" where
  "elem_get f = map_option (\<lambda>(r, x, f). (if r \<noteq> 0 then Some x else None, f)) (kfifo_get 0 f (kf_esize f))"

lemma elem_queue_len:
  assumes "elem_queue e f xs"
  shows "kf_len f = length xs"
proof -
  have "length (concat xs) = length xs * e"
    using assms by (intro length_concat_const) (simp add: elem_queue_def)
  moreover have "length (concat xs) = kf_len f * e" "0 < e"
    using assms length_kfifo_bytes [of f] wf_kfifoD(2) [of f] by (auto simp: elem_queue_def simp del: length_kfifo_bytes)
  ultimately show ?thesis by simp
qed

interpretation elem: bounded_queue "elem_queue e" "\<lambda>x. length x = e" elem_put elem_get for e
proof unfold_locales
  fix s :: kfifo and xs :: "u8 list list" and x :: "u8 list"
  assume q: "elem_queue e s xs" and x: "length x = e"
  have wf: "wf_kfifo s" "unat (kf_esize s) = e" using q by (simp_all add: elem_queue_def)
  have "min (unat (1 :: u32)) (kf_size s - kf_len s) * unat (kf_esize s) \<le> length x" using x wf(2) by simp
  from raw_kfifo_in_eq [OF wf(1) this] obtain l f' where in1: "raw_kfifo_in s x 1 = Some (l, f')"
    "unat l = min (unat (1 :: u32)) (kf_size s - kf_len s)"
    "wf_kfifo f'" "kf_size f' = kf_size s" "kf_esize f' = kf_esize s"
    "kfifo_bytes f' = kfifo_bytes s @ take (unat l * unat (kf_esize s)) x" .
  then have "elem_put x s = Some (l \<noteq> 0, f')"
    using raw_kfifo_in_one [OF wf(1)] x wf(2) by (simp add: elem_put_def)
  moreover have "elem_queue e f' (if l \<noteq> 0 then xs @ [x] else xs)"
  proof (cases "l = 0")
    case False
    then have "unat l = 1" using in1(2) by (simp add: min_def unat_eq_0 split: if_splits)
    then show ?thesis using False q in1(3-6) x wf(2) by (auto simp: elem_queue_def)
  qed (use q in1(3-6) in \<open>auto simp: elem_queue_def\<close>)
  ultimately show "\<exists>ok s'. elem_put x s = Some (ok, s') \<and> elem_queue e s' (if ok then xs @ [x] else xs)"
    by blast
next
  fix s :: kfifo
  assume q: "elem_queue e s []"
  then have "kf_len s = 0" using elem_queue_len [OF q] by simp
  then have "elem_get s = Some (None, s)" by (simp add: elem_get_def kfifo_get_def kfifo_is_empty_iff)
  then show "\<exists>s'. elem_get s = Some (None, s') \<and> elem_queue e s' []" using q by blast
next
  fix s :: kfifo and xs :: "u8 list list" and x :: "u8 list"
  assume q: "elem_queue e s (x # xs)"
  have wf: "wf_kfifo s" "unat (kf_esize s) = e" "length x = e" using q by (simp_all add: elem_queue_def)
  from raw_kfifo_out_eq [OF wf(1), of 1] obtain l f' where o1:
    "raw_kfifo_out s 1 = Some (l, take (unat l * unat (kf_esize s)) (kfifo_bytes s), f')"
    "unat l = min (unat (1 :: u32)) (kf_len s)" "wf_kfifo f'" "kf_size f' = kf_size s" "kf_esize f' = kf_esize s"
    "kfifo_bytes f' = drop (unat l * unat (kf_esize s)) (kfifo_bytes s)" .
  have l: "unat l = 1" using o1(2) elem_queue_len [OF q] by simp
  have "elem_get s = Some (Some x, f')"
    using o1(1) l raw_kfifo_out_one [OF wf(1), of "kf_esize s"] q wf
    by (auto simp: elem_get_def elem_queue_def)
  moreover have "elem_queue e f' xs" using q o1(3-6) l wf by (auto simp: elem_queue_def)
  ultimately show "\<exists>s'. elem_get s = Some (Some x, s') \<and> elem_queue e s' xs" by blast
qed

text \<open>
  \<open>__kfifo_in_r\<close> returns 0 both for a refused record and for an empty one it stored; the contract is
  for records that are not empty.
\<close>

definition rec_repr :: "u32 \<Rightarrow> kfifo \<Rightarrow> u8 list list \<Rightarrow> bool" where
  "rec_repr recsize f rs \<longleftrightarrow> rec_queue recsize f rs \<and> [] \<notin> set rs"

definition rec_put :: "u32 \<Rightarrow> u8 list \<Rightarrow> kfifo \<Rightarrow> (bool \<times> kfifo) option" where
  "rec_put recsize r f = map_option (\<lambda>(n, f). (n \<noteq> 0, f)) (kfifo_in recsize f r (of_nat (length r)))"

definition rec_get :: "u32 \<Rightarrow> kfifo \<Rightarrow> (u8 list option \<times> kfifo) option" where
  "rec_get recsize f = map_option (\<lambda>(n, r, f). (if n \<noteq> 0 then Some r else None, f)) (kfifo_out recsize f 65535)"

interpretation recs: bounded_queue "rec_repr recsize" "\<lambda>r. rec_ok recsize r \<and> r \<noteq> []" "rec_put recsize" "rec_get recsize"
  for recsize
proof unfold_locales
  fix s :: kfifo and xs :: "u8 list list" and r :: "u8 list"
  assume q: "rec_repr recsize s xs" and r: "rec_ok recsize r \<and> r \<noteq> []"
  then have rs: "recsize \<noteq> 0" by (auto simp: rec_repr_def rec_queue_def)
  have n: "unat (of_nat (length r) :: u32) = length r"
    using r by (auto simp: rec_ok_def unat_of_nat split: if_splits)
  with r have nz: "(of_nat (length r) :: u32) \<noteq> 0" by (metis length_0_conv unat_0)
  show "\<exists>ok s'. rec_put recsize r s = Some (ok, s') \<and> rec_repr recsize s' (if ok then xs @ [r] else xs)"
    using raw_kfifo_in_r_eq [of recsize s xs r "of_nat (length r)"] q r n nz rs
    by (fastforce simp: rec_repr_def rec_put_def kfifo_in_def split: if_splits)
next
  fix s :: kfifo
  assume q: "rec_repr recsize s []"
  then show "\<exists>s'. rec_get recsize s = Some (None, s') \<and> rec_repr recsize s' []"
    using raw_kfifo_out_r_eq [of recsize s "[]" 65535]
    by (auto simp: rec_repr_def rec_get_def kfifo_out_def rec_queue_def)
next
  fix s :: kfifo and xs :: "u8 list list" and r :: "u8 list"
  assume q: "rec_repr recsize s (r # xs)"
  then have rs: "recsize \<noteq> 0" "r \<noteq> []" "rec_queue recsize s (r # xs)" by (auto simp: rec_repr_def rec_queue_def)
  from raw_kfifo_out_r_eq [OF rs(3), of 65535] obtain l f' where o1:
    "raw_kfifo_out_r s 65535 recsize = Some (l, take (unat l) r, f')"
    "unat l = min (unat (65535 :: u32)) (length r)" "rec_queue recsize f' xs" by auto
  have l: "unat l = length r" using o1(2) rec_queue_Cons(3) [OF rs(3)] by simp
  then have "l \<noteq> 0" using rs(2) by auto
  then have "rec_get recsize s = Some (Some r, f')" using o1(1) l rs(1) by (simp add: rec_get_def kfifo_out_def)
  then show "\<exists>s'. rec_get recsize s = Some (Some r, s') \<and> rec_repr recsize s' xs"
    using o1(3) q by (auto simp: rec_repr_def)
qed

subsection \<open>Creating a FIFO\<close>

lemma fls_nat_bounds: "0 < n \<Longrightarrow> 2 ^ (fls_nat n - 1) \<le> n \<and> n < 2 ^ fls_nat n \<and> 0 < fls_nat n"
proof (induction n rule: fls_nat.induct)
  case (1 n)
  show ?case
  proof (cases "n div 2 = 0")
    case True
    with 1(2) have "n = 1" by linarith
    then show ?thesis by (simp add: fls_nat.simps)
  next
    case False
    with 1 have IH: "2 ^ (fls_nat (n div 2) - 1) \<le> n div 2" "n div 2 < 2 ^ fls_nat (n div 2)" "0 < fls_nat (n div 2)" by auto
    have f: "fls_nat n = Suc (fls_nat (n div 2))" using 1(2) by (subst fls_nat.simps) simp
    obtain k where k: "fls_nat (n div 2) = Suc k" using IH(3) gr0_conv_Suc by auto
    show ?thesis using IH(1,2) unfolding f k by simp linarith
  qed
qed

lemma fls_nat_le: "n < 2 ^ k \<Longrightarrow> fls_nat n \<le> k"
proof (cases "n = 0")
  case False
  assume "n < 2 ^ k"
  moreover have "2 ^ (fls_nat n - 1) \<le> n" "0 < fls_nat n" using fls_nat_bounds [of n] False by auto
  ultimately have "(2 :: nat) ^ (fls_nat n - 1) < 2 ^ k" by linarith
  then have "fls_nat n - 1 < k" by simp
  then show ?thesis using \<open>0 < fls_nat n\<close> by simp
qed (simp add: fls_nat.simps)

lemma rounddown_eq:
  assumes "n \<noteq> 0"
  shows "unat (rounddown_pow_of_two n) = 2 ^ (fls_nat (unat n) - 1)"
proof -
  let ?k = "fls_nat (unat n)"
  have "unat n \<noteq> 0" using assms by (simp add: unat_eq_0)
  then have k: "0 < ?k" "?k \<le> 32"
    using fls_nat_bounds [of "unat n"] fls_nat_le [of "unat n" 32] by simp_all
  have "unat (fls_long n - 1) = ?k - 1"
    using k by (simp add: fls_long_def unat_sub word_le_nat_alt unat_of_nat)
  moreover have "unat ((fls_long n - 1) AND 31) = unat (fls_long n - 1) mod 32"
    using unat_and_mask [of "31 :: u32" 5 "fls_long n - 1"] by simp
  ultimately have "rounddown_pow_of_two n = 2 ^ (?k - 1)"
    using k by (simp add: rounddown_pow_of_two_def shl32_def)
  then have "unat (rounddown_pow_of_two n) = unat (of_nat (2 ^ (?k - 1)) :: u32)" by simp
  moreover have "(2 :: nat) ^ (?k - 1) < 2 ^ 32" using k by (intro power_strict_increasing) auto
  ultimately show ?thesis by (simp only: unat_of_nat) simp
qed

lemma is_power_of_2_eq:
  assumes "is_power_of_2 n"
  shows "unat n = 2 ^ (fls_nat (unat n) - 1)"
proof (rule ccontr)
  let ?k = "fls_nat (unat n) - 1"
  assume ne: "unat n \<noteq> 2 ^ ?k"
  have n: "n \<noteq> 0" "n AND (n - 1) = 0" using assms by (auto simp: is_power_of_2_def)
  then have "unat n \<noteq> 0" by (simp add: unat_eq_0)
  then have b: "2 ^ ?k \<le> unat n" "unat n < 2 * 2 ^ ?k"
    using fls_nat_bounds [of "unat n"] by (simp_all flip: power_Suc)
  have n1: "unat (n - 1) = unat n - 1" using \<open>unat n \<noteq> 0\<close> by (simp add: unat_sub word_le_nat_alt)
  have "unat n div 2 ^ ?k = 1" "unat (n - 1) div 2 ^ ?k = 1" using b ne n1 by (simp_all add: div_nat_eqI)
  then have "bit (unat n) ?k" "bit (unat (n - 1)) ?k" by (simp_all add: bit_iff_odd)
  then have "bit (n AND (n - 1)) ?k" by (simp add: bit_and_iff bit_unsigned_iff)
  then show False using n(2) by simp
qed

lemma pow2_size:
  fixes q :: u32
  assumes "2 \<le> unat q" "unat q < 2 ^ 31"
  defines "sz \<equiv> (if \<not> is_power_of_2 q then rounddown_pow_of_two q else q)"
  obtains k where "k \<in> {1..<32}" "unat sz = 2 ^ k" "2 ^ k \<le> unat q" "unat q < 2 * 2 ^ k" "\<not> sz < 2" "unat (sz - 1) = 2 ^ k - 1"
proof -
  let ?k = "fls_nat (unat q) - 1"
  have "q \<noteq> 0" using assms(1) by auto
  then have sz: "unat sz = 2 ^ ?k" using rounddown_eq is_power_of_2_eq by (simp add: sz_def)
  have b: "2 ^ ?k \<le> unat q" "unat q < 2 * 2 ^ ?k"
    using fls_nat_bounds [of "unat q"] assms(1) by (simp_all flip: power_Suc)
  have "fls_nat (unat q) \<le> 31" using fls_nat_le assms(2) by blast
  moreover have "?k \<noteq> 0" using b(2) assms(1) by (metis One_nat_def mult.right_neutral not_le power_0)
  ultimately have k: "?k \<in> {1..<32}" by auto
  have "(2 :: nat) ^ 1 \<le> 2 ^ ?k" using k by (intro power_increasing) auto
  then have "2 \<le> unat sz" using sz by simp
  then have "\<not> sz < 2" "unat (sz - 1) = 2 ^ ?k - 1" using sz by (simp_all add: word_less_nat_alt unat_sub word_le_nat_alt)
  then show thesis using that [OF k sz b] by blast
qed

lemma raw_kfifo_init_eq:
  assumes "0 < unat esize" "2 \<le> unat sz div unat esize" "unat sz \<le> length buffer" "length buffer < 2 ^ 31"
  obtains f' where "raw_kfifo_init f buffer sz esize = (0, f')" "wf_kfifo f'" "kf_len f' = 0" "kfifo_bytes f' = []"
    "kf_esize f' = esize" "kf_size f' \<le> unat sz div unat esize" "unat sz div unat esize < 2 * kf_size f'"
proof -
  define q where "q = sz div esize"
  have q: "unat q = unat sz div unat esize" by (simp add: q_def unat_div)
  have "unat q \<le> unat sz" unfolding q by (rule div_le_dividend)
  then have "2 \<le> unat q" "unat q < 2 ^ 31" using assms(2-4) unfolding q by linarith+
  then obtain k where k: "k \<in> {1..<32}" "unat (if \<not> is_power_of_2 q then rounddown_pow_of_two q else q) = 2 ^ k"
    "2 ^ k \<le> unat q" "unat q < 2 * 2 ^ k" "\<not> (if \<not> is_power_of_2 q then rounddown_pow_of_two q else q) < 2"
    "unat ((if \<not> is_power_of_2 q then rounddown_pow_of_two q else q) - 1) = 2 ^ k - 1"
    by (rule pow2_size)
  define f' where "f' = f\<lparr>kf_in := 0, kf_out := 0, kf_esize := esize, kf_data := Some buffer,
      kf_mask := (if \<not> is_power_of_2 q then rounddown_pow_of_two q else q) - 1\<rparr>"
  have size: "kf_size f' = 2 ^ k" using k(6) by (simp add: kf_size_def f'_def)
  have "2 ^ k * unat esize \<le> unat q * unat esize" using k(3) by simp
  also have "\<dots> \<le> unat sz" unfolding q by (rule div_times_less_eq_dividend)
  finally have "kf_size f' * unat esize \<le> length buffer" using assms(3) size by simp
  moreover have len: "kf_len f' = 0" by (simp add: f'_def kf_len_def)
  ultimately have "wf_kfifo f'"
    unfolding wf_kfifo_def size len using k(1) size assms(1,4) by (auto simp: f'_def kf_buf_def word_less_nat_alt)
  moreover have "raw_kfifo_init f buffer sz esize = (0, f')"
    using k(5) unfolding raw_kfifo_init_def Let_def q_def [symmetric] by (simp add: f'_def)
  ultimately show thesis
    using that [of f'] len k(3,4) size q by (simp add: kfifo_bytes_def ring_read_def f'_def)
qed

lemma raw_kfifo_alloc_eq:
  assumes "0 < unat esize" "2 \<le> unat sz" "unat sz * unat esize < 2 ^ 31"
    and kmalloc: "\<And>n d. kmalloc n = Some d \<Longrightarrow> unat n \<le> length d \<and> length d < 2 ^ 31"
  shows "(\<exists>f'. raw_kfifo_alloc kmalloc f sz esize = (- ENOMEM, f') \<and> kf_data f' = None) \<or>
    (\<exists>f'. raw_kfifo_alloc kmalloc f sz esize = (0, f') \<and> wf_kfifo f' \<and> kfifo_bytes f' = [] \<and> kf_esize f' = esize \<and>
      kf_size f' \<le> unat sz \<and> unat sz < 2 * kf_size f')"
proof -
  have "unat sz \<le> unat sz * unat esize" using assms(1) by simp
  then have "unat sz < 2 ^ 31" using assms(3) by linarith
  define q where "q = (if \<not> is_power_of_2 sz then rounddown_pow_of_two sz else sz)"
  obtain k where k: "k \<in> {1..<32}" "unat q = 2 ^ k" "2 ^ k \<le> unat sz" "unat sz < 2 * 2 ^ k"
    "\<not> q < 2" "unat (q - 1) = 2 ^ k - 1"
    unfolding q_def by (rule pow2_size [OF assms(2) \<open>unat sz < 2 ^ 31\<close>])
  have bytes: "unat q * unat esize \<le> unat sz * unat esize" using k(2,3) by simp
  have "unat q * unat esize < 2 ^ 31" using bytes assms(3) by (rule le_less_trans)
  then have "unat q * unat esize < 2 ^ 32" by simp
  then have prod: "unat (q * esize) = 2 ^ k * unat esize" using unat_mult_less k(2) by simp
  show ?thesis
  proof (cases "kmalloc (q * esize)")
    case None
    then show ?thesis using k(5) unfolding raw_kfifo_alloc_def Let_def q_def [symmetric] by simp
  next
    case (Some d)
    define f' where "f' = f\<lparr>kf_in := 0, kf_out := 0, kf_esize := esize, kf_data := Some d, kf_mask := q - 1\<rparr>"
    have size: "kf_size f' = 2 ^ k" using k(6) by (simp add: kf_size_def f'_def)
    have len: "kf_len f' = 0" by (simp add: f'_def kf_len_def)
    have "wf_kfifo f'"
      unfolding wf_kfifo_def size len using k(1) kmalloc [OF Some] prod assms(1)
      by (auto simp: f'_def kf_buf_def word_less_nat_alt)
    moreover have "raw_kfifo_alloc kmalloc f sz esize = (0, f')"
      using k(5) Some unfolding raw_kfifo_alloc_def Let_def q_def [symmetric] by (simp add: f'_def)
    ultimately show ?thesis
      using len k(3,4) size by (auto simp: kfifo_bytes_def ring_read_def f'_def)
  qed
qed

subsection \<open>Properties\<close>

definition sample_fifo :: kfifo where
  "sample_fifo = \<lparr>kf_in = 1, kf_out = 0xffffffff, kf_mask = 3, kf_esize = 2, kf_data = Some [5, 6, 7, 8, 1, 2, 3, 4]\<rparr>"

definition sample_records :: kfifo where
  "sample_records = \<lparr>kf_in = 2, kf_out = 0xfffffffd, kf_mask = 7, kf_esize = 1, kf_data = Some [1, 9, 0, 0, 0, 2, 8, 1]\<rparr>"

lemma sample_fifo_wf: "wf_kfifo sample_fifo"
  by (simp add: wf_kfifo_def sample_fifo_def kf_size_def kf_len_def kf_buf_def) (rule bexI [of _ 2]; simp)

lemma sample_fifo_queue: "elem_queue 2 sample_fifo [[3, 4], [5, 6]]"
  using sample_fifo_wf
  by (simp add: elem_queue_def) (simp add: sample_fifo_def kfifo_bytes_def ring_read_def kf_size_def kf_len_def kf_buf_def upt_rec)

lemma sample_records_wf: "wf_kfifo sample_records"
  by (simp add: wf_kfifo_def sample_records_def kf_size_def kf_len_def kf_buf_def) (rule bexI [of _ 3]; simp)

lemma sample_records_queue: "rec_repr 1 sample_records [[8, 1], [9]]"
  using sample_records_wf
  by (simp add: rec_repr_def rec_queue_def rec_ok_def rec_enc_def rec_hdr_def)
     (simp add: sample_records_def kfifo_bytes_def ring_read_def kf_size_def kf_len_def kf_buf_def upt_rec)

text \<open>C7: a FIFO of elements delivers what it accepted, in order. For every sequence of
  \<open>kfifo_put\<close> and \<open>kfifo_get\<close> calls, no access leaves the buffer, and the elements that were in the
  FIFO followed by those accepted are those delivered followed by those still in it, also when the
  free-running indices pass \<open>2\<^sup>3\<^sup>2\<close>.\<close>

theorem kfifo_elements_in_order:
  assumes "elem_queue e f xs" and "\<And>x. Put x \<in> set ops \<Longrightarrow> length x = e"
  shows "\<exists>acc out f' ys. queue_run elem_put elem_get ops f = Some (acc, out, f') \<and>
    elem_queue e f' ys \<and> xs @ acc = out @ ys"
  using assms by (rule elem.run_fifo)

theorem kfifo_elements_in_order_witness:
  "\<exists>acc out f' ys. queue_run elem_put elem_get [Get, Put [7, 7], Put [8, 8], Put [9, 9], Put [1, 1], Get] sample_fifo =
    Some (acc, out, f') \<and> elem_queue 2 f' ys \<and> [[3, 4], [5, 6]] @ acc = out @ ys"
  by (rule kfifo_elements_in_order [OF sample_fifo_queue]) auto

text \<open>C9: a FIFO of records delivers whole records in order, when the records put in are not empty and fit
  the length field (at most 255 or 65535 bytes) and every read asks for the largest length: for every
  sequence of such \<open>kfifo_in\<close> and \<open>kfifo_out\<close> calls, no access leaves the buffer, and the
  records that were in the FIFO followed by those accepted are those delivered followed by those
  still in it.\<close>

theorem kfifo_records_in_order:
  assumes "rec_repr recsize f rs" and "\<And>r. Put r \<in> set ops \<Longrightarrow> rec_ok recsize r \<and> r \<noteq> []"
  shows "\<exists>acc out f' ys. queue_run (rec_put recsize) (rec_get recsize) ops f = Some (acc, out, f') \<and>
    rec_repr recsize f' ys \<and> rs @ acc = out @ ys"
  using assms by (rule recs.run_fifo)

theorem kfifo_records_in_order_witness:
  "\<exists>acc out f' ys. queue_run (rec_put 1) (rec_get 1) [Put [4, 4, 4], Get, Put [5], Get, Get] sample_records = Some (acc, out, f') \<and>
    rec_repr 1 f' ys \<and> [[8, 1], [9]] @ acc = out @ ys"
  by (rule kfifo_records_in_order [OF sample_records_queue]) (auto simp: rec_ok_def)

text \<open>C11: \<open>__kfifo_in\<close> accepts as many elements as there is room for, appends exactly these to the
  queue and keeps the invariant, without an access outside the buffer or the source.\<close>

theorem kfifo_in_appends:
  assumes "wf_kfifo f" and "min (unat len) (kf_size f - kf_len f) * unat (kf_esize f) \<le> length src"
  shows "\<exists>l f'. raw_kfifo_in f src len = Some (l, f') \<and> unat l = min (unat len) (kf_size f - kf_len f) \<and>
    wf_kfifo f' \<and> kfifo_bytes f' = kfifo_bytes f @ take (unat l * unat (kf_esize f)) src"
  using raw_kfifo_in_eq [OF assms] by blast

theorem kfifo_in_appends_witness:
  "\<exists>l f'. raw_kfifo_in sample_fifo [1, 1, 2, 2, 3, 3] 3 = Some (l, f') \<and> unat l = 2 \<and>
    wf_kfifo f' \<and> kfifo_bytes f' = [3, 4, 5, 6, 1, 1, 2, 2]"
proof -
  have s: "kf_size sample_fifo = 4" "kf_len sample_fifo = 2" "unat (kf_esize sample_fifo) = 2"
    "kfifo_bytes sample_fifo = [3, 4, 5, 6]"
    by (simp_all add: sample_fifo_def kf_size_def kf_len_def kfifo_bytes_def ring_read_def kf_buf_def upt_rec)
  show ?thesis
    using kfifo_in_appends [OF sample_fifo_wf, of 3 "[1, 1, 2, 2, 3, 3]"] by (auto simp: s)
qed

text \<open>C13: \<open>__kfifo_out\<close> delivers as many elements as are there, the oldest first, and removes
  exactly these.\<close>

theorem kfifo_out_removes:
  assumes "wf_kfifo f"
  shows "\<exists>l f'. raw_kfifo_out f len = Some (l, take (unat l * unat (kf_esize f)) (kfifo_bytes f), f') \<and>
    unat l = min (unat len) (kf_len f) \<and> wf_kfifo f' \<and> kfifo_bytes f' = drop (unat l * unat (kf_esize f)) (kfifo_bytes f)"
  using raw_kfifo_out_eq [OF assms] by blast

theorem kfifo_out_removes_witness:
  "\<exists>l f'. raw_kfifo_out sample_fifo 1 = Some (l, take (unat l * 2) (kfifo_bytes sample_fifo), f') \<and>
    unat l = min 1 (kf_len sample_fifo) \<and> wf_kfifo f' \<and> kfifo_bytes f' = drop (unat l * 2) (kfifo_bytes sample_fifo)"
  using kfifo_out_removes [OF sample_fifo_wf, of 1] by (simp add: sample_fifo_def)

text \<open>C40: the fast paths of \<open>kfifo_put\<close> and \<open>kfifo_get\<close> are the general functions called with
  one element.\<close>

theorem kfifo_fast_paths:
  assumes "wf_kfifo f" and "length val = unat (kf_esize f)"
  shows "kfifo_put 0 f val = raw_kfifo_in f val 1 \<and> kfifo_get 0 f n = raw_kfifo_out f 1"
  using raw_kfifo_in_one [OF assms] raw_kfifo_out_one [OF assms(1)] by simp

theorem kfifo_fast_paths_witness:
  "kfifo_put 0 sample_fifo [1, 2] = raw_kfifo_in sample_fifo [1, 2] 1 \<and> kfifo_get 0 sample_fifo 2 = raw_kfifo_out sample_fifo 1"
  by (rule kfifo_fast_paths [OF sample_fifo_wf]) (simp add: sample_fifo_def)

text \<open>C33: a user copy that faults part way leaves the FIFO consistent: exactly the whole elements that
  arrived are appended, and the result is \<open>-EFAULT\<close> if and only if some element did not.\<close>

theorem kfifo_from_user_partial:
  fixes f :: kfifo and user :: "u8 list" and len :: u32
  assumes "wf_kfifo f"
  defines "n \<equiv> min (unat len div unat (kf_esize f)) (kf_size f - kf_len f)"
  defines "m \<equiv> min n (length user div unat (kf_esize f))"
  shows "\<exists>copied f'. raw_kfifo_from_user f user len = Some (if m = n then 0 else - EFAULT, copied, f') \<and>
    wf_kfifo f' \<and> kfifo_bytes f' = kfifo_bytes f @ take (m * unat (kf_esize f)) user"
  using raw_kfifo_from_user_eq [OF assms(1), of user len] unfolding n_def m_def by blast

theorem kfifo_from_user_partial_witness:
  "\<exists>copied f'. raw_kfifo_from_user sample_fifo [1, 2, 3] 4 = Some (- EFAULT, copied, f') \<and>
    wf_kfifo f' \<and> kfifo_bytes f' = kfifo_bytes sample_fifo @ [1, 2]"
proof -
  have s: "kf_size sample_fifo = 4" "kf_len sample_fifo = 2" "unat (kf_esize sample_fifo) = 2"
    by (simp_all add: sample_fifo_def kf_size_def kf_len_def)
  show ?thesis
    using kfifo_from_user_partial [OF sample_fifo_wf, where len = 4 and user = "[1, 2, 3]"] by (simp add: s)
qed

text \<open>C38: a copy from user space to a FIFO of records stores one record or nothing. The record is the
  first \<open>n\<close> bytes, where \<open>n\<close> is the length asked for, cut to the largest one that the length field
  can hold (255 or 65535). Without room for it nothing happens; with a fault the call returns
  \<open>-EFAULT\<close> and the records stay what they were, although header and data were already written behind
  them; otherwise the record is appended.\<close>

theorem kfifo_from_user_record:
  fixes len :: u32 and user :: "u8 list"
  assumes "rec_queue recsize f rs"
  defines "n \<equiv> min (unat len) (if recsize = 2 then 65535 else 255)"
  shows "if kf_size f - kf_len f < n + unat recsize then kfifo_from_user recsize f user len = Some (0, 0, f)
    else if length user < n then \<exists>f'. kfifo_from_user recsize f user len = Some (- EFAULT, 0, f') \<and> rec_queue recsize f' rs
    else \<exists>f'. kfifo_from_user recsize f user len = Some (0, of_nat n, f') \<and> rec_queue recsize f' (rs @ [take n user])"
proof -
  have "recsize \<noteq> 0" using assms(1) by (auto simp: rec_queue_def)
  then show ?thesis
    using raw_kfifo_from_user_r_eq [OF assms(1), of len user] unfolding n_def by (simp add: kfifo_from_user_def)
qed

theorem kfifo_from_user_record_witness:
  "\<exists>f'. kfifo_from_user 1 sample_records [7] 2 = Some (- EFAULT, 0, f') \<and> rec_queue 1 f' [[8, 1], [9]]"
proof -
  have q: "rec_queue 1 sample_records [[8, 1], [9]]" using sample_records_queue by (simp add: rec_repr_def)
  have s: "kf_size sample_records = 8" "kf_len sample_records = 5"
    by (simp_all add: sample_records_def kf_size_def kf_len_def)
  show ?thesis using kfifo_from_user_record [OF q, where len = 2 and user = "[7]"] by (simp add: s)
qed

text \<open>\<open>kfifo_init\<close> on a buffer that holds at least two elements succeeds and makes an empty FIFO whose
  size is the largest power of two that fits. The number of elements is rounded down, where the comments of
  \<open>kfifo_init\<close> and \<open>kfifo_alloc\<close> say that it is rounded up.\<close>

lemma kfifo_init_rounds_down:
  assumes "0 < unat esize" and "2 \<le> unat sz div unat esize" and "unat sz \<le> length buffer" and "length buffer < 2 ^ 31"
  shows "\<exists>f'. kfifo_init True f buffer sz esize = (0, f') \<and> wf_kfifo f' \<and> kfifo_bytes f' = [] \<and>
    kf_size f' \<le> unat sz div unat esize \<and> unat sz div unat esize < 2 * kf_size f'"
  using raw_kfifo_init_eq [OF assms, of f] unfolding kfifo_init_def by metis

text \<open>\<open>*copied\<close> is not the number of bytes copied: with 4-byte elements, a user copy of 8 bytes of
  which 6 are accessible appends one element and reports 7 bytes.\<close>

theorem kfifo_from_user_copied_wrong:
  "\<exists>f'. kfifo_from_user 0 \<lparr>kf_in = 0, kf_out = 0, kf_mask = 1, kf_esize = 4, kf_data = Some (replicate 8 0)\<rparr>
      [1, 2, 3, 4, 5, 6] 8 = Some (- EFAULT, 7, f') \<and> kfifo_bytes f' = [1, 2, 3, 4]"
  by (rule exI [of _ "\<lparr>kf_in = 1, kf_out = 0, kf_mask = 1, kf_esize = 4, kf_data = Some [1, 2, 3, 4, 5, 6, 0, 0]\<rparr>"]) code_simp

definition long_rec_in :: "(u32 \<times> kfifo) option" where
  "long_rec_in = kfifo_in 1 \<lparr>kf_in = 0, kf_out = 0, kf_mask = 511, kf_esize = 1, kf_data = Some (replicate 512 0)\<rparr>
      (replicate 300 0) 300"

lemma long_rec_eval:
  "(case long_rec_in of None \<Rightarrow> False | Some (n, f1) \<Rightarrow> n = 300 \<and>
     (case kfifo_out 1 f1 512 of None \<Rightarrow> False | Some (l, bs, f2) \<Rightarrow> l = 44 \<and> bs = replicate 44 0 \<and>
       (case kfifo_out 1 f2 512 of None \<Rightarrow> False | Some (l, bs, f3) \<Rightarrow> l = 0 \<and> bs = [] \<and> kf_in f3 \<noteq> kf_out f3)))"
  by code_simp

text \<open>a record longer than its length field can express corrupts the FIFO: after a 300-byte record
  is accepted by a FIFO with one-byte lengths, the next two reads deliver 44 bytes and then an empty
  record.\<close>

theorem kfifo_long_record_split:
  "\<exists>f1 f2 f3. kfifo_in 1 \<lparr>kf_in = 0, kf_out = 0, kf_mask = 511, kf_esize = 1, kf_data = Some (replicate 512 0)\<rparr>
      (replicate 300 0) 300 = Some (300, f1) \<and>
    kfifo_out 1 f1 512 = Some (44, replicate 44 0, f2) \<and> kfifo_out 1 f2 512 = Some (0, [], f3) \<and> kf_in f3 \<noteq> kf_out f3"
proof -
  note eval = long_rec_eval
  obtain n f1 where 1: "long_rec_in = Some (n, f1)" using eval by (cases long_rec_in) auto
  note eval = eval [unfolded 1 option.case prod.case]
  obtain l bs f2 where 2: "kfifo_out 1 f1 512 = Some (l, bs, f2)"
    using eval by (cases "kfifo_out 1 f1 512") auto
  note eval = eval [unfolded 2 option.case prod.case]
  obtain l' bs' f3 where 3: "kfifo_out 1 f2 512 = Some (l', bs', f3)"
    using eval by (cases "kfifo_out 1 f2 512") auto
  note eval = eval [unfolded 3 option.case prod.case]
  show ?thesis using eval 1 2 3 unfolding long_rec_in_def by blast
qed

text \<open>\<open>kfifo_alloc\<close> accepts a size of 0 for 2-byte elements: \<open>rounddown_pow_of_two\<close> turns it into
  \<open>2\<^sup>3\<^sup>1\<close>, the byte count wraps to 0, and the FIFO it returns faults on the first element.\<close>

theorem kfifo_alloc_size_zero:
  "\<exists>f'. kfifo_alloc (\<lambda>n. Some (replicate (unat n) 0)) True sample_fifo 0 2 = (0, f') \<and>
    kf_mask f' = 0x7fffffff \<and> kf_data f' = Some [] \<and> kfifo_put 0 f' [1, 2] = None"
  by (rule exI [of _ "\<lparr>kf_in = 0, kf_out = 0, kf_mask = 0x7fffffff, kf_esize = 2, kf_data = Some []\<rparr>"]) code_simp

end
