(* ===== verification/Kstring.thy ===== *)
theory Kstring
  imports Kernel_Prelude
begin

text \<open>
  The string and memory functions of \<open>lib/string.c\<close> and the character classes of \<open>lib/ctype.c\<close>.

  A pointer argument is the list of the bytes from the pointer to the end of the object it points
  into, and a result pointer is an offset. Reading or writing past the end is \<open>None\<close>. A length is a
  \<open>nat\<close>, except in \<open>strncasecmp\<close>, where the code lets it wrap. The functions on two overlapping
  areas, \<open>memcpy\<close> and \<open>memmove\<close>, work on one memory with two offsets.

  \<open>cstr\<close> is the C string at a pointer. The lemmas characterise each function by it: a copy, a
  comparison or a search of \<open>cstr\<close>, defined exactly when the terminator is there.
\<close>

subsection \<open>Character classes\<close>

text \<open>The table \<open>_ctype\<close>: bits 1 upper, 2 lower, 4 digit, 8 control, 16 punctuation, 32 white space,
  64 hexadecimal digit, 128 hard space.\<close>

definition ctype :: "u8 list" where
  "ctype =
     replicate 9 8 @ replicate 5 (8 OR 32) @ replicate 18 8 @
     [32 OR 128] @ replicate 15 16 @ replicate 10 4 @ replicate 7 16 @
     replicate 6 (1 OR 64) @ replicate 20 1 @ replicate 6 16 @
     replicate 6 (2 OR 64) @ replicate 20 2 @ replicate 4 16 @ [8] @ replicate 32 0 @
     [32 OR 128] @ replicate 31 16 @ replicate 23 1 @ [16] @ replicate 7 1 @ [2] @
     replicate 23 2 @ [16] @ replicate 8 2"

definition ismask :: "u8 \<Rightarrow> u8" where
  "ismask x = ctype ! unat x"

definition isspace :: "u8 \<Rightarrow> bool" where
  "isspace c \<longleftrightarrow> ismask c AND 32 \<noteq> 0"

definition isupper :: "u8 \<Rightarrow> bool" where
  "isupper c \<longleftrightarrow> ismask c AND 1 \<noteq> 0"

definition islower :: "u8 \<Rightarrow> bool" where
  "islower c \<longleftrightarrow> ismask c AND 2 \<noteq> 0"

definition isdigit :: "u8 \<Rightarrow> bool" where
  "isdigit c \<longleftrightarrow> ismask c AND 4 \<noteq> 0"

definition isxdigit :: "u8 \<Rightarrow> bool" where
  "isxdigit c \<longleftrightarrow> ismask c AND (4 OR 64) \<noteq> 0"

definition isalnum :: "u8 \<Rightarrow> bool" where
  "isalnum c \<longleftrightarrow> ismask c AND (1 OR 2 OR 4) \<noteq> 0"

definition tolower :: "u8 \<Rightarrow> u8" where
  "tolower c = (if isupper c then c - (65 - 97) else c)"

definition toupper :: "u8 \<Rightarrow> u8" where
  "toupper c = (if islower c then c - (97 - 65) else c)"

subsection \<open>Comparing\<close>

function strnicmp :: "u8 list \<Rightarrow> u8 list \<Rightarrow> nat \<Rightarrow> int option" where
  "strnicmp s1 s2 len =
     (if len = 0 then Some 0
      else case (s1, s2) of
        (c1 # s1, c2 # s2) \<Rightarrow>
          if c1 = 0 \<or> c2 = 0 then Some (uint c1 - uint c2)
          else if c1 \<noteq> c2 \<and> tolower c1 \<noteq> tolower c2 then Some (uint (tolower c1) - uint (tolower c2))
          else strnicmp s1 s2 (len - 1)
      | _ \<Rightarrow> None)"
  by pat_completeness auto
termination by (relation "measure (\<lambda>(s1, s2, len). len)") auto

declare strnicmp.simps [simp del]

fun strcasecmp :: "u8 list \<Rightarrow> u8 list \<Rightarrow> int option" where
  "strcasecmp (x1 # s1) (x2 # s2) =
     (let c1 = tolower x1; c2 = tolower x2 in
      if c1 = c2 \<and> c1 \<noteq> 0 then strcasecmp s1 s2 else Some (uint c1 - uint c2))"
| "strcasecmp _ _ = None"

fun strncasecmp :: "u8 list \<Rightarrow> u8 list \<Rightarrow> u32 \<Rightarrow> int option" where
  "strncasecmp (x1 # s1) (x2 # s2) n =
     (let c1 = tolower x1; c2 = tolower x2; n = n - 1 in
      if n > 0 \<and> c1 = c2 \<and> c1 \<noteq> 0 then strncasecmp s1 s2 n else Some (uint c1 - uint c2))"
| "strncasecmp _ _ n = None"

fun strcmp :: "u8 list \<Rightarrow> u8 list \<Rightarrow> int option" where
  "strcmp (c1 # cs) (c2 # ct) =
     (if c1 \<noteq> c2 then Some (if c1 < c2 then - 1 else 1)
      else if c1 = 0 then Some 0 else strcmp cs ct)"
| "strcmp _ _ = None"

fun strncmp :: "u8 list \<Rightarrow> u8 list \<Rightarrow> nat \<Rightarrow> int option" where
  "strncmp cs ct 0 = Some 0"
| "strncmp (c1 # cs) (c2 # ct) (Suc count) =
     (if c1 \<noteq> c2 then Some (if c1 < c2 then - 1 else 1)
      else if c1 = 0 then Some 0 else strncmp cs ct count)"
| "strncmp _ _ _ = None"

fun memcmp :: "u8 list \<Rightarrow> u8 list \<Rightarrow> nat \<Rightarrow> int option" where
  "memcmp cs ct 0 = Some 0"
| "memcmp (c1 # cs) (c2 # ct) (Suc count) =
     (if uint c1 - uint c2 \<noteq> 0 then Some (uint c1 - uint c2) else memcmp cs ct count)"
| "memcmp _ _ _ = None"

fun sysfs_streq :: "u8 list \<Rightarrow> u8 list \<Rightarrow> bool option" where
  "sysfs_streq (c1 # s1) (c2 # s2) =
     (if c1 \<noteq> 0 \<and> c1 = c2 then sysfs_streq s1 s2
      else if c1 = c2 then Some True
      else if c1 = 0 \<and> c2 = 10 then (case s2 of [] \<Rightarrow> None | x # _ \<Rightarrow> Some (x = 0))
      else if c1 = 10 \<and> c2 = 0 then (case s1 of [] \<Rightarrow> None | x # _ \<Rightarrow> Some (x = 0))
      else Some False)"
| "sysfs_streq _ _ = None"

subsection \<open>Length and searching\<close>

fun strlen :: "u8 list \<Rightarrow> nat option" where
  "strlen [] = None"
| "strlen (c # sc) = (if c = 0 then Some 0 else map_option Suc (strlen sc))"

fun strnlen :: "u8 list \<Rightarrow> nat \<Rightarrow> nat option" where
  "strnlen s 0 = Some 0"
| "strnlen [] (Suc count) = None"
| "strnlen (c # sc) (Suc count) = (if c = 0 then Some 0 else map_option Suc (strnlen sc count))"

text \<open>A search returns \<open>Some None\<close> for NULL and otherwise the offset of the result.\<close>

fun strchr :: "u8 list \<Rightarrow> u8 \<Rightarrow> nat option option" where
  "strchr [] c = None"
| "strchr (x # s) c =
     (if x = c then Some (Some 0) else if x = 0 then Some None
      else map_option (map_option Suc) (strchr s c))"

fun strrchr_loop :: "u8 list \<Rightarrow> u8 \<Rightarrow> nat \<Rightarrow> nat option" where
  "strrchr_loop s c p =
     (if s ! p = c then Some p else if p = 0 then None else strrchr_loop s c (p - 1))"

declare strrchr_loop.simps [simp del]

definition strrchr :: "u8 list \<Rightarrow> u8 \<Rightarrow> nat option option" where
  "strrchr s c = map_option (strrchr_loop s c) (strlen s)"

fun strnchr :: "u8 list \<Rightarrow> nat \<Rightarrow> u8 \<Rightarrow> nat option option" where
  "strnchr s 0 c = Some None"
| "strnchr [] (Suc count) c = None"
| "strnchr (x # s) (Suc count) c =
     (if x = 0 then Some None else if x = c then Some (Some 0)
      else map_option (map_option Suc) (strnchr s count c))"

text \<open>The inner loops of \<open>strspn\<close>, \<open>strcspn\<close> and \<open>strpbrk\<close>: whether a character occurs in a string.\<close>

fun occurs :: "u8 \<Rightarrow> u8 list \<Rightarrow> bool option" where
  "occurs c [] = None"
| "occurs c (a # as) = (if a = 0 then Some False else if c = a then Some True else occurs c as)"

fun strspn :: "u8 list \<Rightarrow> u8 list \<Rightarrow> nat option" where
  "strspn [] accept = None"
| "strspn (p # s) accept =
     (if p = 0 then Some 0
      else case occurs p accept of
        None \<Rightarrow> None
      | Some found \<Rightarrow> if \<not> found then Some 0 else map_option Suc (strspn s accept))"

fun strcspn :: "u8 list \<Rightarrow> u8 list \<Rightarrow> nat option" where
  "strcspn [] reject = None"
| "strcspn (p # s) reject =
     (if p = 0 then Some 0
      else case occurs p reject of
        None \<Rightarrow> None
      | Some found \<Rightarrow> if found then Some 0 else map_option Suc (strcspn s reject))"

fun strpbrk :: "u8 list \<Rightarrow> u8 list \<Rightarrow> nat option option" where
  "strpbrk [] ct = None"
| "strpbrk (sc1 # cs) ct =
     (if sc1 = 0 then Some None
      else case occurs sc1 ct of
        None \<Rightarrow> None
      | Some found \<Rightarrow> if found then Some (Some 0) else map_option (map_option Suc) (strpbrk cs ct))"

fun memscan :: "u8 list \<Rightarrow> int \<Rightarrow> nat \<Rightarrow> nat option" where
  "memscan p c 0 = Some 0"
| "memscan [] c (Suc n) = None"
| "memscan (x # p) c (Suc n) = (if uint x = c then Some 0 else map_option Suc (memscan p c n))"

fun memchr :: "u8 list \<Rightarrow> u8 \<Rightarrow> nat \<Rightarrow> nat option option" where
  "memchr p c 0 = Some None"
| "memchr [] c (Suc n) = None"
| "memchr (x # p) c (Suc n) =
     (if c = x then Some (Some 0) else map_option (map_option Suc) (memchr p c n))"

text \<open>The loop shared by \<open>strstr\<close> and \<open>strnstr\<close>; \<open>l2\<close> is positive.\<close>

fun strstr_loop :: "u8 list \<Rightarrow> u8 list \<Rightarrow> nat \<Rightarrow> nat \<Rightarrow> nat option option" where
  "strstr_loop s1 s2 l2 0 = Some None"
| "strstr_loop s1 s2 l2 (Suc l1) =
     (if l2 \<le> Suc l1 then
        (case memcmp s1 s2 l2 of
           None \<Rightarrow> None
         | Some r \<Rightarrow> if r = 0 then Some (Some 0) else map_option (map_option Suc) (strstr_loop (tl s1) s2 l2 l1))
      else Some None)"

definition strstr :: "u8 list \<Rightarrow> u8 list \<Rightarrow> nat option option" where
  "strstr s1 s2 = do {
     l2 \<leftarrow> strlen s2;
     if l2 = 0 then Some (Some 0)
     else do {
       l1 \<leftarrow> strlen s1;
       strstr_loop s1 s2 l2 l1
     }
   }"

definition strnstr :: "u8 list \<Rightarrow> u8 list \<Rightarrow> nat \<Rightarrow> nat option option" where
  "strnstr s1 s2 len = do {
     l2 \<leftarrow> strlen s2;
     if l2 = 0 then Some (Some 0) else strstr_loop s1 s2 l2 len
   }"

subsection \<open>Copying\<close>

text \<open>The result is the object at \<open>dest\<close> after the call.\<close>

fun strcpy :: "u8 list \<Rightarrow> u8 list \<Rightarrow> u8 list option" where
  "strcpy (_ # dest) (c # src) = (if c = 0 then Some (c # dest) else map_option ((#) c) (strcpy dest src))"
| "strcpy _ _ = None"

fun strncpy :: "u8 list \<Rightarrow> u8 list \<Rightarrow> nat \<Rightarrow> u8 list option" where
  "strncpy tmp src 0 = Some tmp"
| "strncpy (_ # tmp) (c # src) (Suc count) =
     map_option ((#) c) (strncpy tmp (if c \<noteq> 0 then src else c # src) count)"
| "strncpy _ _ _ = None"

definition memcpy_obj :: "u8 list \<Rightarrow> u8 list \<Rightarrow> nat \<Rightarrow> u8 list option" where
  "memcpy_obj dest src n = do {
     bs \<leftarrow> mem_read src 0 n;
     mem_write dest 0 bs
   }"

definition strlcpy :: "u8 list \<Rightarrow> u8 list \<Rightarrow> nat \<Rightarrow> (nat \<times> u8 list) option" where
  "strlcpy dest src sz = do {
     ret \<leftarrow> strlen src;
     if sz \<noteq> 0 then do {
       let len = (if ret \<ge> sz then sz - 1 else ret);
       dest \<leftarrow> memcpy_obj dest src len;
       dest \<leftarrow> mem_write dest len [0];
       Some (ret, dest)
     } else Some (ret, dest)
   }"

fun strcat :: "u8 list \<Rightarrow> u8 list \<Rightarrow> u8 list option" where
  "strcat [] src = None"
| "strcat (c # dest) src = (if c \<noteq> 0 then map_option ((#) c) (strcat dest src) else strcpy (c # dest) src)"

fun strncat_copy :: "u8 list \<Rightarrow> u8 list \<Rightarrow> nat \<Rightarrow> u8 list option" where
  "strncat_copy (_ # dest) (c # src) count =
     (if c = 0 then Some (c # dest)
      else if count = 1 then (case dest of [] \<Rightarrow> None | _ # dest \<Rightarrow> Some (c # 0 # dest))
      else map_option ((#) c) (strncat_copy dest src (count - 1)))"
| "strncat_copy _ _ _ = None"

fun strncat_at :: "u8 list \<Rightarrow> u8 list \<Rightarrow> nat \<Rightarrow> u8 list option" where
  "strncat_at [] src count = None"
| "strncat_at (c # dest) src count =
     (if c \<noteq> 0 then map_option ((#) c) (strncat_at dest src count) else strncat_copy (c # dest) src count)"

definition strncat :: "u8 list \<Rightarrow> u8 list \<Rightarrow> nat \<Rightarrow> u8 list option" where
  "strncat dest src count = (if count \<noteq> 0 then strncat_at dest src count else Some dest)"

text \<open>\<open>None\<close> also stands for the \<open>BUG_ON\<close> of \<open>strlcat\<close>.\<close>

definition strlcat :: "u8 list \<Rightarrow> u8 list \<Rightarrow> nat \<Rightarrow> (nat \<times> u8 list) option" where
  "strlcat dest src count = do {
     dsize \<leftarrow> strlen dest;
     len \<leftarrow> strlen src;
     let res = dsize + len;
     if dsize \<ge> count then None
     else do {
       let count = count - dsize;
       let len = (if len \<ge> count then count - 1 else len);
       bs \<leftarrow> mem_read src 0 len;
       dest \<leftarrow> mem_write dest dsize bs;
       dest \<leftarrow> mem_write dest (dsize + len) [0];
       Some (res, dest)
     }
   }"

fun memset :: "u8 list \<Rightarrow> u8 \<Rightarrow> nat \<Rightarrow> u8 list option" where
  "memset xs c 0 = Some xs"
| "memset [] c (Suc count) = None"
| "memset (_ # xs) c (Suc count) = map_option ((#) c) (memset xs c count)"

definition move_byte :: "u8 list \<Rightarrow> nat \<Rightarrow> nat \<Rightarrow> u8 list option" where
  "move_byte m tmp s = (if tmp < length m \<and> s < length m then Some (m[tmp := m ! s]) else None)"

fun memcpy :: "u8 list \<Rightarrow> nat \<Rightarrow> nat \<Rightarrow> nat \<Rightarrow> u8 list option" where
  "memcpy m tmp s 0 = Some m"
| "memcpy m tmp s (Suc count) =
     (case move_byte m tmp s of None \<Rightarrow> None | Some m \<Rightarrow> memcpy m (tmp + 1) (s + 1) count)"

fun memmove_down :: "u8 list \<Rightarrow> nat \<Rightarrow> nat \<Rightarrow> nat \<Rightarrow> u8 list option" where
  "memmove_down m dest src 0 = Some m"
| "memmove_down m dest src (Suc count) =
     (case move_byte m (dest + count) (src + count) of
        None \<Rightarrow> None
      | Some m \<Rightarrow> memmove_down m dest src count)"

definition memmove :: "u8 list \<Rightarrow> nat \<Rightarrow> nat \<Rightarrow> nat \<Rightarrow> u8 list option" where
  "memmove m dest src count =
     (if dest \<le> src then memcpy m dest src count else memmove_down m dest src count)"

subsection \<open>Trimming and splitting\<close>

fun skip_spaces :: "u8 list \<Rightarrow> nat option" where
  "skip_spaces [] = None"
| "skip_spaces (c # str) = (if isspace c then map_option Suc (skip_spaces str) else Some 0)"

fun strim_end :: "u8 list \<Rightarrow> nat \<Rightarrow> nat" where
  "strim_end s 0 = 0"
| "strim_end s (Suc i) = (if isspace (s ! i) then strim_end s i else Suc i)"

text \<open>The results are the offset of the result pointer and the object at \<open>s\<close> after the call.\<close>

definition strim :: "u8 list \<Rightarrow> (nat \<times> u8 list) option" where
  "strim s = do {
     k \<leftarrow> skip_spaces s;
     sz \<leftarrow> strlen (drop k s);
     if sz = 0 then Some (k, s)
     else do {
       s \<leftarrow> mem_write s (k + strim_end (drop k s) sz) [0];
       Some (k, s)
     }
   }"

text \<open>\<open>*s\<close> is an offset into the object \<open>buf\<close>, \<open>None\<close> for NULL.\<close>

definition strsep :: "u8 list \<Rightarrow> nat option \<Rightarrow> u8 list \<Rightarrow> (nat option \<times> nat option \<times> u8 list) option" where
  "strsep buf s ct =
     (case s of
        None \<Rightarrow> Some (None, None, buf)
      | Some sbegin \<Rightarrow> do {
          e \<leftarrow> strpbrk (drop sbegin buf) ct;
          case e of
            None \<Rightarrow> Some (Some sbegin, None, buf)
          | Some i \<Rightarrow> Some (Some sbegin, Some (sbegin + i + 1), buf[sbegin + i := 0])
        })"

subsection \<open>C strings\<close>

definition cstr :: "u8 list \<Rightarrow> u8 list" where
  "cstr s = takeWhile (\<lambda>c. c \<noteq> 0) s"

lemma cstr_simps [simp]: "cstr [] = []" "cstr (0 # s) = []" "c \<noteq> 0 \<Longrightarrow> cstr (c # s) = c # cstr s"
  by (simp_all add: cstr_def)

lemma cstr_app: "0 \<notin> set xs \<Longrightarrow> cstr (xs @ 0 # ys) = xs"
  by (induction xs) auto

lemma cstr_split_ex: "0 \<in> set s \<Longrightarrow> \<exists>rest. s = cstr s @ 0 # rest \<and> 0 \<notin> set (cstr s)"
proof (induction s)
  case (Cons c s)
  then show ?case by (cases "c = 0") auto
qed simp

lemma cstr_split:
  assumes "0 \<in> set s"
  obtains rest where "s = cstr s @ 0 # rest" "0 \<notin> set (cstr s)"
  using cstr_split_ex [OF assms] by blast

lemma strlen_eq: "strlen s = (if 0 \<in> set s then Some (length (cstr s)) else None)"
  by (induction s) auto

lemma strlen_app [simp]: "0 \<notin> set xs \<Longrightarrow> strlen (xs @ 0 # ys) = Some (length xs)"
  by (simp add: strlen_eq cstr_app)

subsection \<open>Copying\<close>

lemma strcpy_eq: "0 \<in> set src \<Longrightarrow> length (cstr src) < length dest \<Longrightarrow>
  strcpy dest src = Some (cstr src @ 0 # drop (Suc (length (cstr src))) dest)"
proof (induction dest src rule: strcpy.induct)
  case (1 d dest c src)
  then show ?case by (cases "c = 0") auto
qed auto

lemma strncpy_eq: "0 \<in> set src \<Longrightarrow> count \<le> length dest \<Longrightarrow>
  strncpy dest src count = Some (take count (cstr src @ replicate count 0) @ drop count dest)"
proof (induction dest src count rule: strncpy.induct)
  case (2 d tmp c src count)
  then show ?case
    by (cases "c = 0") (auto simp: replicate_app_Cons_same simp flip: replicate_Suc)
qed auto

lemma strlcpy_eq:
  assumes "0 \<in> set src" "0 < sz" "sz \<le> length dest"
  shows "strlcpy dest src sz = Some (length (cstr src), take (sz - 1) (cstr src) @ 0 #
    drop (Suc (min (sz - 1) (length (cstr src)))) dest)"
proof -
  obtain rest where src: "src = cstr src @ 0 # rest" "0 \<notin> set (cstr src)" using cstr_split [OF assms(1)] by blast
  define n where "n = min (sz - 1) (length (cstr src))"
  have n: "(if length (cstr src) \<ge> sz then sz - 1 else length (cstr src)) = n" using assms(2) by (auto simp: n_def)
  have "take n src = take n (cstr src)" by (subst src(1)) (simp add: n_def)
  moreover have "n \<le> length src" by (subst src(1)) (simp add: n_def)
  moreover have nd: "n < length dest" "n \<le> length (cstr src)" using assms(2,3) by (auto simp: n_def)
  ultimately have c: "memcpy_obj dest src n = Some (take n (cstr src) @ drop n dest)"
    by (simp add: memcpy_obj_def mem_read_def mem_write_def list_put_def min_def)
  have w: "mem_write (take n (cstr src) @ drop n dest) n [0] = Some (take n (cstr src) @ 0 # drop (Suc n) dest)"
    using nd by (simp add: mem_write_def list_put_def min_def)
  have t: "take (sz - 1) (cstr src) = take n (cstr src)" by (simp add: n_def min_def)
  show ?thesis
    unfolding t n_def [symmetric] using assms(1,2) by (simp add: strlcpy_def strlen_eq n c w)
qed

lemma length_move: "move_byte m t s = Some m' \<Longrightarrow> length m' = length m"
  by (auto simp: move_byte_def split: if_splits)

lemma memcpy_eq:
  assumes "dest + count \<le> length m" "src + count \<le> length m" "dest \<le> src"
  shows "memcpy m dest src count = Some (list_put m dest (take count (drop src m)))"
  using assms
proof (induction count arbitrary: m dest src)
  case (Suc count)
  let ?m = "m[dest := m ! src]"
  have "memcpy m dest src (Suc count) = memcpy ?m (dest + 1) (src + 1) count"
    using Suc.prems by (simp add: move_byte_def)
  also have "\<dots> = Some (list_put ?m (dest + 1) (take count (drop (src + 1) ?m)))"
    using Suc.prems by (intro Suc.IH) auto
  also have "list_put ?m (dest + 1) (take count (drop (src + 1) ?m)) = list_put m dest (take (Suc count) (drop src m))"
  proof (rule nth_equalityI)
    fix i assume "i < length (list_put ?m (dest + 1) (take count (drop (src + 1) ?m)))"
    then have i: "i < length m" using Suc.prems by simp
    consider "i < dest" | "i = dest" | j where "i = Suc dest + j" "j < count" | "Suc dest + count \<le> i"
    proof (cases "Suc dest \<le> i \<and> i < Suc dest + count")
      case True
      then obtain j where "i = Suc dest + j" using le_Suc_ex by blast
      with True show thesis using that(3) by simp
    next
      case False
      then have "i < dest \<or> i = dest \<or> Suc dest + count \<le> i" by linarith
      then show thesis using that by blast
    qed
    then show "list_put ?m (dest + 1) (take count (drop (src + 1) ?m)) ! i = list_put m dest (take (Suc count) (drop src m)) ! i"
      using i Suc.prems by cases (simp_all add: nth_list_put)
  qed (use Suc.prems in simp)
  finally show ?case .
qed simp

lemma memmove_down_eq:
  assumes "dest + count \<le> length m" "src + count \<le> length m" "src < dest"
  shows "memmove_down m dest src count = Some (list_put m dest (take count (drop src m)))"
  using assms
proof (induction count arbitrary: m)
  case (Suc count)
  let ?m = "m[dest + count := m ! (src + count)]"
  have "memmove_down m dest src (Suc count) = memmove_down ?m dest src count"
    using Suc.prems by (simp add: move_byte_def)
  also have "\<dots> = Some (list_put ?m dest (take count (drop src ?m)))"
    using Suc.prems by (intro Suc.IH) auto
  also have "list_put ?m dest (take count (drop src ?m)) = list_put m dest (take (Suc count) (drop src m))"
  proof (rule nth_equalityI)
    fix i assume "i < length (list_put ?m dest (take count (drop src ?m)))"
    then have i: "i < length m" using Suc.prems by simp
    consider "i < dest" | j where "i = dest + j" "j < count" | "i = dest + count" | "dest + count < i"
    proof (cases "dest \<le> i \<and> i < dest + count")
      case True
      then obtain j where "i = dest + j" using le_Suc_ex by blast
      with True show thesis using that(2) by simp
    next
      case False
      then have "i < dest \<or> i = dest + count \<or> dest + count < i" by linarith
      then show thesis using that by blast
    qed
    then show "list_put ?m dest (take count (drop src ?m)) ! i = list_put m dest (take (Suc count) (drop src m)) ! i"
      using i Suc.prems by cases (simp_all add: nth_list_put)
  qed (use Suc.prems in simp)
  finally show ?case .
qed simp

subsection \<open>Comparing\<close>

lemma memcmp_eq:
  assumes "n \<le> length s" "n \<le> length t"
  shows "\<exists>r. memcmp s t n = Some r \<and> (r = 0 \<longleftrightarrow> take n s = take n t)"
  using assms
proof (induction s t n rule: memcmp.induct)
  case (2 c1 cs c2 ct count)
  then show ?case by (cases "c1 = c2") (auto simp: word_uint_eq_iff)
qed auto

lemma strcmp_eq:
  assumes "0 \<in> set s" "0 \<in> set t"
  shows "strcmp s t = Some (if cstr s = cstr t then 0 else if (cstr s, cstr t) \<in> lexord {(a, b). a < b} then - 1 else 1)"
  using assms
proof (induction s t rule: strcmp.induct)
  case (1 c1 cs c2 ct)
  show ?case
  proof (cases "c1 = c2")
    case True
    with 1 show ?thesis by (cases "c1 = 0") auto
  next
    case False
    consider "c1 = 0" "0 < c2" | "c2 = 0" "0 < c1" | "c1 \<noteq> 0" "c2 \<noteq> 0" using False by (metis word_gt_0)
    then show ?thesis using False by cases auto
  qed
qed auto

lemma tolower_zero [simp]: "tolower c = 0 \<longleftrightarrow> c = 0"
proof -
  have "\<not> isupper 224" "\<not> isupper 0" by code_simp+
  moreover have "c = 224" if "c + 32 = 0"
    using that by (simp add: add_eq_0_iff2)
  ultimately show ?thesis by (auto simp: tolower_def)
qed

lemma strcasecmp_zero:
  assumes "0 \<in> set s" "0 \<in> set t"
  shows "\<exists>r. strcasecmp s t = Some r \<and> (r = 0 \<longleftrightarrow> map tolower (cstr s) = map tolower (cstr t))"
  using assms
proof (induction s t rule: strcasecmp.induct)
  case (1 c1 cs c2 ct)
  show ?case
  proof (cases "tolower c1 = tolower c2 \<and> c1 \<noteq> 0")
    case True
    then have "c2 \<noteq> 0" using tolower_zero [of c1] tolower_zero [of c2] by metis
    with True 1 show ?thesis by auto
  next
    case False
    then show ?thesis using tolower_zero [of c1] tolower_zero [of c2]
      by (cases "c1 = 0"; cases "c2 = 0") (auto simp: Let_def word_uint_eq_iff [symmetric] uint_0_iff simp del: tolower_zero)
  qed
qed auto

subsection \<open>Searching\<close>

lemma strstr_loop_eq:
  assumes "0 < l2" "l2 \<le> length s2" "l1 \<le> length s1"
  shows "\<exists>r. strstr_loop s1 s2 l2 l1 = Some r \<and>
    (case r of Some i \<Rightarrow> i + l2 \<le> l1 \<and> take l2 (drop i s1) = take l2 s2 \<and> (\<forall>j < i. take l2 (drop j s1) \<noteq> take l2 s2)
     | None \<Rightarrow> \<forall>j. j + l2 \<le> l1 \<longrightarrow> take l2 (drop j s1) \<noteq> take l2 s2)"
  using assms
proof (induction s1 s2 l2 l1 rule: strstr_loop.induct)
  case (2 s1 s2 l2 l1)
  show ?case
  proof (cases "l2 \<le> Suc l1")
    case True
    then have "l2 \<le> length s1" using 2 by simp
    then obtain r where r: "memcmp s1 s2 l2 = Some r" "r = 0 \<longleftrightarrow> take l2 s1 = take l2 s2"
      using memcmp_eq 2(3) by blast
    show ?thesis
    proof (cases "r = 0")
      case True
      with \<open>l2 \<le> Suc l1\<close> r show ?thesis by simp
    next
      case False
      obtain r' where r': "strstr_loop (tl s1) s2 l2 l1 = Some r'" and
        spec: "case r' of Some i \<Rightarrow> i + l2 \<le> l1 \<and> take l2 (drop i (tl s1)) = take l2 s2 \<and> (\<forall>j < i. take l2 (drop j (tl s1)) \<noteq> take l2 s2)
          | None \<Rightarrow> \<forall>j. j + l2 \<le> l1 \<longrightarrow> take l2 (drop j (tl s1)) \<noteq> take l2 s2"
      proof -
        have "l1 \<le> length (tl s1)" using 2(4) by simp
        with "2.IH" [OF True r(1) False 2(2,3)] show thesis using that by blast
      qed
      have tl: "drop j (tl s1) = drop (Suc j) s1" for j by (simp add: drop_Suc)
      have z: "take l2 (drop 0 s1) \<noteq> take l2 s2" using r False by simp
      show ?thesis
      proof (cases r')
        case None
        have "take l2 (drop j s1) \<noteq> take l2 s2" if "j + l2 \<le> Suc l1" for j
          using that z spec None by (cases j) (auto simp: tl)
        then show ?thesis using True r(1) False r' None by auto
      next
        case (Some i)
        have "take l2 (drop j s1) \<noteq> take l2 s2" if "j < Suc i" for j
          using that z spec Some by (cases j) (auto simp: tl)
        then show ?thesis using True r(1) False r' Some spec by (auto simp: tl)
      qed
    qed
  next
    case False
    then show ?thesis by auto
  qed
qed auto

lemma occurs_eq: "0 \<in> set s \<Longrightarrow> c \<noteq> 0 \<Longrightarrow> occurs c s = Some (c \<in> set (cstr s))"
proof (induction s)
  case (Cons a s)
  then show ?case by (cases "a = 0") auto
qed simp

lemma strpbrk_eq:
  assumes "0 \<in> set ct" "0 \<in> set s"
  shows "strpbrk s ct = Some (let n = length (takeWhile (\<lambda>c. c \<notin> set (cstr ct)) (cstr s)) in
    if n < length (cstr s) then Some n else None)"
  using assms(2)
proof (induction s)
  case (Cons c s)
  then show ?case using occurs_eq [OF assms(1), of c] by (cases "c = 0") (auto simp: Let_def)
qed simp

subsection \<open>Splitting and trimming\<close>

text \<open>The pieces of a list between the elements that satisfy \<open>P\<close>, and the loop
  \<open>while ((p = strsep(&s, ct)) != NULL)\<close> that collects the tokens.\<close>

function split_at :: "('a \<Rightarrow> bool) \<Rightarrow> 'a list \<Rightarrow> 'a list list" where
  "split_at P xs = takeWhile (\<lambda>x. \<not> P x) xs #
     (case dropWhile (\<lambda>x. \<not> P x) xs of [] \<Rightarrow> [] | _ # ys \<Rightarrow> split_at P ys)"
  by pat_completeness auto
termination
proof (relation "measure (\<lambda>(P, xs). length xs)", goal_cases)
  case (2 P xs y ys)
  then show ?case using length_dropWhile_le [of "\<lambda>x. \<not> P x" xs] by (simp add: Suc_le_eq)
qed simp

declare split_at.simps [simp del]

lemma strsep_step:
  assumes ct: "0 \<in> set ct" and buf: "0 \<in> set (drop b buf)"
  defines "n \<equiv> length (takeWhile (\<lambda>c. c \<notin> set (cstr ct)) (cstr (drop b buf)))"
  shows "strsep buf (Some b) ct = Some (Some b, if n < length (cstr (drop b buf)) then (Some (b + n + 1), buf[b + n := 0]) else (None, buf))"
  unfolding strsep_def n_def using strpbrk_eq [OF ct buf] by (simp add: Let_def)

lemma strpbrk_less: "strpbrk s ct = Some (Some i) \<Longrightarrow> i < length s"
proof (induction s arbitrary: i)
  case (Cons c s)
  then show ?case by (auto split: if_splits option.splits)
qed simp

lemma strsep_decreases:
  assumes "strsep buf s ct = Some (Some b, s', buf')"
  shows "(case s' of None \<Rightarrow> 0 | Some b \<Rightarrow> Suc (length buf' - b)) < (case s of None \<Rightarrow> 0 | Some b \<Rightarrow> Suc (length buf - b))"
  using assms strpbrk_less [of "drop b buf" ct]
  by (fastforce simp: strsep_def split: option.splits Option.bind_splits)

function strsep_tokens :: "u8 list \<Rightarrow> nat option \<Rightarrow> u8 list \<Rightarrow> u8 list list option" where
  "strsep_tokens buf s ct =
     (case strsep buf s ct of
        None \<Rightarrow> None
      | Some (tok, s', buf') \<Rightarrow>
          (case tok of
             None \<Rightarrow> Some []
           | Some b \<Rightarrow> map_option ((#) (cstr (drop b buf'))) (strsep_tokens buf' s' ct)))"
  by pat_completeness auto
termination
  by (relation "measure (\<lambda>(buf, s, ct). case s of None \<Rightarrow> 0 | Some b \<Rightarrow> Suc (length buf - b))")
     (simp_all, blast dest: strsep_decreases)

declare strsep_tokens.simps [simp del]

lemma takeWhile_cstr:
  "takeWhile (\<lambda>c. c \<notin> A) (cstr s) = xs \<Longrightarrow> length xs < length (cstr s) \<Longrightarrow>
   cstr (s[length xs := 0]) = xs \<and> dropWhile (\<lambda>c. c \<notin> A) (cstr s) = cstr s ! length xs # cstr (drop (Suc (length xs)) s)"
proof (induction s arbitrary: xs)
  case (Cons c s)
  then show ?case by (cases "c = 0"; cases "c \<in> A") auto
qed simp

lemma strsep_tokens_eq:
  assumes ct: "0 \<in> set ct" and buf: "0 \<in> set (drop b buf)"
  shows "strsep_tokens buf (Some b) ct = Some (split_at (\<lambda>c. c \<in> set (cstr ct)) (cstr (drop b buf)))"
  using buf
proof (induction "length buf - b" arbitrary: buf b rule: less_induct)
  case less
  define n where "n = length (takeWhile (\<lambda>c. c \<notin> set (cstr ct)) (cstr (drop b buf)))"
  note step = strsep_step [OF ct less.prems, folded n_def]
  show ?case
  proof (cases "n < length (cstr (drop b buf))")
    case True
    note D = takeWhile_cstr [OF refl, of "set (cstr ct)" "drop b buf", folded n_def, OF True]
    have b: "b \<le> length buf" using less.prems by (cases "b \<le> length buf") auto
    have u: "drop b (buf[b + n := 0]) = (drop b buf)[n := 0]" by (simp add: drop_update_swap)
    have "length (cstr (drop b buf)) \<le> length buf - b"
      using length_takeWhile_le [of _ "drop b buf"] by (simp add: cstr_def)
    then have bn: "b + n < length buf" using True by linarith
    have rest: "drop (b + n + 1) (buf[b + n := 0]) = drop (Suc n) (drop b buf)" by (simp add: add.commute)
    obtain r where "drop b buf = cstr (drop b buf) @ 0 # r" using cstr_split [OF less.prems] by blast
    moreover have "0 \<in> set (drop (Suc n) (cstr (drop b buf) @ 0 # r))" using True by simp
    ultimately have "0 \<in> set (drop (Suc n) (drop b buf))" by simp
    then have IH: "strsep_tokens (buf[b + n := 0]) (Some (b + n + 1)) ct =
        Some (split_at (\<lambda>c. c \<in> set (cstr ct)) (cstr (drop (Suc n) (drop b buf))))"
      using less.hyps [of "buf[b + n := 0]" "b + n + 1"] bn rest by simp
    have "split_at (\<lambda>c. c \<in> set (cstr ct)) (cstr (drop b buf)) =
        cstr ((drop b buf)[n := 0]) # split_at (\<lambda>c. c \<in> set (cstr ct)) (cstr (drop (Suc n) (drop b buf)))"
      using D by (subst split_at.simps) simp
    then show ?thesis
      using step True IH u by (subst strsep_tokens.simps) simp
  next
    case False
    then have "takeWhile (\<lambda>c. c \<notin> set (cstr ct)) (cstr (drop b buf)) = cstr (drop b buf)"
      by (metis n_def length_takeWhile_le le_neq_implies_less takeWhile_eq_take take_all_iff order_refl)
    then have "split_at (\<lambda>c. c \<in> set (cstr ct)) (cstr (drop b buf)) = [cstr (drop b buf)]"
      by (subst split_at.simps) (auto simp: dropWhile_eq_Nil_conv [THEN iffD2])
    then show ?thesis using step False by (simp add: strsep_tokens.simps strsep_def)
  qed
qed

lemma not_isspace_zero [simp]: "\<not> isspace 0"
  by code_simp

lemma skip_spaces_eq: "0 \<in> set s \<Longrightarrow> skip_spaces s = Some (length (takeWhile isspace (cstr s)))"
proof (induction s)
  case (Cons c s)
  then show ?case by (cases "c = 0") auto
qed simp

lemma drop_takeWhile_cstr: "drop (length (takeWhile isspace (cstr s))) s =
  dropWhile isspace (cstr s) @ drop (length (cstr s)) s"
proof -
  have "s = cstr s @ drop (length (cstr s)) s" by (metis append_take_drop_id cstr_def takeWhile_eq_take)
  then have "drop (length (takeWhile isspace (cstr s))) s =
      drop (length (takeWhile isspace (cstr s))) (cstr s @ drop (length (cstr s)) s)" by simp
  also have "\<dots> = dropWhile isspace (cstr s) @ drop (length (cstr s)) s"
    using length_takeWhile_le [of isspace "cstr s"] by (simp add: dropWhile_eq_drop)
  finally show ?thesis .
qed

lemma strim_end_eq: "n \<le> length s \<Longrightarrow> strim_end s n = length (dropWhile isspace (rev (take n s)))"
proof (induction n)
  case (Suc n)
  then show ?case by (auto simp: take_Suc_conv_app_nth)
qed simp

lemma strim_eq:
  assumes "0 \<in> set s"
  shows "\<exists>k s'. strim s = Some (k, s') \<and> length s' = length s \<and>
    cstr (drop k s') = rev (dropWhile isspace (rev (dropWhile isspace (cstr s))))"
proof -
  define w where "w = dropWhile isspace (cstr s)"
  define k where "k = length (takeWhile isspace (cstr s))"
  obtain r where r: "s = cstr s @ 0 # r" "0 \<notin> set (cstr s)" using cstr_split [OF assms] by blast
  have "drop (length (cstr s)) s = 0 # r" by (subst r(1)) simp
  then have dk: "drop k s = w @ 0 # r" using drop_takeWhile_cstr [of s] by (simp add: k_def w_def)
  have w0: "0 \<notin> set w" using r(2) set_dropWhileD [of 0 isspace "cstr s"] by (auto simp: w_def)
  have len: "strlen (drop k s) = Some (length w)" using dk w0 by simp
  define e where "e = length (dropWhile isspace (rev w))"
  have e: "strim_end (drop k s) (length w) = e" unfolding dk by (simp add: strim_end_eq e_def)
  have ew: "e \<le> length w" using length_dropWhile_le [of isspace "rev w"] by (simp add: e_def)
  have kl: "k + length w < length s" using arg_cong [OF dk, of length] by simp
  have te: "take e w = rev (dropWhile isspace (rev w))"
    by (simp add: e_def dropWhile_eq_drop rev_drop)
  show ?thesis
  proof (cases "w = []")
    case True
    then show ?thesis
      using skip_spaces_eq [OF assms] len dk unfolding strim_def by (simp add: k_def [symmetric] w_def [symmetric])
  next
    case False
    have wr: "mem_write s (k + e) [0] = Some (s[k + e := 0])"
      using ew kl by (simp add: mem_write_def list_put_def upd_conv_take_nth_drop)
    have "drop k (s[k + e := 0]) = (w @ 0 # r)[e := 0]" using dk by (simp add: drop_update_swap)
    also have "\<dots> = take e w @ 0 # drop (Suc e) (w @ 0 # r)"
      using ew by (simp add: upd_conv_take_nth_drop)
    finally have "cstr (drop k (s[k + e := 0])) = take e w"
      using cstr_app w0 by (metis in_set_takeD)
    then show ?thesis
      using False skip_spaces_eq [OF assms] len e wr te unfolding strim_def by (simp add: k_def [symmetric] w_def [symmetric])
  qed
qed

lemma take_drop_append: "j + n \<le> length xs \<Longrightarrow> take n (drop j (xs @ ys)) = take n (drop j xs)"
  by simp

subsection \<open>Properties\<close>

text \<open>\<open>strlcpy\<close> always leaves a terminated string that fits: for a buffer of \<open>size > 0\<close> bytes it
  writes the first \<open>size - 1\<close> characters of the source at most, then the terminator, touches
  nothing behind it, and returns the length of the source.\<close>

theorem strlcpy_terminates:
  assumes "0 \<in> set src" and "0 < sz" and "sz \<le> length dest"
  shows "strlcpy dest src sz = Some (length (cstr src), take (sz - 1) (cstr src) @ 0 #
    drop (Suc (min (sz - 1) (length (cstr src)))) dest)"
  using assms by (rule strlcpy_eq)

theorem strlcpy_terminates_witness: "strlcpy [9, 9, 9, 9] [1, 2, 3, 0] 3 = Some (3, [1, 2, 0, 9])"
  using strlcpy_terminates [of "[1, 2, 3, 0]" 3 "[9, 9, 9, 9]"] by simp

text \<open>\<open>memmove\<close> copes with overlapping areas: it copies the bytes the source area had before the
  call, whichever way the areas overlap, and changes nothing else.\<close>

theorem memmove_overlap:
  assumes "dest + count \<le> length m" and "src + count \<le> length m"
  shows "memmove m dest src count = Some (list_put m dest (take count (drop src m)))"
  using memcpy_eq [OF assms] memmove_down_eq [OF assms] by (simp add: memmove_def)

theorem memmove_overlap_witness: "memmove [1, 2, 3, 4, 5] 1 0 4 = Some [1, 1, 2, 3, 4]"
  using memmove_overlap [of 1 4 "[1, 2, 3, 4, 5]" 0] by (simp add: list_put_def)

text \<open>\<open>strstr\<close> returns the first occurrence of the second string in the first, and NULL exactly
  if there is none.\<close>

theorem strstr_first:
  assumes "0 \<in> set s1" and "0 \<in> set s2"
  shows "\<exists>r. strstr s1 s2 = Some r \<and>
    (case r of
       Some i \<Rightarrow> take (length (cstr s2)) (drop i (cstr s1)) = cstr s2 \<and>
         (\<forall>j < i. take (length (cstr s2)) (drop j (cstr s1)) \<noteq> cstr s2)
     | None \<Rightarrow> \<forall>j. take (length (cstr s2)) (drop j (cstr s1)) \<noteq> cstr s2)"
proof (cases "cstr s2 = []")
  case True
  then show ?thesis using assms by (auto simp: strstr_def strlen_eq)
next
  case False
  define l1 l2 where "l1 = length (cstr s1)" and "l2 = length (cstr s2)"
  obtain r1 where s1: "s1 = cstr s1 @ 0 # r1" by (rule cstr_split [OF assms(1)])
  obtain r2 where s2: "s2 = cstr s2 @ 0 # r2" by (rule cstr_split [OF assms(2)])
  note s = s1 s2
  have l: "0 < l2" "l2 \<le> length s2" "l1 \<le> length s1"
    using False arg_cong [OF s(1), of length] arg_cong [OF s(2), of length] by (simp_all add: l1_def l2_def)
  obtain r where r: "strstr_loop s1 s2 l2 l1 = Some r" and
    spec: "case r of Some i \<Rightarrow> i + l2 \<le> l1 \<and> take l2 (drop i s1) = take l2 s2 \<and> (\<forall>j < i. take l2 (drop j s1) \<noteq> take l2 s2)
      | None \<Rightarrow> \<forall>j. j + l2 \<le> l1 \<longrightarrow> take l2 (drop j s1) \<noteq> take l2 s2"
    using strstr_loop_eq [OF l] by blast
  have t2: "take l2 s2 = cstr s2" by (subst s(2)) (simp add: l2_def)
  have t1: "take l2 (drop j s1) = take l2 (drop j (cstr s1))" if "j + l2 \<le> l1" for j
    using take_drop_append [of j l2 "cstr s1" "0 # r1"] that unfolding s(1) [symmetric] by (simp add: l1_def)
  have far: "take l2 (drop j (cstr s1)) \<noteq> cstr s2" if "\<not> j + l2 \<le> l1" for j
  proof
    assume "take l2 (drop j (cstr s1)) = cstr s2"
    then have "length (take l2 (drop j (cstr s1))) = l2" by (simp add: l2_def)
    then show False using that l(1) by (auto simp: l1_def)
  qed
  have "strstr s1 s2 = Some r" using r l(1) assms by (simp add: strstr_def strlen_eq l1_def l2_def)
  moreover have "case r of Some i \<Rightarrow> take l2 (drop i (cstr s1)) = cstr s2 \<and> (\<forall>j < i. take l2 (drop j (cstr s1)) \<noteq> cstr s2)
     | None \<Rightarrow> \<forall>j. take l2 (drop j (cstr s1)) \<noteq> cstr s2"
  proof (cases r)
    case None
    have "take l2 (drop j (cstr s1)) \<noteq> cstr s2" for j
      using spec t1 [of j] far [of j] None unfolding t2 by (cases "j + l2 \<le> l1") (simp, metis, simp)
    then show ?thesis by (simp add: None)
  next
    case (Some i)
    have "take l2 (drop j (cstr s1)) \<noteq> cstr s2" if "j < i" for j
      using spec t1 [of j] that Some unfolding t2 by (simp, metis)
    then show ?thesis using spec t1 [of i] unfolding t2 by (simp add: Some)
  qed
  ultimately show ?thesis unfolding l2_def by blast
qed

theorem strstr_first_witness:
  "\<exists>r. strstr [1, 2, 1, 2, 3, 0] [1, 2, 3, 0] = Some r \<and>
    (case r of
       Some i \<Rightarrow> take 3 (drop i [1, 2, 1, 2, 3]) = [1, 2, 3 :: u8] \<and> (\<forall>j < i. take 3 (drop j [1, 2, 1, 2, 3]) \<noteq> [1, 2, 3 :: u8])
     | None \<Rightarrow> \<forall>j. take 3 (drop j [1, 2, 1, 2, 3]) \<noteq> [1, 2, 3 :: u8])"
proof -
  have c: "cstr [1, 2, 1, 2, 3, 0] = [1, 2, 1, 2, 3]" "cstr [1, 2, 3, 0] = [1, 2, 3]" "length [1, 2, 3 :: u8] = 3"
    by simp_all
  show ?thesis using strstr_first [of "[1, 2, 1, 2, 3, 0]" "[1, 2, 3, 0]"] unfolding c by simp
qed

text \<open>the loop over \<open>strsep\<close> delivers exactly the pieces of the string between the separators,
  empty ones included, and ends.\<close>

theorem strsep_splits:
  assumes "0 \<in> set ct" and "0 \<in> set buf"
  shows "strsep_tokens buf (Some 0) ct = Some (split_at (\<lambda>c. c \<in> set (cstr ct)) (cstr buf))"
  using strsep_tokens_eq [of ct 0 buf] assms by simp

theorem strsep_splits_witness:
  "strsep_tokens [1, 7, 7, 2, 3, 0] (Some 0) [7, 0] = Some (split_at (\<lambda>c. c \<in> set (cstr [7, 0])) [1, 7, 7, 2, 3])"
  using strsep_splits [of "[7, 0]" "[1, 7, 7, 2, 3, 0]"] by simp

text \<open>\<open>strcmp\<close> decides the lexicographic order of the strings by unsigned characters.\<close>

theorem strcmp_lexicographic:
  assumes "0 \<in> set s" and "0 \<in> set t"
  shows "strcmp s t = Some (if cstr s = cstr t then 0 else if (cstr s, cstr t) \<in> lexord {(a, b). a < b} then - 1 else 1)"
  using assms by (rule strcmp_eq)

theorem strcmp_lexicographic_witness:
  "strcmp [1, 200, 0] [1, 100, 3, 0] = Some (if [1, 200 :: u8] = [1, 100, 3] then 0
    else if ([1, 200 :: u8], [1, 100, 3]) \<in> lexord {(a, b). a < b} then - 1 else 1)"
  using strcmp_lexicographic [of "[1, 200, 0]" "[1, 100, 3, 0]"] by simp

text \<open>\<open>strim\<close> leaves the string without its leading and trailing white space.\<close>

theorem strim_trims:
  assumes "0 \<in> set s"
  shows "\<exists>k s'. strim s = Some (k, s') \<and> length s' = length s \<and>
    cstr (drop k s') = rev (dropWhile isspace (rev (dropWhile isspace (cstr s))))"
  using assms by (rule strim_eq)

theorem strim_trims_witness:
  "\<exists>k s'. strim [32, 65, 32, 66, 10, 0] = Some (k, s') \<and> length s' = length [32, 65, 32, 66, 10, 0 :: u8] \<and>
    cstr (drop k s') = [65, 32, 66]"
proof -
  have "isspace 32" "\<not> isspace 65" "\<not> isspace 66" "isspace 10" by code_simp+
  then show ?thesis using strim_trims [of "[32, 65, 32, 66, 10, 0]"] by simp
qed

text \<open>\<open>strncasecmp\<close> with a length of 0 compares the whole strings: the length wraps around before it is
  tested. Two strings that differ only in their second character are told apart.\<close>

theorem strncasecmp_length_zero: "strncasecmp [65, 66, 0] [97, 67, 0] 0 = Some (- 1)"
  by code_simp

end
