(* ===== verification/Kstrtox.thy ===== *)
theory Kstrtox
  imports Kstring
begin

text \<open>
  Conversion of text to numbers: the checking conversions of \<open>lib/kstrtox.c\<close> and the
  \<open>simple_strto*\<close> family of \<open>lib/vsprintf.c\<close>. A string is the list of the bytes from the
  pointer on; a read past its end is \<open>None\<close>. The checking conversions return the error number
  or the value they store in \<open>*res\<close>, the others the value and the offset they store in \<open>*endp\<close>.

  \<open>numeral_of\<close> is the specification: the value of a text as a numeral in a base.
\<close>

subsection \<open>Checking conversions\<close>

definition to_lower :: "u8 \<Rightarrow> u8" where
  "to_lower c = c OR 0x20"

fun kstrtoull_loop :: "u8 list \<Rightarrow> u32 \<Rightarrow> u64 \<Rightarrow> bool \<Rightarrow> (errno + u64) option" where
  "kstrtoull_loop [] base acc ok = None"
| "kstrtoull_loop (c # s) base acc ok =
     (if c = 0 then Some (if ok then Inr acc else Inl EINVAL)
      else
        let digit = (\<lambda>val :: u32.
              if base \<le> val then Some (Inl EINVAL)
              else if acc > (0xffffffffffffffff - ucast val) div ucast base then Some (Inl ERANGE)
              else kstrtoull_loop s base (acc * ucast base + ucast val) True)
        in
          if 48 \<le> c \<and> c \<le> 57 then digit (ucast (c - 48))
          else if 97 \<le> to_lower c \<and> to_lower c \<le> 102 then digit (ucast (to_lower c - 97) + 10)
          else if c = 10 then
            (case s of [] \<Rightarrow> None
             | d # _ \<Rightarrow> Some (if d = 0 then if ok then Inr acc else Inl EINVAL else Inl EINVAL))
          else Some (Inl EINVAL))"

text \<open>The choice of the base, common to both families.\<close>

definition simple_guess_base :: "u8 list \<Rightarrow> u32 option" where
  "simple_guess_base cp =
     do { c0 \<leftarrow> arr_get cp 0;
          if c0 = 48
          then do { c1 \<leftarrow> arr_get cp 1;
                    if to_lower c1 = 120 then do { c2 \<leftarrow> arr_get cp 2; Some (if isxdigit c2 then 16 else 8) }
                    else Some 8 }
          else Some 10 }"

definition skip_prefix :: "u32 \<Rightarrow> u8 list \<Rightarrow> nat option" where
  "skip_prefix base s =
     (if base = 16
      then do { c0 \<leftarrow> arr_get s 0;
                if c0 = 48 then do { c1 \<leftarrow> arr_get s 1; Some (if to_lower c1 = 120 then 2 else 0) } else Some 0 }
      else Some 0)"

definition do_kstrtoull :: "u8 list \<Rightarrow> u32 \<Rightarrow> (errno + u64) option" where
  "do_kstrtoull s base =
     do { base \<leftarrow> if base = 0 then simple_guess_base s else Some base;
          n \<leftarrow> skip_prefix base s;
          kstrtoull_loop (drop n s) base 0 False }"

definition kstrtoull :: "u8 list \<Rightarrow> u32 \<Rightarrow> (errno + u64) option" where
  "kstrtoull s base = do { c \<leftarrow> arr_get s 0; do_kstrtoull (if c = 43 then drop 1 s else s) base }"

text \<open>The result of \<open>kstrtoll\<close> is a \<open>long long\<close>, read by \<open>sint\<close>.\<close>

definition kstrtoll :: "u8 list \<Rightarrow> u32 \<Rightarrow> (errno + u64) option" where
  "kstrtoll s base =
     do { c \<leftarrow> arr_get s 0;
          if c = 45
          then do { rv \<leftarrow> do_kstrtoull (drop 1 s) base;
                    Some (case rv of Inl e \<Rightarrow> Inl e | Inr tmp \<Rightarrow> if 0 \<le> sint (- tmp) then Inl ERANGE else Inr (- tmp)) }
          else do { rv \<leftarrow> kstrtoull s base;
                    Some (case rv of Inl e \<Rightarrow> Inl e | Inr tmp \<Rightarrow> if sint tmp < 0 then Inl ERANGE else Inr tmp) } }"

definition do_kstrtoul :: "u8 list \<Rightarrow> u32 \<Rightarrow> (errno + u32) option" where
  "do_kstrtoul s base =
     do { rv \<leftarrow> kstrtoull s base;
          Some (case rv of Inl e \<Rightarrow> Inl e | Inr tmp \<Rightarrow> if tmp \<noteq> ucast (ucast tmp :: u32) then Inl ERANGE else Inr (ucast tmp)) }"

definition do_kstrtol :: "u8 list \<Rightarrow> u32 \<Rightarrow> (errno + u32) option" where
  "do_kstrtol s base =
     do { rv \<leftarrow> kstrtoll s base;
          Some (case rv of Inl e \<Rightarrow> Inl e | Inr tmp \<Rightarrow> if tmp \<noteq> scast (ucast tmp :: u32) then Inl ERANGE else Inr (ucast tmp)) }"

definition kstrtouint :: "u8 list \<Rightarrow> u32 \<Rightarrow> (errno + u32) option" where
  "kstrtouint s base =
     do { rv \<leftarrow> kstrtoull s base;
          Some (case rv of Inl e \<Rightarrow> Inl e | Inr tmp \<Rightarrow> if tmp \<noteq> ucast (ucast tmp :: u32) then Inl ERANGE else Inr (ucast tmp)) }"

definition kstrtoint :: "u8 list \<Rightarrow> u32 \<Rightarrow> (errno + u32) option" where
  "kstrtoint s base =
     do { rv \<leftarrow> kstrtoll s base;
          Some (case rv of Inl e \<Rightarrow> Inl e | Inr tmp \<Rightarrow> if tmp \<noteq> scast (ucast tmp :: u32) then Inl ERANGE else Inr (ucast tmp)) }"

definition kstrtou16 :: "u8 list \<Rightarrow> u32 \<Rightarrow> (errno + u16) option" where
  "kstrtou16 s base =
     do { rv \<leftarrow> kstrtoull s base;
          Some (case rv of Inl e \<Rightarrow> Inl e | Inr tmp \<Rightarrow> if tmp \<noteq> ucast (ucast tmp :: u16) then Inl ERANGE else Inr (ucast tmp)) }"

definition kstrtos16 :: "u8 list \<Rightarrow> u32 \<Rightarrow> (errno + u16) option" where
  "kstrtos16 s base =
     do { rv \<leftarrow> kstrtoll s base;
          Some (case rv of Inl e \<Rightarrow> Inl e | Inr tmp \<Rightarrow> if tmp \<noteq> scast (ucast tmp :: u16) then Inl ERANGE else Inr (ucast tmp)) }"

definition kstrtou8 :: "u8 list \<Rightarrow> u32 \<Rightarrow> (errno + u8) option" where
  "kstrtou8 s base =
     do { rv \<leftarrow> kstrtoull s base;
          Some (case rv of Inl e \<Rightarrow> Inl e | Inr tmp \<Rightarrow> if tmp \<noteq> ucast (ucast tmp :: u8) then Inl ERANGE else Inr (ucast tmp)) }"

definition kstrtos8 :: "u8 list \<Rightarrow> u32 \<Rightarrow> (errno + u8) option" where
  "kstrtos8 s base =
     do { rv \<leftarrow> kstrtoll s base;
          Some (case rv of Inl e \<Rightarrow> Inl e | Inr tmp \<Rightarrow> if tmp \<noteq> scast (ucast tmp :: u8) then Inl ERANGE else Inr (ucast tmp)) }"

subsection \<open>Conversions that stop at the first other character\<close>

fun strtoull_loop :: "u8 list \<Rightarrow> u32 \<Rightarrow> u64 \<Rightarrow> nat \<Rightarrow> (u64 \<times> nat) option" where
  "strtoull_loop [] base result pos = None"
| "strtoull_loop (c # cp) base result pos =
     (if isxdigit c
      then let val = (if isdigit c then ucast (c - 48) else ucast (to_lower c - 97) + 10) in
           if base \<le> val then Some (result, pos)
           else strtoull_loop cp base (result * ucast base + ucast val) (pos + 1)
      else Some (result, pos))"

definition simple_strtoull :: "u8 list \<Rightarrow> u32 \<Rightarrow> (u64 \<times> nat) option" where
  "simple_strtoull cp base =
     do { base \<leftarrow> if base = 0 then simple_guess_base cp else Some base;
          n \<leftarrow> skip_prefix base cp;
          strtoull_loop (drop n cp) base 0 n }"

definition simple_strtoul :: "u8 list \<Rightarrow> u32 \<Rightarrow> (u32 \<times> nat) option" where
  "simple_strtoul cp base = do { (r, e) \<leftarrow> simple_strtoull cp base; Some (ucast r, e) }"

definition simple_strtol :: "u8 list \<Rightarrow> u32 \<Rightarrow> (u32 \<times> nat) option" where
  "simple_strtol cp base =
     do { c \<leftarrow> arr_get cp 0;
          if c = 45 then do { (r, e) \<leftarrow> simple_strtoul (drop 1 cp) base; Some (- r, e + 1) }
          else simple_strtoul cp base }"

definition simple_strtoll :: "u8 list \<Rightarrow> u32 \<Rightarrow> (u64 \<times> nat) option" where
  "simple_strtoll cp base =
     do { c \<leftarrow> arr_get cp 0;
          if c = 45 then do { (r, e) \<leftarrow> simple_strtoull (drop 1 cp) base; Some (- r, e + 1) }
          else simple_strtoull cp base }"

subsection \<open>Numerals\<close>

definition digit_of :: "u8 \<Rightarrow> nat option" where
  "digit_of c =
     (if 48 \<le> c \<and> c \<le> 57 then Some (unat c - 48)
      else if 97 \<le> c \<and> c \<le> 102 then Some (unat c - 87)
      else if 65 \<le> c \<and> c \<le> 70 then Some (unat c - 55)
      else None)"

definition is_digit :: "nat \<Rightarrow> u8 \<Rightarrow> bool" where
  "is_digit base c \<longleftrightarrow> (case digit_of c of None \<Rightarrow> False | Some d \<Rightarrow> d < base)"

definition add_digit :: "nat \<Rightarrow> nat \<Rightarrow> u8 \<Rightarrow> nat" where
  "add_digit base a c = a * base + the (digit_of c)"

definition numeral_of :: "nat \<Rightarrow> u8 list \<Rightarrow> nat option" where
  "numeral_of base cs =
     (if cs \<noteq> [] \<and> list_all (is_digit base) cs then Some (foldl (add_digit base) 0 cs) else None)"

lemma all_u8:
  assumes "\<forall>n \<in> set [0..255]. P (word_of_int n :: u8)"
  shows "P c"
proof -
  have "uint c \<in> set [0..255]"
    using uint_bounded [of c] by simp
  from bspec [OF assms this] show ?thesis
    by simp
qed

lemma u8_classes:
  "isxdigit c \<longleftrightarrow> digit_of c \<noteq> None"
  "isdigit c \<longleftrightarrow> 48 \<le> c \<and> c \<le> 57"
  "97 \<le> to_lower c \<and> to_lower c \<le> 102 \<longleftrightarrow> (97 \<le> c \<and> c \<le> 102) \<or> (65 \<le> c \<and> c \<le> 70)"
  by (rule all_u8 [where c = c], code_simp)+

lemma digit_value:
  "digit_of c = Some d \<Longrightarrow> (if 48 \<le> c \<and> c \<le> 57 then ucast (c - 48) else ucast (to_lower c - 97) + 10 :: u32) = of_nat d \<and> d < 16"
proof -
  have "case digit_of c of None \<Rightarrow> True | Some d \<Rightarrow>
    (if 48 \<le> c \<and> c \<le> 57 then ucast (c - 48) else ucast (to_lower c - 97) + 10 :: u32) = of_nat d \<and> d < 16"
    by (rule all_u8 [where c = c]) code_simp
  then show "digit_of c = Some d \<Longrightarrow> ?thesis"
    by simp
qed

lemma is_digit_less: "is_digit b c \<Longrightarrow> the (digit_of c) < b"
  by (auto simp: is_digit_def split: option.splits)

lemma digit_step:
  assumes "is_digit (unat base) c"
  shows "kstrtoull_loop (c # s) base acc ok =
    (if unat acc * unat base + the (digit_of c) < 2 ^ 64
     then kstrtoull_loop s base (of_nat (unat acc * unat base + the (digit_of c))) True
     else Some (Inl ERANGE))"
proof -
  obtain d where d: "digit_of c = Some d" "d < unat base"
    using assms by (auto simp: is_digit_def split: option.splits)
  define v :: u32 where "v = of_nat d"
  have v: "(if 48 \<le> c \<and> c \<le> 57 then ucast (c - 48) else ucast (to_lower c - 97) + 10) = v" and "d < 16"
    using digit_value [OF d(1)] by (simp_all add: v_def)
  have "c \<noteq> 0"
    using d(1) by (auto simp: digit_of_def)
  have uv: "unat v = d"
    using \<open>d < 16\<close> by (simp add: v_def unat_of_nat)
  have "kstrtoull_loop (c # s) base acc ok =
    (if base \<le> v then Some (Inl EINVAL)
     else if acc > (0xffffffffffffffff - ucast v) div ucast base then Some (Inl ERANGE)
     else kstrtoull_loop s base (acc * ucast base + ucast v) True)"
  proof (cases "48 \<le> c \<and> c \<le> 57")
    case True
    then have "ucast (c - 48) = v"
      using v by simp
    then show ?thesis
      using True \<open>c \<noteq> 0\<close> by (simp add: Let_def)
  next
    case False
    then have "97 \<le> to_lower c \<and> to_lower c \<le> 102" "ucast (to_lower c - 97) + 10 = v"
      using v d(1) u8_classes(3) [of c] by (auto simp: digit_of_def split: if_splits)
    then show ?thesis
      using False \<open>c \<noteq> 0\<close> by (auto simp: Let_def)
  qed
  moreover have "\<not> base \<le> v"
    using d(2) uv by (simp add: word_le_nat_alt)
  moreover have "acc > (0xffffffffffffffff - ucast v) div ucast base \<longleftrightarrow> \<not> unat acc * unat base + d < 2 ^ 64"
  proof -
    have "unat (0xffffffffffffffff - ucast v :: u64) = 18446744073709551615 - d"
      using \<open>d < 16\<close> uv by (subst unat_sub) (simp_all add: word_le_nat_alt unat_ucast_up)
    then have "unat ((0xffffffffffffffff - ucast v) div ucast base :: u64) = (18446744073709551615 - d) div unat base"
      by (simp add: unat_div_distrib unat_ucast_up)
    then show ?thesis
      using d(2) \<open>d < 16\<close> by (auto simp: word_less_nat_alt div_less_iff_less_mult)
  qed
  moreover have "acc * ucast base + ucast v = of_nat (unat acc * unat base + d)"
    by (simp flip: uv)
  ultimately show ?thesis
    using d(1) by simp
qed


lemma foldl_add_digit_mono: "0 < b \<Longrightarrow> a \<le> foldl (add_digit b) a cs"
proof (induction cs arbitrary: a)
  case (Cons c cs)
  have "a \<le> add_digit b a c"
    using Cons.prems by (simp add: add_digit_def trans_le_add1)
  then show ?case
    using Cons.IH [OF Cons.prems, of "add_digit b a c"] by simp
qed simp

lemma kstrtoull_loop_digits:
  "list_all (is_digit (unat base)) ds \<Longrightarrow>
   kstrtoull_loop (ds @ s) base acc ok =
     (let v = foldl (add_digit (unat base)) (unat acc) ds in
      if v < 2 ^ 64 then kstrtoull_loop s base (of_nat v) (ok \<or> ds \<noteq> []) else Some (Inl ERANGE))"
proof (induction ds arbitrary: acc ok)
  case Nil
  then show ?case
    using unsigned_less [of acc, where 'a = nat] by simp
next
  case (Cons c ds)
  define a where "a = add_digit (unat base) (unat acc) c"
  have c: "is_digit (unat base) c" and ds: "list_all (is_digit (unat base)) ds"
    using Cons.prems by simp_all
  have "0 < unat base"
    using is_digit_less [OF c] by simp
  then have mono: "a \<le> foldl (add_digit (unat base)) a ds"
    by (rule foldl_add_digit_mono)
  have step: "kstrtoull_loop ((c # ds) @ s) base acc ok =
    (if a < 2 ^ 64 then kstrtoull_loop (ds @ s) base (of_nat a) True else Some (Inl ERANGE))"
    using digit_step [OF c, of "ds @ s" acc ok] by (simp add: a_def add_digit_def del: kstrtoull_loop.simps)
  show ?case
  proof (cases "a < 2 ^ 64")
    case True
    then have "unat (of_nat a :: u64) = a"
      by (simp add: unat_of_nat)
    then show ?thesis
      using Cons.IH [OF ds, of "of_nat a" True] True step by (simp add: a_def Let_def del: kstrtoull_loop.simps)
  next
    case False
    then show ?thesis
      using mono step by (simp add: a_def Let_def del: kstrtoull_loop.simps)
  qed
qed

text \<open>The text of a numeral, without the line feed that may end it.\<close>

definition chomp :: "u8 list \<Rightarrow> u8 list" where
  "chomp cs = (if cs \<noteq> [] \<and> last cs = 10 then butlast cs else cs)"

lemma chomp_Cons: "c \<noteq> 10 \<Longrightarrow> chomp (c # cs) = c # chomp cs"
  by (simp add: chomp_def)

lemma other_step:
  assumes "\<not> is_digit (unat base) c" "c \<noteq> 0"
  shows "kstrtoull_loop (c # s) base acc ok =
    (if c = 10 then case s of [] \<Rightarrow> None | d # _ \<Rightarrow> Some (if d = 0 then if ok then Inr acc else Inl EINVAL else Inl EINVAL)
     else Some (Inl EINVAL))"
proof (cases "digit_of c")
  case None
  then show ?thesis
    using assms(2) u8_classes(3) [of c] by (auto simp: Let_def digit_of_def split: if_splits)
next
  case (Some d)
  then have d: "(if 48 \<le> c \<and> c \<le> 57 then ucast (c - 48) else ucast (to_lower c - 97) + 10 :: u32) = of_nat d" "d < 16"
    using digit_value by auto
  then have "base \<le> of_nat d"
    using assms(1) Some by (simp add: is_digit_def word_le_nat_alt unat_of_nat)
  moreover have "c \<noteq> 10" "\<not> (48 \<le> c \<and> c \<le> 57) \<Longrightarrow> 97 \<le> to_lower c \<and> to_lower c \<le> 102"
    using Some u8_classes(3) [of c] by (auto simp: digit_of_def split: if_splits)
  ultimately show ?thesis
    using d(1) assms(2) by (auto simp: Let_def split: if_splits)
qed

lemma kstrtoull_loop_other:
  "0 \<notin> set cs \<Longrightarrow> \<not> (list_all (is_digit (unat base)) (chomp cs) \<and> (ok \<or> chomp cs \<noteq> [])) \<Longrightarrow>
   kstrtoull_loop (cs @ 0 # rest) base acc ok \<in> {Some (Inl EINVAL), Some (Inl ERANGE)}"
proof (induction cs arbitrary: acc ok)
  case Nil
  then show ?case
    by (simp add: chomp_def)
next
  case (Cons c cs)
  show ?case
  proof (cases "is_digit (unat base) c")
    case True
    then have "c \<noteq> 10"
      by (auto simp: is_digit_def digit_of_def)
    then show ?thesis
      using Cons True by (simp add: digit_step chomp_Cons del: kstrtoull_loop.simps)
  next
    case False
    then show ?thesis
      using Cons.prems
      by (cases cs) (auto simp: other_step chomp_def simp del: kstrtoull_loop.simps)
  qed
qed

lemma kstrtoull_loop_eq:
  assumes "0 \<notin> set cs"
  shows "case numeral_of (unat base) (chomp cs) of
      Some v \<Rightarrow> kstrtoull_loop (cs @ 0 # rest) base 0 False = Some (if v < 2 ^ 64 then Inr (of_nat v) else Inl ERANGE)
    | None \<Rightarrow> kstrtoull_loop (cs @ 0 # rest) base 0 False \<in> {Some (Inl EINVAL), Some (Inl ERANGE)}"
proof (cases "numeral_of (unat base) (chomp cs)")
  case None
  then show ?thesis
    using kstrtoull_loop_other [OF assms, of base False rest 0] by (auto simp: numeral_of_def split: if_splits)
next
  case (Some v)
  then have ds: "list_all (is_digit (unat base)) (chomp cs)" "chomp cs \<noteq> []" "v = foldl (add_digit (unat base)) 0 (chomp cs)"
    by (auto simp: numeral_of_def split: if_splits)
  obtain t where t: "cs @ 0 # rest = chomp cs @ t" "t = 0 # rest \<or> t = 10 # 0 # rest"
  proof (cases "cs \<noteq> [] \<and> last cs = 10")
    case True
    then have "cs = chomp cs @ [10]"
      using append_butlast_last_id [of cs] by (simp add: chomp_def)
    then have "cs @ 0 # rest = chomp cs @ 10 # 0 # rest"
      by (metis append.assoc append_Cons append_Nil)
    then show ?thesis
      by (rule that) simp
  next
    case False
    then have "chomp cs = cs"
      by (auto simp: chomp_def)
    then show ?thesis
      using that [of "0 # rest"] by simp
  qed
  have "kstrtoull_loop t base a True = Some (Inr a)" for a
    using t(2) by (auto simp: to_lower_def)
  then show ?thesis
    using kstrtoull_loop_digits [OF ds(1), of t 0 False] ds(2,3) t(1) Some
    by (simp add: Let_def del: kstrtoull_loop.simps)
qed

subsection \<open>The value of a text\<close>

definition prefix_x :: "u8 list \<Rightarrow> bool" where
  "prefix_x cs \<longleftrightarrow> 2 \<le> length cs \<and> cs ! 0 = 48 \<and> (cs ! 1 = 120 \<or> cs ! 1 = 88)"

definition base_of :: "nat \<Rightarrow> u8 list \<Rightarrow> nat" where
  "base_of base cs =
     (if base \<noteq> 0 then base
      else if prefix_x cs \<and> 3 \<le> length cs \<and> digit_of (cs ! 2) \<noteq> None then 16
      else if cs \<noteq> [] \<and> cs ! 0 = 48 then 8 else 10)"

definition body_of :: "nat \<Rightarrow> u8 list \<Rightarrow> u8 list" where
  "body_of base cs = (if base = 16 \<and> prefix_x cs then drop 2 cs else cs)"

definition unsigned_of :: "nat \<Rightarrow> u8 list \<Rightarrow> nat option" where
  "unsigned_of base cs = (let b = base_of base cs in numeral_of b (chomp (body_of b cs)))"

definition unplus :: "u8 list \<Rightarrow> u8 list" where
  "unplus cs = (if cs \<noteq> [] \<and> cs ! 0 = 43 then tl cs else cs)"

definition negated :: "u8 list \<Rightarrow> bool" where
  "negated cs \<longleftrightarrow> cs \<noteq> [] \<and> cs ! 0 = 45"

definition signed_of :: "nat \<Rightarrow> u8 list \<Rightarrow> int option" where
  "signed_of base cs =
     (if negated cs then map_option (\<lambda>v. - int v) (unsigned_of base (tl cs))
      else map_option int (unsigned_of base (unplus cs)))"

lemma to_lower_x: "to_lower c = 120 \<longleftrightarrow> c = 120 \<or> c = 88"
  by (rule all_u8 [where c = c]) code_simp

lemma arr_get_text:
  "arr_get (cs @ 0 # rest) k = (if k < length cs then Some (cs ! k) else if k = length cs then Some 0 else arr_get (cs @ 0 # rest) k)"
  by (simp add: arr_get_def nth_append)

lemma to_lower_0 [simp]: "to_lower 0 = 32"
  by (simp add: to_lower_def)

lemma simple_guess_base_eq: "simple_guess_base (cs @ 0 # rest) = Some (of_nat (base_of 0 cs))"
proof (cases "cs \<noteq> [] \<and> cs ! 0 = 48")
  case False
  then show ?thesis
    by (cases cs) (auto simp: simple_guess_base_def base_of_def prefix_x_def arr_get_def)
next
  case True
  then obtain c cs' where cs: "cs = 48 # cs'"
    by (cases cs) auto
  show ?thesis
    by (cases cs'; cases "tl cs'")
      (auto simp: cs simple_guess_base_def base_of_def prefix_x_def arr_get_def to_lower_x u8_classes(1) digit_of_def [of 0])
qed

lemma skip_prefix_eq: "skip_prefix base (cs @ 0 # rest) = Some (if base = 16 \<and> prefix_x cs then 2 else 0)"
  by (cases cs; cases "tl cs") (auto simp: skip_prefix_def prefix_x_def arr_get_def to_lower_x)

lemma drop_prefix:
  "drop (if base = 16 \<and> prefix_x cs then 2 else 0) (cs @ 0 # rest) = body_of (unat (base :: u32)) cs @ 0 # rest"
  by (auto simp: body_of_def prefix_x_def word_unat_eq_iff [of base 16])

lemma unat_base_of: "unat (of_nat (base_of 0 cs) :: u32) = base_of 0 cs"
  by (simp add: base_of_def)

lemma do_kstrtoull_eq:
  assumes "0 \<notin> set cs"
  shows "case unsigned_of (unat base) cs of
      Some v \<Rightarrow> do_kstrtoull (cs @ 0 # rest) base = Some (if v < 2 ^ 64 then Inr (of_nat v) else Inl ERANGE)
    | None \<Rightarrow> do_kstrtoull (cs @ 0 # rest) base \<in> {Some (Inl EINVAL), Some (Inl ERANGE)}"
proof -
  define b where "b = (if base = 0 then of_nat (base_of 0 cs) else base)"
  have b: "unat b = base_of (unat base) cs"
    by (simp add: b_def unat_base_of) (simp add: base_of_def unat_eq_zero)
  have eq: "do_kstrtoull (cs @ 0 # rest) base = kstrtoull_loop (body_of (unat b) cs @ 0 # rest) b 0 False"
  proof -
    have "(if base = 0 then simple_guess_base (cs @ 0 # rest) else Some base) = Some b"
      by (simp add: b_def simple_guess_base_eq)
    then show ?thesis
      by (simp only: do_kstrtoull_def skip_prefix_eq bind.bind_lunit drop_prefix)
  qed
  have "0 \<notin> set (body_of (unat b) cs)"
    using assms by (auto simp: body_of_def dest: in_set_dropD)
  from kstrtoull_loop_eq [OF this, where base = b and rest = rest] show ?thesis
    by (simp only: unsigned_of_def Let_def eq flip: b)
qed

lemma kstrtoull_eq:
  assumes "0 \<in> set s"
  shows "case unsigned_of (unat base) (unplus (cstr s)) of
      Some v \<Rightarrow> kstrtoull s base = Some (if v < 2 ^ 64 then Inr (of_nat v) else Inl ERANGE)
    | None \<Rightarrow> kstrtoull s base \<in> {Some (Inl EINVAL), Some (Inl ERANGE)}"
proof -
  obtain rest where s: "s = cstr s @ 0 # rest" "0 \<notin> set (cstr s)"
    using cstr_split [OF assms] by blast
  have "kstrtoull (cs @ 0 # rest) base = do_kstrtoull (unplus cs @ 0 # rest) base" for cs
    by (cases cs) (auto simp: kstrtoull_def unplus_def arr_get_def)
  then have "kstrtoull s base = do_kstrtoull (unplus (cstr s) @ 0 # rest) base"
    using s(1) by metis
  moreover have "0 \<notin> set (unplus (cstr s))"
    using s(2) by (cases "cstr s") (auto simp: unplus_def)
  note do_kstrtoull_eq [OF this, where base = base and rest = rest]
  ultimately show ?thesis
    by (simp only:)
qed

lemma sint_in_range: "- (2 ^ 63) \<le> v \<Longrightarrow> v < 2 ^ 63 \<Longrightarrow> sint (word_of_int v :: u64) = v"
  by (simp add: sint_sbintrunc' signed_take_bit_int_eq_self)

lemma word_2p [simp]: "(18446744073709551616 :: u64) = 0"
  by (simp add: word_uint_eq_iff)

lemma sint_neg_of_nat:
  assumes "v < 2 ^ 64"
  shows "0 \<le> sint (- (of_nat v :: u64)) \<longleftrightarrow> v = 0 \<or> 2 ^ 63 < v"
proof (cases "2 ^ 63 < v")
  case True
  have "word_of_int (2 ^ 64 - int v) = - (of_nat v :: u64)"
    by simp
  then show ?thesis
    using sint_in_range [of "2 ^ 64 - int v"] True assms by simp
next
  case False
  then show ?thesis
    using sint_in_range [of "- int v"] by simp
qed

lemma sint_of_nat_neg:
  assumes "v < 2 ^ 64"
  shows "sint (of_nat v :: u64) < 0 \<longleftrightarrow> 2 ^ 63 \<le> v"
proof (cases "2 ^ 63 \<le> v")
  case True
  have "word_of_int (int v - 2 ^ 64) = (of_nat v :: u64)"
    by simp
  then show ?thesis
    using sint_in_range [of "int v - 2 ^ 64"] True assms by simp
next
  case False
  then show ?thesis
    using sint_in_range [of "int v"] by simp
qed

lemma narrow_down [simp]:
  "LENGTH('a) \<le> 64 \<Longrightarrow> (ucast (of_nat v :: u64) :: 'a :: len word) = of_nat v"
  "LENGTH('a) \<le> 64 \<Longrightarrow> (ucast (word_of_int i :: u64) :: 'a :: len word) = word_of_int i"
  by (simp_all add: word_uint_eq_iff unsigned_ucast_eq uint_word_of_int_eq unsigned_of_nat take_bit_take_bit of_nat_take_bit unsigned_take_bit_eq)

lemma narrow_unsigned_iff:
  assumes "v < 2 ^ 64" "LENGTH('a) \<le> 64"
  shows "(of_nat v :: u64) = ucast (of_nat v :: 'a :: len word) \<longleftrightarrow> v < 2 ^ LENGTH('a)"
proof -
  have "unat (of_nat v :: u64) = v"
    using assms(1) by (simp add: unat_of_nat)
  moreover have "unat (ucast (of_nat v :: 'a word) :: u64) = take_bit LENGTH('a) v"
    using assms(2) by (simp add: unat_ucast_up unsigned_of_nat)
  ultimately show ?thesis
    by (simp add: word_unat_eq_iff eq_commute [of v] take_bit_nat_eq_self_iff)
qed

lemma narrow_signed_iff:
  assumes "- (2 ^ 63) \<le> v" "v < 2 ^ 63" "LENGTH('a) \<le> 64"
  shows "(word_of_int v :: u64) = scast (word_of_int v :: 'a :: len word) \<longleftrightarrow>
    - (2 ^ (LENGTH('a) - 1)) \<le> v \<and> v < 2 ^ (LENGTH('a) - 1)"
proof -
  have "is_up (scast :: 'a word \<Rightarrow> u64)"
    using assms(3) by (simp add: is_up_def source_size target_size)
  then have "sint (scast (word_of_int v :: 'a word) :: u64) = signed_take_bit (LENGTH('a) - 1) v"
    by (simp add: sint_up_scast sint_sbintrunc')
  moreover have "(word_of_int v :: u64) = w \<longleftrightarrow> sint w = v" for w
    using sint_in_range [OF assms(1,2)] by (metis signed_word_eqI)
  ultimately show ?thesis
    by (simp add: signed_take_bit_int_eq_self_iff)
qed

lemma kstrtoll_eq:
  assumes "0 \<in> set s"
  shows "case signed_of (unat base) (cstr s) of
      Some v \<Rightarrow> kstrtoll s base =
        Some (if - (2 ^ 63) \<le> v \<and> v < 2 ^ 63 \<and> (negated (cstr s) \<longrightarrow> v \<noteq> 0) then Inr (word_of_int v) else Inl ERANGE)
    | None \<Rightarrow> kstrtoll s base \<in> {Some (Inl EINVAL), Some (Inl ERANGE)}"
proof -
  obtain rest where s: "s = cstr s @ 0 # rest" "0 \<notin> set (cstr s)"
    using cstr_split [OF assms] by blast
  show ?thesis
  proof (cases "negated (cstr s)")
    case True
    then obtain cs where cs: "cstr s = 45 # cs"
      by (cases "cstr s") (auto simp: negated_def)
    then have "s = 45 # cs @ 0 # rest"
      using s(1) by simp
    then have k: "kstrtoll s base = do { rv \<leftarrow> do_kstrtoull (cs @ 0 # rest) base;
        Some (case rv of Inl e \<Rightarrow> Inl e | Inr tmp \<Rightarrow> if 0 \<le> sint (- tmp) then Inl ERANGE else Inr (- tmp)) }"
      by (simp add: kstrtoll_def)
    have "0 \<notin> set cs"
      using s(2) cs by simp
    from do_kstrtoull_eq [OF this, where base = base and rest = rest] show ?thesis
      using True by (auto simp: k cs signed_of_def sint_neg_of_nat split: option.splits if_splits)
  next
    case False
    have "kstrtoll (cs @ 0 # rest) base = do { rv \<leftarrow> kstrtoull (cs @ 0 # rest) base;
        Some (case rv of Inl e \<Rightarrow> Inl e | Inr tmp \<Rightarrow> if sint tmp < 0 then Inl ERANGE else Inr tmp) }"
      if "cs = cstr s" for cs
      using False unfolding that [symmetric] by (cases cs) (auto simp: kstrtoll_def negated_def)
    then have k: "kstrtoll s base = do { rv \<leftarrow> kstrtoull s base;
        Some (case rv of Inl e \<Rightarrow> Inl e | Inr tmp \<Rightarrow> if sint tmp < 0 then Inl ERANGE else Inr tmp) }"
      using s(1) by metis
    from kstrtoull_eq [OF assms, of base] show ?thesis
      using False by (auto simp: k signed_of_def sint_of_nat_neg split: option.splits if_splits)
  qed
qed


subsection \<open>Conversions that stop early\<close>

lemma strtoull_loop_eq:
  "0 \<notin> set cs \<Longrightarrow> strtoull_loop (cs @ 0 # rest) base (of_nat a) pos =
     (let ds = takeWhile (is_digit (unat base)) cs in
      Some (of_nat (foldl (add_digit (unat base)) a ds), pos + length ds))"
proof (induction cs arbitrary: a pos)
  case Nil
  then show ?case
    by (simp add: u8_classes(1) digit_of_def)
next
  case (Cons c cs)
  show ?case
  proof (cases "digit_of c")
    case None
    then show ?thesis
      by (simp add: u8_classes(1) is_digit_def)
  next
    case (Some d)
    define v :: u32 where "v = (if 48 \<le> c \<and> c \<le> 57 then ucast (c - 48) else ucast (to_lower c - 97) + 10)"
    have "unat v = d"
      using digit_value [OF Some] by (simp add: v_def unat_of_nat)
    then have b: "base \<le> v \<longleftrightarrow> \<not> is_digit (unat base) c" "of_nat a * ucast base + ucast v = (of_nat (add_digit (unat base) a c) :: u64)"
      by (auto simp: is_digit_def add_digit_def Some word_le_nat_alt)
    have "strtoull_loop ((c # cs) @ 0 # rest) base (of_nat a) pos =
      (if base \<le> v then Some (of_nat a, pos) else strtoull_loop (cs @ 0 # rest) base (of_nat a * ucast base + ucast v) (pos + 1))"
      by (simp add: u8_classes(1,2) Some Let_def v_def)
    then show ?thesis
      using Cons.IH [of "add_digit (unat base) a c" "pos + 1"] Cons.prems by (simp add: b Let_def del: strtoull_loop.simps)
  qed
qed

lemma simple_strtoull_eq:
  assumes "0 \<notin> set cs"
  shows "simple_strtoull (cs @ 0 # rest) base =
    (let b = base_of (unat base) cs; ds = takeWhile (is_digit b) (body_of b cs) in
     Some (of_nat (foldl (add_digit b) 0 ds), length cs - length (body_of b cs) + length ds))"
proof -
  define b where "b = (if base = 0 then of_nat (base_of 0 cs) else base)"
  have b: "unat b = base_of (unat base) cs"
    by (simp add: b_def unat_base_of) (simp add: base_of_def unat_eq_zero)
  have "(if base = 0 then simple_guess_base (cs @ 0 # rest) else Some base) = Some b"
    by (simp add: b_def simple_guess_base_eq)
  then have "simple_strtoull (cs @ 0 # rest) base =
      strtoull_loop (body_of (unat b) cs @ 0 # rest) b 0 (if b = 16 \<and> prefix_x cs then 2 else 0)"
    by (simp only: simple_strtoull_def skip_prefix_eq bind.bind_lunit drop_prefix)
  moreover have "(if b = 16 \<and> prefix_x cs then 2 else 0) = length cs - length (body_of (unat b) cs)"
    by (auto simp: body_of_def prefix_x_def word_unat_eq_iff [of b 16])
  moreover have "0 \<notin> set (body_of (unat b) cs)"
    using assms by (auto simp: body_of_def dest: in_set_dropD)
  ultimately show ?thesis
    using strtoull_loop_eq [of "body_of (unat b) cs" rest b 0] by (simp add: Let_def flip: b)
qed

subsection \<open>Properties\<close>

text \<open>C17: \<open>kstrtoull\<close> accepts exactly the numerals, with an optional plus sign, the prefix of
  hexadecimal numerals and a final line feed, and returns their value if it has 64 bits. A larger numeral
  is \<open>-ERANGE\<close>, however much larger, and every other text is an error.\<close>

theorem kstrtoull_exact:
  assumes "0 \<in> set s"
  shows "case unsigned_of (unat base) (unplus (cstr s)) of
      Some v \<Rightarrow> kstrtoull s base = Some (if v < 2 ^ 64 then Inr (of_nat v) else Inl ERANGE)
    | None \<Rightarrow> kstrtoull s base \<in> {Some (Inl EINVAL), Some (Inl ERANGE)}"
  by (rule kstrtoull_eq [OF assms])

theorem kstrtoull_exact_witness:
  "kstrtoull [43, 48, 120, 70, 102, 10, 0] 0 = Some (Inr 255)"
  using kstrtoull_exact [of "[43, 48, 120, 70, 102, 10, 0]" 0]
  by (simp add: unsigned_of_def base_of_def body_of_def prefix_x_def unplus_def chomp_def numeral_of_def is_digit_def
      digit_of_def add_digit_def)

text \<open>C28: The narrower unsigned conversions accept a numeral exactly when its value fits their type.\<close>

theorem kstrto_unsigned_ranges:
  assumes "0 \<in> set s" "unsigned_of (unat base) (unplus (cstr s)) = Some v"
  shows "do_kstrtoul s base = Some (if v < 2 ^ 32 then Inr (of_nat v) else Inl ERANGE) \<and>
    kstrtouint s base = Some (if v < 2 ^ 32 then Inr (of_nat v) else Inl ERANGE) \<and>
    kstrtou16 s base = Some (if v < 2 ^ 16 then Inr (of_nat v) else Inl ERANGE) \<and>
    kstrtou8 s base = Some (if v < 2 ^ 8 then Inr (of_nat v) else Inl ERANGE)"
proof -
  have "kstrtoull s base = Some (if v < 2 ^ 64 then Inr (of_nat v) else Inl ERANGE)"
    using kstrtoull_eq [OF assms(1), of base] assms(2) by simp
  then show ?thesis
    by (cases "v < 2 ^ 64")
      (simp_all add: do_kstrtoul_def kstrtouint_def kstrtou16_def kstrtou8_def narrow_unsigned_iff)
qed

theorem kstrto_unsigned_ranges_witness:
  "kstrtou8 [50, 53, 54, 0] 10 = Some (Inl ERANGE) \<and> kstrtou16 [50, 53, 54, 0] 10 = Some (Inr 256)"
  using kstrto_unsigned_ranges [of "[50, 53, 54, 0]" 10 256]
  by (simp add: unsigned_of_def base_of_def body_of_def unplus_def chomp_def numeral_of_def is_digit_def
      digit_of_def add_digit_def)

text \<open>C26: The signed conversions accept a numeral exactly when its value fits their type, the least
  value of the type included, unless it is zero with a minus sign.\<close>

theorem kstrto_signed_ranges:
  assumes "0 \<in> set s" "signed_of (unat base) (cstr s) = Some v" "v = 0 \<Longrightarrow> \<not> negated (cstr s)"
  shows "kstrtoll s base = Some (if - (2 ^ 63) \<le> v \<and> v < 2 ^ 63 then Inr (word_of_int v) else Inl ERANGE) \<and>
    do_kstrtol s base = Some (if - (2 ^ 31) \<le> v \<and> v < 2 ^ 31 then Inr (word_of_int v) else Inl ERANGE) \<and>
    kstrtoint s base = Some (if - (2 ^ 31) \<le> v \<and> v < 2 ^ 31 then Inr (word_of_int v) else Inl ERANGE) \<and>
    kstrtos16 s base = Some (if - (2 ^ 15) \<le> v \<and> v < 2 ^ 15 then Inr (word_of_int v) else Inl ERANGE) \<and>
    kstrtos8 s base = Some (if - (2 ^ 7) \<le> v \<and> v < 2 ^ 7 then Inr (word_of_int v) else Inl ERANGE)"
proof -
  have "kstrtoll s base = Some (if - (2 ^ 63) \<le> v \<and> v < 2 ^ 63 then Inr (word_of_int v) else Inl ERANGE)"
    using kstrtoll_eq [OF assms(1), of base] assms(2,3) by auto
  then show ?thesis
    by (auto simp: do_kstrtol_def kstrtoint_def kstrtos16_def kstrtos8_def narrow_signed_iff)
qed

theorem kstrto_signed_ranges_witness:
  "kstrtos8 [45, 49, 50, 56, 0] 10 = Some (Inr (- 128))"
  using kstrto_signed_ranges [of "[45, 49, 50, 56, 0]" 10 "- 128"]
  by (simp add: signed_of_def negated_def unsigned_of_def base_of_def body_of_def unplus_def chomp_def numeral_of_def
      is_digit_def digit_of_def add_digit_def)

text \<open>A zero with a minus sign is not accepted by the signed conversions.\<close>

theorem kstrtoll_minus_zero:
  assumes "0 \<in> set s" "signed_of (unat base) (cstr s) = Some 0"
  shows "kstrtoll s base = Some (if negated (cstr s) then Inl ERANGE else Inr 0)"
  using kstrtoll_eq [OF assms(1), of base] assms(2) by simp

theorem kstrtoll_minus_zero_witness:
  "kstrtoll [45, 48, 0] 10 = Some (Inl ERANGE) \<and> kstrtoll [48, 0] 10 = Some (Inr 0)"
  using kstrtoll_minus_zero [of "[45, 48, 0]" 10] kstrtoll_minus_zero [of "[48, 0]" 10]
  by (simp add: signed_of_def negated_def unsigned_of_def base_of_def body_of_def unplus_def chomp_def numeral_of_def
      is_digit_def digit_of_def add_digit_def)

text \<open>C39: \<open>simple_strtoull\<close> returns the value of the longest sequence of digits, modulo
  \<open>2\<^sup>6\<^sup>4\<close>, and where it ends.\<close>

theorem simple_strtoull_prefix:
  assumes "0 \<notin> set cs"
  shows "simple_strtoull (cs @ 0 # rest) base =
    (let b = base_of (unat base) cs; ds = takeWhile (is_digit b) (body_of b cs) in
     Some (of_nat (foldl (add_digit b) 0 ds), length cs - length (body_of b cs) + length ds))"
  by (rule simple_strtoull_eq [OF assms])

theorem simple_strtoull_prefix_witness:
  "simple_strtoull [48, 120, 49, 102, 75, 0] 0 = Some (31, 4)"
  using simple_strtoull_prefix [of "[48, 120, 49, 102, 75]" "[]" 0]
  by (simp add: base_of_def body_of_def prefix_x_def is_digit_def digit_of_def add_digit_def)

end
