(* ===== verification/Put_Dec.thy ===== *)
theory Put_Dec
  imports Kstrtox
begin

text \<open>
  The digits of a number: the division-free decimal conversion \<open>put_dec\<close> of
  \<open>lib/vsprintf.c\<close> and the conversion of bytes to and from hexadecimal digits (\<open>pack_hex_byte\<close>
  of \<open>include/linux/kernel.h\<close>, \<open>hex2bin\<close> of \<open>lib/hexdump.c\<close>). A function that appends to
  the buffer at a pointer and returns the advanced pointer is modelled by the list of the bytes it
  appends.
\<close>

subsection \<open>Decimal digits\<close>

text \<open>One to five digits of a number below 100000, the least significant one first.\<close>

definition put_dec_trunc :: "u32 \<Rightarrow> u8 list" where
  "put_dec_trunc q =
     (let d1 = drop_bit 4 q AND 0xf; d2 = drop_bit 8 q AND 0xf; d3 = drop_bit 12 q;
          d0 = 6 * (d3 + d2 + d1) + (q AND 0xf);
          q = drop_bit 11 (d0 * 0xcd);
          d0 = d0 - 10 * q;
          d1 = q + 9 * d3 + 5 * d2 + d1
      in ucast (d0 + 48) #
         (if d1 \<noteq> 0
          then let q = drop_bit 11 (d1 * 0xcd); d1 = d1 - 10 * q; d2 = q + 2 * d2
               in ucast (d1 + 48) #
                  (if d2 \<noteq> 0 \<or> d3 \<noteq> 0
                   then let q = drop_bit 7 (d2 * 0xd); d2 = d2 - 10 * q; d3 = q + 4 * d3
                        in ucast (d2 + 48) #
                           (if d3 \<noteq> 0
                            then let q = drop_bit 11 (d3 * 0xcd); d3 = d3 - 10 * q
                                 in ucast (d3 + 48) # (if q \<noteq> 0 then [ucast (q + 48)] else [])
                            else [])
                   else [])
          else []))"

definition put_dec_full :: "u32 \<Rightarrow> u8 list" where
  "put_dec_full q =
     (let d1 = drop_bit 4 q AND 0xf; d2 = drop_bit 8 q AND 0xf; d3 = drop_bit 12 q;
          d0 = 6 * (d3 + d2 + d1) + (q AND 0xf);
          q = drop_bit 11 (d0 * 0xcd);
          d0 = d0 - 10 * q;
          d1 = q + 9 * d3 + 5 * d2 + d1;
          q = drop_bit 11 (d1 * 0xcd);
          d1 = d1 - 10 * q;
          d2 = q + 2 * d2;
          q = drop_bit 7 (d2 * 0xd);
          d2 = d2 - 10 * q;
          d3 = q + 4 * d3;
          q = drop_bit 11 (d3 * 0xcd);
          d3 = d3 - 10 * q
      in [ucast (d0 + 48), ucast (d1 + 48), ucast (d2 + 48), ucast (d3 + 48), ucast (q + 48)])"

function put_dec :: "u64 \<Rightarrow> u8 list" where
  "put_dec num =
     (if num < 100000 then put_dec_trunc (ucast num)
      else put_dec_full (ucast (num mod 100000)) @ put_dec (num div 100000))"
  by pat_completeness auto
termination
  by (relation "measure unat") (auto simp: unat_div_distrib word_less_nat_alt intro!: div_less_dividend)

declare put_dec.simps [simp del]

subsection \<open>Hexadecimal digits of a byte\<close>

definition hex_asc :: "u8 list" where
  "hex_asc = [48, 49, 50, 51, 52, 53, 54, 55, 56, 57, 97, 98, 99, 100, 101, 102]"

definition pack_hex_byte :: "u8 \<Rightarrow> u8 list" where
  "pack_hex_byte byte = [hex_asc ! unat (drop_bit 4 (byte AND 0xf0)), hex_asc ! unat (byte AND 0x0f)]"

definition hex_to_bin :: "u8 \<Rightarrow> int" where
  "hex_to_bin ch =
     (if 48 \<le> ch \<and> ch \<le> 57 then uint ch - 48
      else let ch = tolower ch in if 97 \<le> ch \<and> ch \<le> 102 then uint ch - 97 + 10 else - 1)"

fun hex2bin :: "u8 list \<Rightarrow> nat \<Rightarrow> u8 list option" where
  "hex2bin src 0 = Some []"
| "hex2bin (a # b # src) (Suc count) =
     do { dst \<leftarrow> hex2bin src count;
          Some ((word_of_int (hex_to_bin a * 16) + word_of_int (hex_to_bin b)) # dst) }"
| "hex2bin _ _ = None"

subsection \<open>The decimal digits are right\<close>

text \<open>The digits of a number, the least significant one first.\<close>

fun udigits :: "nat \<Rightarrow> nat \<Rightarrow> nat list" where
  "udigits b n = (if b < 2 \<or> n < b then [n] else n mod b # udigits b (n div b))"

declare udigits.simps [simp del]

definition digit_char :: "nat \<Rightarrow> u8" where
  "digit_char d = of_nat (if d < 10 then 48 + d else 87 + d)"

lemma div10_11: "d \<le> 1000 \<Longrightarrow> d * 205 div 2048 = d div (10 :: nat)"
proof -
  assume "d \<le> 1000"
  define a b where "a = d div 10" and "b = d mod 10"
  then have "d = 10 * a + b" "b < 10"
    by simp_all
  moreover from this have "d * 205 = 2048 * a + (2 * a + 205 * b)" "2 * a + 205 * b < 2048"
    using \<open>d \<le> 1000\<close> by auto
  ultimately show ?thesis
    by (simp add: a_def)
qed

lemma div10_7: "d \<le> 63 \<Longrightarrow> d * 13 div 128 = d div (10 :: nat)"
proof -
  assume "d \<le> 63"
  define a b where "a = d div 10" and "b = d mod 10"
  then have "d = 10 * a + b" "b < 10"
    by simp_all
  moreover from this have "d * 13 = 128 * a + (2 * a + 13 * b)" "2 * a + 13 * b < 128"
    using \<open>d \<le> 63\<close> by auto
  ultimately show ?thesis
    by (simp add: a_def)
qed


lemma drop_bit_of_nat: "m < 4294967296 \<Longrightarrow> drop_bit k (of_nat m :: u32) = of_nat (m div 2 ^ k)"
  by (simp add: word_unat_eq_iff unsigned_drop_bit_eq unat_of_nat drop_bit_eq_div [where 'a = nat] take_bit_nat_eq_self
      le_less_trans [OF div_le_dividend])

lemma nibble_of_nat: "m < 4294967296 \<Longrightarrow> (of_nat m :: u32) AND 15 = of_nat (m mod 16)"
proof -
  have "(of_nat m :: u32) AND mask 4 = of_nat (m mod 2 ^ 4)"
    by (simp only: take_bit_eq_mask [symmetric] take_bit_of_nat take_bit_eq_mod [where 'a = nat])
  then show ?thesis
    by (simp add: mask_eq_decr_exp)
qed

lemma of_nat_eq_0: "m < 4294967296 \<Longrightarrow> (of_nat m :: u32) = 0 \<longleftrightarrow> m = 0"
  by (simp add: word_unat_eq_iff unat_of_nat)

lemma rem10: "(of_nat d :: u32) - 10 * of_nat (d div 10) = of_nat (d mod 10)"
proof -
  have "(of_nat d :: u32) = of_nat (10 * (d div 10) + d mod 10)"
    by simp
  then show ?thesis
    by (simp only: of_nat_add of_nat_mult) simp
qed

lemmas small_words = drop_bit_of_nat nibble_of_nat rem10 of_nat_eq_0

text \<open>The nibbles of a number below 100000, and the sums of the digits they contribute to the decimal
  places.\<close>

lemma places:
  fixes n :: nat
  assumes "n < 100000"
  defines "b \<equiv> n div 16 mod 16" and "c \<equiv> n div 256 mod 16" and "e \<equiv> n div 4096"
  defines "d0 \<equiv> 6 * (e + c + b) + n mod 16"
  defines "d1 \<equiv> d0 div 10 + 9 * e + 5 * c + b"
  defines "d2 \<equiv> d1 div 10 + 2 * c"
  defines "d3 \<equiv> d2 div 10 + 4 * e"
  shows "d0 \<le> 1000" "d1 \<le> 1000" "d2 \<le> 63" "d3 \<le> 1000" "e \<le> 24"
    "n mod 10 = d0 mod 10" "n div 10 mod 10 = d1 mod 10" "n div 100 mod 10 = d2 mod 10" "n div 1000 = d3"
    "n div 10 = d1 + 10 * (2 * c) + 100 * (4 * e)" "n div 100 = d2 + 10 * (4 * e)"
proof -
  have n: "n = 4096 * e + 256 * c + 16 * b + n mod 16"
  proof -
    define x y where "x = n div 16" and "y = n div 256"
    have "x div 16 = y" "y div 16 = e"
      by (simp_all add: x_def y_def e_def div_mult2_eq [symmetric])
    then have "x = 16 * y + x mod 16" "y = 16 * e + y mod 16"
      by (metis mult_div_mod_eq)+
    moreover have "n = 16 * x + n mod 16"
      by (simp add: x_def)
    moreover have "b = x mod 16" "c = y mod 16"
      by (simp_all add: b_def c_def x_def y_def)
    ultimately show ?thesis
      by linarith
  qed
  have le: "b \<le> 15" "c \<le> 15" "n mod 16 \<le> 15" "e \<le> 24"
    using assms(1) by (simp_all add: b_def c_def e_def)
  then show "e \<le> 24" "d0 \<le> 1000" and "d1 \<le> 1000"
    by (simp_all add: d1_def d0_def)
  have "d0 \<le> 339"
    using le by (simp add: d0_def)
  then have "d1 \<le> 339"
    using le by (simp add: d1_def)
  then show "d2 \<le> 63"
    using le by (simp add: d2_def)
  then show "d3 \<le> 1000"
    using le by (simp add: d3_def)
  have 0: "n = d0 + 10 * (9 * e + 5 * c + b + 20 * c + 400 * e)"
    using n by (simp add: d0_def)
  then show "n mod 10 = d0 mod 10"
    by (metis mod_mult_self2)
  have "n div 10 = d0 div 10 + (9 * e + 5 * c + b + 20 * c + 400 * e)"
    using 0 by (metis add.commute div_mult_self2 numeral_neq_zero)
  then show 1: "n div 10 = d1 + 10 * (2 * c) + 100 * (4 * e)"
    by (simp add: d1_def)
  then have "n div 10 = d1 + 10 * (2 * c + 40 * e)"
    by simp
  then show "n div 10 mod 10 = d1 mod 10"
    by (metis mod_mult_self2)
  have "n div 10 div 10 = d1 div 10 + (2 * c + 40 * e)"
    using \<open>n div 10 = d1 + 10 * (2 * c + 40 * e)\<close> by (metis add.commute div_mult_self2 numeral_neq_zero)
  then show 2: "n div 100 = d2 + 10 * (4 * e)"
    by (simp add: d2_def div_mult2_eq [symmetric])
  then show "n div 100 mod 10 = d2 mod 10"
    by (metis mod_mult_self2)
  have "n div 100 div 10 = d2 div 10 + 4 * e"
    using 2 by (metis add.commute div_mult_self2 numeral_neq_zero)
  then show "n div 1000 = d3"
    by (simp add: d3_def div_mult2_eq [symmetric])
qed

lemma approx_div10:
  "d \<le> 1000 \<Longrightarrow> drop_bit 11 ((of_nat d :: u32) * 0xcd) = of_nat (d div 10)"
  "d \<le> 63 \<Longrightarrow> drop_bit 7 ((of_nat d :: u32) * 0xd) = of_nat (d div 10)"
  using drop_bit_of_nat [of "d * 205" 11] drop_bit_of_nat [of "d * 13" 7] by (simp_all add: div10_11 div10_7)

lemma digit_char_eq: "d < 10 \<Longrightarrow> (ucast ((of_nat d :: u32) + 48) :: u8) = digit_char d"
proof -
  assume "d < 10"
  have "(ucast (of_nat m :: u32) :: u8) = of_nat m" for m
    by (simp add: word_unat_eq_iff unsigned_ucast_eq unsigned_of_nat take_bit_take_bit unsigned_take_bit_eq)
  from this [of "d + 48"] show ?thesis
    using \<open>d < 10\<close> by (simp add: digit_char_def add.commute)
qed

lemma put_dec_words:
  assumes "n < 100000"
  defines "q \<equiv> of_nat n :: u32" and "b \<equiv> n div 16 mod 16" and "c \<equiv> n div 256 mod 16" and "e \<equiv> n div 4096"
  shows "drop_bit 4 q AND 0xf = of_nat b" "drop_bit 8 q AND 0xf = of_nat c" "drop_bit 12 q = of_nat e"
    "q AND 0xf = of_nat (n mod 16)"
  using assms(1) by (simp_all add: assms(2-) small_words)

lemma of_nat_sums:
  "6 * (of_nat e + of_nat c + of_nat b) + of_nat a = (of_nat (6 * (e + c + b) + a) :: u32)"
  "of_nat x + 9 * of_nat e + 5 * of_nat c + of_nat b = (of_nat (x + 9 * e + 5 * c + b) :: u32)"
  "of_nat x + 2 * of_nat c = (of_nat (x + 2 * c) :: u32)"
  "of_nat x + 4 * of_nat e = (of_nat (x + 4 * e) :: u32)"
  by simp_all

lemma put_dec_full_eq:
  assumes "n < 100000"
  shows "put_dec_full (of_nat n) =
    map digit_char [n mod 10, n div 10 mod 10, n div 100 mod 10, n div 1000 mod 10, n div 10000]"
proof -
  note p = places [OF assms]
  have e: "n div 10000 = n div 1000 div 10" and "n div 1000 div 10 < 10"
    using assms by (simp_all add: div_mult2_eq [symmetric])
  then show ?thesis
    unfolding put_dec_full_def Let_def e
    by (simp only: put_dec_words [OF assms] of_nat_sums approx_div10 p(1-4) rem10 p(6-9) [symmetric] list.map
        digit_char_eq mod_less_divisor zero_less_numeral)
qed

lemma udigits_step: "2 \<le> b \<Longrightarrow> udigits b n = n mod b # (if n div b \<noteq> 0 then udigits b (n div b) else [])"
  by (subst udigits.simps) (auto simp: div_eq_0_iff)

lemma put_dec_tests:
  assumes "n < 100000"
  defines "b \<equiv> n div 16 mod 16" and "c \<equiv> n div 256 mod 16" and "e \<equiv> n div 4096"
  defines "d0 \<equiv> 6 * (e + c + b) + n mod 16"
  defines "d1 \<equiv> d0 div 10 + 9 * e + 5 * c + b"
  defines "d2 \<equiv> d1 div 10 + 2 * c"
  defines "d3 \<equiv> d2 div 10 + 4 * e"
  shows "(of_nat d1 :: u32) \<noteq> 0 \<longleftrightarrow> n div 10 \<noteq> 0"
    "(of_nat d2 :: u32) \<noteq> 0 \<or> (of_nat e :: u32) \<noteq> 0 \<longleftrightarrow> n div 10 div 10 \<noteq> 0"
    "(of_nat d3 :: u32) \<noteq> 0 \<longleftrightarrow> n div 10 div 10 div 10 \<noteq> 0"
    "(of_nat (d3 div 10) :: u32) \<noteq> 0 \<longleftrightarrow> n div 10 div 10 div 10 div 10 \<noteq> 0"
proof -
  note p = places [OF assms(1), folded b_def c_def e_def, folded d0_def, folded d1_def, folded d2_def, folded d3_def]
  have "d1 = 0 \<Longrightarrow> c = 0 \<and> e = 0"
    by (simp add: d1_def)
  then show "(of_nat d1 :: u32) \<noteq> 0 \<longleftrightarrow> n div 10 \<noteq> 0"
    using p(2,10) by (auto simp: of_nat_eq_0)
  show "(of_nat d2 :: u32) \<noteq> 0 \<or> (of_nat e :: u32) \<noteq> 0 \<longleftrightarrow> n div 10 div 10 \<noteq> 0"
    using p(3,5,11) by (simp add: of_nat_eq_0 div_mult2_eq [symmetric])
  show "(of_nat d3 :: u32) \<noteq> 0 \<longleftrightarrow> n div 10 div 10 div 10 \<noteq> 0"
    "(of_nat (d3 div 10) :: u32) \<noteq> 0 \<longleftrightarrow> n div 10 div 10 div 10 div 10 \<noteq> 0"
    using p(4,9) by (simp_all add: of_nat_eq_0 div_mult2_eq [symmetric])
qed

lemma put_dec_trunc_eq:
  assumes "n < 100000"
  shows "put_dec_trunc (of_nat n) = map digit_char (udigits 10 n)"
proof -
  note p = places [OF assms] and t = put_dec_tests [OF assms]
  have d: "n div 100 = n div 10 div 10" "n div 1000 = n div 10 div 10 div 10"
    by (simp_all add: div_mult2_eq [symmetric])
  have small: "n div 10 div 10 div 10 div 10 < 10" "n div 10 div 10 div 10 \<le> 1000"
    using assms by (simp_all add: div_mult2_eq [symmetric])
  have z: "(of_nat (n div 10 div 10 div 10) :: u32) = 0 \<longleftrightarrow> n div 10 div 10 div 10 = 0"
    "(of_nat (n div 10 div 10 div 10 div 10) :: u32) = 0 \<longleftrightarrow> n div 10 div 10 div 10 div 10 = 0"
    using small by (simp_all add: of_nat_eq_0)
  have "udigits 10 (n div 10 div 10 div 10 div 10) = [n div 10 div 10 div 10 div 10]"
    using small(1) by (simp add: udigits.simps)
  then have u: "udigits 10 n = n mod 10 # (if n div 10 \<noteq> 0 then n div 10 mod 10 #
      (if n div 10 div 10 \<noteq> 0 then n div 10 div 10 mod 10 # (if n div 10 div 10 div 10 \<noteq> 0
        then n div 10 div 10 div 10 mod 10 # (if n div 10 div 10 div 10 div 10 \<noteq> 0
          then [n div 10 div 10 div 10 div 10] else []) else []) else []) else [])"
    using udigits_step [of 10 n] udigits_step [of 10 "n div 10"] udigits_step [of 10 "n div 10 div 10"]
      udigits_step [of 10 "n div 10 div 10 div 10"] by (simp only: numeral_le_iff semiring_norm)
  show ?thesis
    unfolding put_dec_trunc_def Let_def u
    by (simp only: put_dec_words [OF assms] of_nat_sums approx_div10 p(1-4) rem10 t p(6-9) [symmetric] d
        digit_char_eq mod_less_divisor zero_less_numeral small z list.map if_distrib [of "map digit_char"])
qed

lemma udigits_split:
  assumes "100000 \<le> n"
  shows "udigits 10 n = [n mod 10, n div 10 mod 10, n div 10 div 10 mod 10, n div 10 div 10 div 10 mod 10,
    n div 10 div 10 div 10 div 10 mod 10] @ udigits 10 (n div 100000)"
proof -
  have "n div 10 \<noteq> 0" "n div 10 div 10 \<noteq> 0" "n div 10 div 10 div 10 \<noteq> 0" "n div 10 div 10 div 10 div 10 \<noteq> 0"
    "n div 10 div 10 div 10 div 10 div 10 \<noteq> 0" and e: "n div 10 div 10 div 10 div 10 div 10 = n div 100000"
    using assms by (simp_all add: div_mult2_eq [symmetric])
  then have "udigits 10 n = [n mod 10, n div 10 mod 10, n div 10 div 10 mod 10, n div 10 div 10 div 10 mod 10,
      n div 10 div 10 div 10 div 10 mod 10] @ udigits 10 (n div 10 div 10 div 10 div 10 div 10)"
    using udigits_step [of 10 n] udigits_step [of 10 "n div 10"] udigits_step [of 10 "n div 10 div 10"]
      udigits_step [of 10 "n div 10 div 10 div 10"] udigits_step [of 10 "n div 10 div 10 div 10 div 10"]
    by (simp only: numeral_le_iff semiring_norm append.simps if_True not_False_eq_True)
  then show ?thesis
    by (simp only: e)
qed

lemma low_digits:
  fixes n :: nat
  defines "m \<equiv> n mod 100000"
  shows "[m mod 10, m div 10 mod 10, m div 100 mod 10, m div 1000 mod 10, m div 10000] =
    [n mod 10, n div 10 mod 10, n div 10 div 10 mod 10, n div 10 div 10 div 10 mod 10,
     n div 10 div 10 div 10 div 10 mod 10]"
proof -
  define k where "k = n div 100000"
  have "m < 100000" and n: "n = m + 10 * (10000 * k)"
    by (simp_all add: m_def k_def)
  have step: "x = y + 10 * z \<Longrightarrow> x div 10 = y div 10 + z \<and> x mod 10 = y mod 10" for x y z :: nat
    by auto
  note 1 = step [OF n]
  then have "n div 10 = m div 10 + 10 * (1000 * k)"
    by simp
  note 2 = step [OF this]
  then have "n div 10 div 10 = m div 100 + 10 * (100 * k)"
    by (simp add: div_mult2_eq [symmetric])
  note 3 = step [OF this]
  then have "n div 10 div 10 div 10 = m div 1000 + 10 * (10 * k)"
    by (simp add: div_mult2_eq [symmetric])
  note 4 = step [OF this]
  then have "n div 10 div 10 div 10 div 10 = m div 10000 + 10 * k"
    by (simp add: div_mult2_eq [symmetric])
  from step [OF this] have "n div 10 div 10 div 10 div 10 mod 10 = m div 10000"
    using \<open>m < 100000\<close> by simp
  then show ?thesis
    using 1 2 3 4 by (simp only:)
qed

lemma put_dec_eq: "put_dec num = map digit_char (udigits 10 (unat num))"
proof (induction num rule: put_dec.induct)
  case (1 num)
  show ?case
  proof (cases "num < 100000")
    case True
    then have "unat num < 100000"
      by (simp add: word_less_nat_alt)
    moreover have "(ucast num :: u32) = of_nat (unat num)"
      by simp
    ultimately show ?thesis
      using True put_dec_trunc_eq [of "unat num"] by (subst put_dec.simps) (simp only: if_True)
  next
    case False
    then have ge: "100000 \<le> unat num"
      by (simp add: word_less_nat_alt)
    have "(ucast (num mod 100000) :: u32) = of_nat (unat num mod 100000)"
    proof -
      have "unat (num mod 100000) = unat num mod 100000"
        by (simp add: unat_mod_distrib)
      moreover have "(ucast (num mod 100000) :: u32) = of_nat (unat (num mod 100000))"
        by simp
      ultimately show ?thesis
        by (simp only:)
    qed
    moreover have "unat (num div 100000) = unat num div 100000"
      by (simp add: unat_div_distrib)
    ultimately show ?thesis
      using "1.IH" [OF False] udigits_split [OF ge] put_dec_full_eq [of "unat num mod 100000"] low_digits [of "unat num"] False
      by (subst put_dec.simps) (simp only: if_False map_append mod_less_divisor zero_less_numeral)
  qed
qed

subsection \<open>Reading the digits back\<close>

lemma udigits_less: "2 \<le> b \<Longrightarrow> d \<in> set (udigits b n) \<Longrightarrow> d < b"
  by (induction b n rule: udigits.induct) (subst (asm) (2) udigits.simps, auto split: if_splits)

lemma udigits_value: "2 \<le> b \<Longrightarrow> foldr (\<lambda>d a. a * b + d) (udigits b n) 0 = n"
  by (induction b n rule: udigits.induct) (subst udigits.simps, auto)

lemma udigits_not_Nil: "udigits b n \<noteq> []"
  by (subst udigits.simps) simp

lemma length_udigits: "2 \<le> b \<Longrightarrow> n < b ^ Suc k \<Longrightarrow> length (udigits b n) \<le> Suc k"
proof (induction k arbitrary: n)
  case 0
  then show ?case
    by (simp add: udigits.simps)
next
  case (Suc k)
  have "n div b < b ^ Suc k"
    using Suc.prems by (simp add: div_less_iff_less_mult mult.commute)
  then show ?case
    using Suc.IH Suc.prems(1) by (simp add: udigits_step [of b n])
qed

lemma last_udigits: "2 \<le> b \<Longrightarrow> last (udigits b n) = 0 \<longleftrightarrow> n = 0"
proof (induction b n rule: udigits.induct)
  case (1 b n)
  then show ?case
    using udigits_not_Nil by (cases "n < b") (simp_all add: udigits.simps [of b n] div_eq_0_iff)
qed

lemma digit_of_char: "d < 10 \<Longrightarrow> digit_of (digit_char d) = Some d"
  by (auto simp: digit_char_def digit_of_def word_le_nat_alt unat_of_nat unat_word_ariths)

lemma numeral_of_digits:
  assumes "\<forall>d \<in> set ds. d < 10" "ds \<noteq> []"
  shows "numeral_of 10 (rev (map digit_char ds)) = Some (foldr (\<lambda>d a. a * 10 + d) ds 0)"
proof -
  have "list_all (is_digit 10) (rev (map digit_char ds))"
    using assms(1) by (auto simp: list_all_iff is_digit_def digit_of_char)
  moreover have "foldl (add_digit 10) 0 (rev (map digit_char ds)) = foldr (\<lambda>d a. a * 10 + d) ds 0"
    using assms(1) by (induction ds) (simp_all add: add_digit_def digit_of_char)
  ultimately show ?thesis
    using assms(2) by (simp add: numeral_of_def)
qed

lemma unsigned_of_put_dec: "unsigned_of 10 (unplus (rev (put_dec num))) = Some (unat num)" "0 \<notin> set (put_dec num)"
proof -
  let ?ds = "udigits 10 (unat num)"
  have d: "\<forall>d \<in> set ?ds. d < 10"
    using udigits_less [of 10] by auto
  then have c: "c \<noteq> 0 \<and> c \<noteq> 10 \<and> c \<noteq> 43" if "c \<in> set (put_dec num)" for c
    using that digit_of_char by (fastforce simp: put_dec_eq digit_of_def)
  then show "0 \<notin> set (put_dec num)"
    by blast
  have ne: "put_dec num \<noteq> []"
    by (simp add: put_dec_eq udigits_not_Nil)
  then have "rev (put_dec num) ! 0 \<in> set (put_dec num)" "last (rev (put_dec num)) \<in> set (put_dec num)"
    by (metis length_greater_0_conv nth_mem rev_is_Nil_conv set_rev, metis last_in_set rev_is_Nil_conv set_rev)
  then have "unplus (rev (put_dec num)) = rev (put_dec num)" "chomp (rev (put_dec num)) = rev (put_dec num)"
    using c by (auto simp: unplus_def chomp_def)
  then show "unsigned_of 10 (unplus (rev (put_dec num))) = Some (unat num)"
    using numeral_of_digits [OF d udigits_not_Nil] udigits_value [of 10 "unat num"]
    by (simp add: unsigned_of_def base_of_def body_of_def put_dec_eq)
qed

lemma hex_byte_back:
  "word_of_int (hex_to_bin (pack_hex_byte b ! 0) * 16) + word_of_int (hex_to_bin (pack_hex_byte b ! 1)) = b"
  by (rule all_u8 [where c = b]) code_simp

subsection \<open>Properties\<close>

text \<open>C20: \<open>put_dec\<close>, which divides by multiplying and shifting, produces the decimal digits of every
  64-bit number: \<open>kstrtoull\<close> reads the number back from the text. There are at most 20 of them, and the
  first one is 0 only for the number 0.\<close>

theorem put_dec_roundtrip:
  "kstrtoull (rev (put_dec num) @ [0]) 10 = Some (Inr num) \<and> length (put_dec num) \<le> 20 \<and>
   (last (put_dec num) = 48 \<longleftrightarrow> num = 0)"
proof -
  have s: "0 \<in> set (rev (put_dec num) @ [0])" "cstr (rev (put_dec num) @ [0]) = rev (put_dec num)"
    using unsigned_of_put_dec(2) [of num] cstr_app [of "rev (put_dec num)" "[]"] by simp_all
  have "kstrtoull (rev (put_dec num) @ [0]) 10 = Some (Inr num)"
    using kstrtoull_eq [OF s(1), of 10] unsigned_of_put_dec(1) [of num] unsigned_less [of num, where 'a = nat] s(2) by simp
  moreover have "length (put_dec num) \<le> 20"
    using length_udigits [of 10 "unat num" 19] unsigned_less [of num, where 'a = nat] by (simp add: put_dec_eq)
  moreover have "last (put_dec num) = digit_char (last (udigits 10 (unat num)))" "last (udigits 10 (unat num)) < 10"
    using udigits_less [OF _ last_in_set [OF udigits_not_Nil [of 10 "unat num"]]] udigits_not_Nil [of 10 "unat num"]
    by (simp_all add: put_dec_eq last_map)
  moreover have "d < 10 \<Longrightarrow> digit_char d = 48 \<longleftrightarrow> d = 0" for d
    using digit_of_char [of d] digit_of_char [of 0] by (auto simp: digit_char_def)
  ultimately show ?thesis
    using last_udigits [of 10 "unat num"] by (simp add: unat_eq_zero)
qed

text \<open>\<open>hex2bin\<close> inverts \<open>pack_hex_byte\<close> on every sequence of bytes.\<close>

theorem hex2bin_pack:
  "hex2bin (concat (map pack_hex_byte bs)) (length bs) = Some bs"
proof (induction bs)
  case (Cons b bs)
  have "pack_hex_byte b = [pack_hex_byte b ! 0, pack_hex_byte b ! 1]"
    by (simp add: pack_hex_byte_def)
  then have "concat (map pack_hex_byte (b # bs)) = pack_hex_byte b ! 0 # pack_hex_byte b ! 1 # concat (map pack_hex_byte bs)"
    by (metis append_Cons append_Nil concat.simps(2) list.map(2))
  then show ?case
    using Cons hex_byte_back [of b] by (simp only: length_Cons hex2bin.simps bind.bind_lunit)
qed simp

end
