(* ===== verification/Semaphore.thy ===== *)
theory Semaphore
  imports Kernel_Prelude
begin

text \<open>
  The counting semaphore of \<open>kernel/semaphore.c\<close>. Everything a task does between
  \<open>spin_lock_irqsave(&sem->lock)\<close> and the release of the lock is one step of the
  model, since no other task can see the semaphore meanwhile; a task that goes to sleep in
  \<open>schedule_timeout\<close> inside \<open>__down_common\<close> splits its operation into several
  steps. The waiter of a task lives on its stack: the queue is the list of the waiting tasks and
  \<open>waiter.up\<close> is part of the position of the task.
\<close>

subsection \<open>Data\<close>

type_synonym tid = nat

record semaphore =
  count :: u32
  wait_list :: "tid list"

definition sema_init :: "u32 \<Rightarrow> semaphore" where
  "sema_init val = \<lparr>count = val, wait_list = []\<rparr>"

abbreviation (input) TASK_INTERRUPTIBLE :: u32 where "TASK_INTERRUPTIBLE \<equiv> 1"
abbreviation (input) TASK_UNINTERRUPTIBLE :: u32 where "TASK_UNINTERRUPTIBLE \<equiv> 2"
abbreviation (input) TASK_WAKEKILL :: u32 where "TASK_WAKEKILL \<equiv> 128"
abbreviation (input) TASK_KILLABLE :: u32 where "TASK_KILLABLE \<equiv> 130"
abbreviation (input) MAX_SCHEDULE_TIMEOUT :: int where "MAX_SCHEDULE_TIMEOUT \<equiv> 2147483647"

text \<open>What a step of \<open>__down_common\<close> ends in: a return or a sleep with a timeout.\<close>

datatype down_res = Returned int | Slept int

subsection \<open>Signals and timeouts\<close>

text \<open>The signal state of the current task: whether one is pending and whether it is fatal.\<close>

record sigs =
  pending :: bool
  fatal :: bool

definition signal_pending_state :: "u32 \<Rightarrow> sigs \<Rightarrow> bool" where
  "signal_pending_state state p =
     (if state AND (TASK_INTERRUPTIBLE OR TASK_WAKEKILL) = 0 then False
      else if \<not> pending p then False
      else state AND TASK_INTERRUPTIBLE \<noteq> 0 \<or> fatal p)"

text \<open>
  The value \<open>schedule_timeout\<close> returns when the task runs again \<open>elapsed\<close> ticks
  later: \<open>expire - jiffies\<close> is computed modulo \<open>2^32\<close> and read as a signed number.
\<close>

definition schedule_timeout :: "int \<Rightarrow> u32 \<Rightarrow> int" where
  "schedule_timeout timeout elapsed =
     (if timeout = MAX_SCHEDULE_TIMEOUT then timeout
      else if timeout < 0 then 0
      else let rest = sint (word_of_int timeout - elapsed :: u32) in if rest < 0 then 0 else rest)"

subsection \<open>The contended case\<close>

text \<open>One turn of the loop of \<open>__down_common\<close>, up to the release of the spin lock.\<close>

definition down_loop :: "sigs \<Rightarrow> tid \<Rightarrow> semaphore \<Rightarrow> u32 \<Rightarrow> int \<Rightarrow> semaphore \<times> down_res" where
  "down_loop p task sem state timeout =
     (if signal_pending_state state p
      then (sem\<lparr>wait_list := remove1 task (wait_list sem)\<rparr>, Returned (- EINTR))
      else if timeout \<le> 0
      then (sem\<lparr>wait_list := remove1 task (wait_list sem)\<rparr>, Returned (- ETIME))
      else (sem, Slept timeout))"

definition down_common :: "sigs \<Rightarrow> tid \<Rightarrow> semaphore \<Rightarrow> u32 \<Rightarrow> int \<Rightarrow> semaphore \<times> down_res" where
  "down_common p task sem state timeout =
     down_loop p task (sem\<lparr>wait_list := wait_list sem @ [task]\<rparr>) state timeout"

text \<open>The rest of the loop body once the sleeping task has the spin lock again.\<close>

definition down_resume :: "sigs \<Rightarrow> tid \<Rightarrow> semaphore \<Rightarrow> bool \<Rightarrow> u32 \<Rightarrow> int \<Rightarrow> semaphore \<times> down_res" where
  "down_resume p task sem up state timeout =
     (if up then (sem, Returned 0) else down_loop p task sem state timeout)"

definition down_contended :: "sigs \<Rightarrow> tid \<Rightarrow> semaphore \<Rightarrow> semaphore \<times> down_res" where
  "down_contended p task sem = down_common p task sem TASK_UNINTERRUPTIBLE MAX_SCHEDULE_TIMEOUT"

definition down_interruptible_contended :: "sigs \<Rightarrow> tid \<Rightarrow> semaphore \<Rightarrow> semaphore \<times> down_res" where
  "down_interruptible_contended p task sem = down_common p task sem TASK_INTERRUPTIBLE MAX_SCHEDULE_TIMEOUT"

definition down_killable_contended :: "sigs \<Rightarrow> tid \<Rightarrow> semaphore \<Rightarrow> semaphore \<times> down_res" where
  "down_killable_contended p task sem = down_common p task sem TASK_KILLABLE MAX_SCHEDULE_TIMEOUT"

definition down_timeout_contended :: "sigs \<Rightarrow> tid \<Rightarrow> semaphore \<Rightarrow> int \<Rightarrow> semaphore \<times> down_res" where
  "down_timeout_contended p task sem jiffies = down_common p task sem TASK_UNINTERRUPTIBLE jiffies"

text \<open>\<open>__up\<close> takes the first waiter off the queue; that task is the second component.\<close>

definition up_contended :: "semaphore \<Rightarrow> semaphore \<times> tid" where
  "up_contended sem = (sem\<lparr>wait_list := tl (wait_list sem)\<rparr>, hd (wait_list sem))"

subsection \<open>The operations\<close>

definition down :: "sigs \<Rightarrow> tid \<Rightarrow> semaphore \<Rightarrow> semaphore \<times> down_res" where
  "down p task sem =
     (if 0 < count sem then (sem\<lparr>count := count sem - 1\<rparr>, Returned 0) else down_contended p task sem)"

definition down_interruptible :: "sigs \<Rightarrow> tid \<Rightarrow> semaphore \<Rightarrow> semaphore \<times> down_res" where
  "down_interruptible p task sem =
     (if 0 < count sem then (sem\<lparr>count := count sem - 1\<rparr>, Returned 0)
      else down_interruptible_contended p task sem)"

definition down_killable :: "sigs \<Rightarrow> tid \<Rightarrow> semaphore \<Rightarrow> semaphore \<times> down_res" where
  "down_killable p task sem =
     (if 0 < count sem then (sem\<lparr>count := count sem - 1\<rparr>, Returned 0)
      else down_killable_contended p task sem)"

definition down_timeout :: "sigs \<Rightarrow> tid \<Rightarrow> semaphore \<Rightarrow> int \<Rightarrow> semaphore \<times> down_res" where
  "down_timeout p task sem jiffies =
     (if 0 < count sem then (sem\<lparr>count := count sem - 1\<rparr>, Returned 0)
      else down_timeout_contended p task sem jiffies)"

text \<open>\<open>down_trylock\<close> computes \<open>sem->count - 1\<close> as unsigned and tests it as a signed number.\<close>

definition down_trylock :: "semaphore \<Rightarrow> semaphore \<times> int" where
  "down_trylock sem =
     (let cnt = count sem - 1;
          sem' = (if 0 \<le> sint cnt then sem\<lparr>count := cnt\<rparr> else sem)
      in (sem', if sint cnt < 0 then 1 else 0))"

definition up :: "semaphore \<Rightarrow> semaphore \<times> tid option" where
  "up sem =
     (if wait_list sem = [] then (sem\<lparr>count := count sem + 1\<rparr>, None)
      else let (sem', task) = up_contended sem in (sem', Some task))"

subsection \<open>Tasks sharing a semaphore\<close>

text \<open>
  A task runs or is asleep in \<open>__down_common\<close>, with the state and the timeout it sleeps with and
  its \<open>waiter.up\<close>. A semaphore has no owner: any task and any interrupt handler may call \<open>up\<close>
  and \<open>down_trylock\<close> at any time, and a task may call \<open>down\<close> several times. \<open>downs\<close> and
  \<open>ups\<close> are auxiliary: they count how often the semaphore has been given to somebody (an operation that
  returns 0 without sleeping, or \<open>__up\<close> setting \<open>waiter.up\<close>) and how often \<open>up\<close> has been
  called.
\<close>

datatype down_pc = Running | Asleep u32 int bool

record sem_sys =
  sem :: semaphore
  pcs :: "tid \<Rightarrow> down_pc"
  downs :: nat
  ups :: nat

datatype sem_call = CallDown | CallInterruptible | CallKillable | CallTimeout int

fun call_state :: "sem_call \<Rightarrow> u32" where
  "call_state CallDown = TASK_UNINTERRUPTIBLE"
| "call_state CallInterruptible = TASK_INTERRUPTIBLE"
| "call_state CallKillable = TASK_KILLABLE"
| "call_state (CallTimeout _) = TASK_UNINTERRUPTIBLE"

fun call_timeout :: "sem_call \<Rightarrow> int" where
  "call_timeout (CallTimeout jiffies) = jiffies"
| "call_timeout _ = MAX_SCHEDULE_TIMEOUT"

fun sem_acquire :: "sem_call \<Rightarrow> sigs \<Rightarrow> tid \<Rightarrow> semaphore \<Rightarrow> semaphore \<times> down_res" where
  "sem_acquire CallDown p t s = down p t s"
| "sem_acquire CallInterruptible p t s = down_interruptible p t s"
| "sem_acquire CallKillable p t s = down_killable p t s"
| "sem_acquire (CallTimeout jiffies) p t s = down_timeout p t s jiffies"

datatype sem_event =
    EDown sem_call tid sigs   \<comment> \<open>a running task calls one of the four sleeping operations\<close>
  | ETrylock                  \<comment> \<open>somebody calls \<open>down_trylock\<close>\<close>
  | EWake tid u32 sigs        \<comment> \<open>a sleeping task runs again after some ticks\<close>
  | EUp                       \<comment> \<open>somebody calls \<open>up\<close>\<close>

fun pc_after :: "u32 \<Rightarrow> down_res \<Rightarrow> down_pc" where
  "pc_after state (Returned r) = Running"
| "pc_after state (Slept timeout) = Asleep state timeout False"

fun set_up :: "down_pc \<Rightarrow> down_pc" where
  "set_up (Asleep state timeout _) = Asleep state timeout True"
| "set_up pc = pc"

fun sem_exec :: "sem_event \<Rightarrow> sem_sys \<Rightarrow> sem_sys option" where
  "sem_exec (EDown c t p) s =
     (if pcs s t = Running
      then let (m, r) = sem_acquire c p t (sem s)
           in Some (s\<lparr>sem := m, pcs := (pcs s)(t := pc_after (call_state c) r),
                      downs := downs s + (if r = Returned 0 then 1 else 0)\<rparr>)
      else None)"
| "sem_exec ETrylock s =
     (let (m, r) = down_trylock (sem s)
      in Some (s\<lparr>sem := m, downs := downs s + (if r = 0 then 1 else 0)\<rparr>))"
| "sem_exec (EWake t elapsed p) s =
     (case pcs s t of
        Asleep state timeout u \<Rightarrow>
          (let (m, r) = down_resume p t (sem s) u state (schedule_timeout timeout elapsed)
           in Some (s\<lparr>sem := m, pcs := (pcs s)(t := pc_after state r)\<rparr>))
      | _ \<Rightarrow> None)"
| "sem_exec EUp s =
     (let (m, w) = up (sem s); s = s\<lparr>sem := m, ups := ups s + 1\<rparr>
      in Some (case w of None \<Rightarrow> s
               | Some x \<Rightarrow> s\<lparr>pcs := (pcs s)(x := set_up (pcs s x)), downs := downs s + 1\<rparr>))"

abbreviation sem_run :: "sem_event list \<Rightarrow> sem_sys \<Rightarrow> sem_sys option" where
  "sem_run \<equiv> run_events sem_exec"

definition sem_start :: "u32 \<Rightarrow> sem_sys" where
  "sem_start n = \<lparr>sem = sema_init n, pcs = \<lambda>_. Running, downs = 0, ups = 0\<rparr>"

subsection \<open>The invariant\<close>

text \<open>A task waits as long as it has not been given the semaphore. The count is exact unless it has
  wrapped around, which takes almost \<open>2^32\<close> calls of \<open>up\<close>.\<close>

definition waits :: "down_pc \<Rightarrow> bool" where
  "waits pc = (case pc of Asleep _ _ u \<Rightarrow> \<not> u | _ \<Rightarrow> False)"

definition given :: "tid \<Rightarrow> sem_sys \<Rightarrow> bool" where
  "given t s \<longleftrightarrow> (case pcs s t of Asleep _ _ u \<Rightarrow> u | _ \<Rightarrow> False)"

definition sem_inv :: "nat \<Rightarrow> sem_sys \<Rightarrow> bool" where
  "sem_inv n s \<longleftrightarrow>
     distinct (wait_list (sem s)) \<and> (\<forall>t. t \<in> set (wait_list (sem s)) \<longleftrightarrow> waits (pcs s t)) \<and>
     (n + ups s < 2 ^ 32 \<longrightarrow> unat (count (sem s)) + downs s = n + ups s) \<and>
     (wait_list (sem s) \<noteq> [] \<longrightarrow> count (sem s) = 0)"

lemma waits_simps [simp]: "\<not> waits Running" "waits (Asleep st to u) \<longleftrightarrow> \<not> u"
  by (simp_all add: waits_def)

lemma waits_set_up: "waits pc \<Longrightarrow> \<not> waits (set_up pc)"
  by (cases pc) auto

lemma unat_dec: "0 < (w :: u32) \<Longrightarrow> unat (w - 1) = unat w - 1 \<and> 0 < unat w"
  by (simp add: unat_minus_one word_gt_0 unat_gt_0)

lemma unat_inc: "unat (w :: u32) + 1 < 2 ^ 32 \<Longrightarrow> unat (w + 1) = unat w + 1"
  by (simp add: unat_word_ariths)


lemma sem_acquire_eq:
  "sem_acquire c p t m =
     (if 0 < count m then (m\<lparr>count := count m - 1\<rparr>, Returned 0)
      else down_common p t m (call_state c) (call_timeout c))"
  by (cases c)
    (simp_all add: down_def down_interruptible_def down_killable_def down_timeout_def
      down_contended_def down_interruptible_contended_def down_killable_contended_def
      down_timeout_contended_def)

text \<open>The ways a step changes the state, each of which keeps the invariant.\<close>

lemma sem_inv_take:
  "sem_inv n s \<Longrightarrow> 0 < count (sem s) \<Longrightarrow>
   sem_inv n (s\<lparr>sem := (sem s)\<lparr>count := count (sem s) - 1\<rparr>, downs := Suc (downs s)\<rparr>)"
  using unat_dec [of "count (sem s)"] by (auto simp: sem_inv_def)

lemma sem_inv_take_task:
  "sem_inv n s \<Longrightarrow> 0 < count (sem s) \<Longrightarrow> pcs s t = Running \<Longrightarrow>
   sem_inv n (s\<lparr>sem := (sem s)\<lparr>count := count (sem s) - 1\<rparr>, pcs := (pcs s)(t := Running), downs := Suc (downs s)\<rparr>)"
  using sem_inv_take [of n s] by (auto simp: sem_inv_def)

lemma sem_inv_enqueue:
  "sem_inv n s \<Longrightarrow> pcs s t = Running \<Longrightarrow> count (sem s) = 0 \<Longrightarrow>
   sem_inv n (s\<lparr>sem := (sem s)\<lparr>wait_list := wait_list (sem s) @ [t]\<rparr>, pcs := (pcs s)(t := Asleep st to False)\<rparr>)"
  by (auto simp: sem_inv_def)

lemma sem_inv_stay:
  "sem_inv n s \<Longrightarrow> waits (pcs s t) = waits pc \<Longrightarrow> sem_inv n (s\<lparr>pcs := (pcs s)(t := pc)\<rparr>)"
  by (auto simp: sem_inv_def)

lemma sem_inv_leave:
  "sem_inv n s \<Longrightarrow> sem_inv n (s\<lparr>sem := (sem s)\<lparr>wait_list := remove1 t (wait_list (sem s))\<rparr>, pcs := (pcs s)(t := Running)\<rparr>)"
  by (auto simp: sem_inv_def)

lemma sem_inv_release:
  "sem_inv n s \<Longrightarrow> wait_list (sem s) = [] \<Longrightarrow>
   sem_inv n (s\<lparr>sem := (sem s)\<lparr>count := count (sem s) + 1\<rparr>, ups := Suc (ups s)\<rparr>)"
  using unat_inc [of "count (sem s)"] by (auto simp: sem_inv_def)

lemma sem_inv_hand_over:
  assumes "sem_inv n s" and "wait_list (sem s) = x # xs"
  shows "sem_inv n (s\<lparr>sem := (sem s)\<lparr>wait_list := xs\<rparr>, ups := Suc (ups s), pcs := (pcs s)(x := set_up (pcs s x)), downs := Suc (downs s)\<rparr>)"
proof -
  have "waits (pcs s x)"
    using assms by (auto simp: sem_inv_def)
  then have "\<not> waits (set_up (pcs s x))"
    by (rule waits_set_up)
  then show ?thesis
    using assms by (auto simp: sem_inv_def)
qed

lemma down_loop_cases:
  "down_loop p t m st to = (m, Slept to) \<and> 0 < to \<or>
   (\<exists>r. r \<noteq> 0 \<and> down_loop p t m st to = (m\<lparr>wait_list := remove1 t (wait_list m)\<rparr>, Returned r))"
  by (auto simp: down_loop_def)

lemma sem_inv_loop:
  assumes "sem_inv n s" and "waits (pcs s t)" and "down_loop p t (sem s) st to = (m, r)"
  shows "sem_inv n (s\<lparr>sem := m, pcs := (pcs s)(t := pc_after st r)\<rparr>)"
  using down_loop_cases [of p t "sem s" st to] assms sem_inv_leave [OF assms(1), of t]
    sem_inv_stay [OF assms(1), of t "Asleep st to False"]
  by auto

lemma sem_inv_common:
  assumes "sem_inv n s" and "pcs s t = Running" and "count (sem s) = 0"
    and "down_common p t (sem s) st to = (m, r)"
  shows "sem_inv n (s\<lparr>sem := m, pcs := (pcs s)(t := pc_after st r)\<rparr>)" and "r \<noteq> Returned 0"
proof -
  show "sem_inv n (s\<lparr>sem := m, pcs := (pcs s)(t := pc_after st r)\<rparr>)"
    using sem_inv_loop [OF sem_inv_enqueue [OF assms(1-3)], of st to t p st to m r] assms(4)
    by (simp add: down_common_def)
  show "r \<noteq> Returned 0"
    using assms(4) by (auto simp: down_common_def down_loop_def split: if_splits)
qed

lemma trylock_eq:
  "down_trylock m =
     (if 0 < count m \<and> unat (count m) \<le> 2 ^ 31 then (m\<lparr>count := count m - 1\<rparr>, 0) else (m, 1))"
proof (cases "count m = 0")
  case True
  then show ?thesis
    by (simp add: down_trylock_def)
next
  case False
  then have "unat (count m - 1) = unat (count m) - 1" and "0 < unat (count m)"
    using unat_dec [of "count m"] by (simp_all add: word_gt_0)
  then have "0 \<le> sint (count m - 1) \<longleftrightarrow> unat (count m) \<le> 2 ^ 31"
    by (simp add: sint_nonneg_iff) linarith
  then show ?thesis
    using False by (auto simp: down_trylock_def word_gt_0)
qed

lemma sem_exec_inv:
  assumes "sem_inv n s" and "sem_exec e s = Some s'"
  shows "sem_inv n s'"
proof (cases e)
  case (EDown c t p)
  then show ?thesis
    using assms sem_inv_take_task [OF assms(1), of t] sem_inv_common [OF assms(1), of t p]
    by (auto simp: sem_acquire_eq word_gt_0 split: prod.splits if_splits)
next
  case ETrylock
  then show ?thesis
    using assms sem_inv_take [OF assms(1)] by (auto simp: trylock_eq split: if_splits)
next
  case (EWake t elapsed p)
  then show ?thesis
    using assms sem_inv_loop [OF assms(1), of t p] sem_inv_stay [OF assms(1), of t Running]
    by (auto simp: down_resume_def split: down_pc.splits prod.splits if_splits)
next
  case EUp
  then show ?thesis
    using assms sem_inv_release [OF assms(1)] sem_inv_hand_over [OF assms(1)]
    by (cases "wait_list (sem s)") (auto simp: up_def up_contended_def)
qed

lemma sem_start_inv: "sem_inv (unat n) (sem_start n)"
  by (auto simp: sem_inv_def sem_start_def sema_init_def)

interpretation sema: event_system sem_exec "sem_inv (unat (n :: u32))" for n
  by unfold_locales (rule sem_exec_inv)

subsection \<open>Waiting is bounded\<close>

text \<open>A task waits at position \<open>length xs\<close> of the queue, in \<open>down\<close>.\<close>

definition queued_at :: "tid \<Rightarrow> nat \<Rightarrow> sem_sys \<Rightarrow> bool" where
  "queued_at t i s \<longleftrightarrow>
     pcs s t = Asleep TASK_UNINTERRUPTIBLE MAX_SCHEDULE_TIMEOUT False \<and>
     i < length (wait_list (sem s)) \<and> wait_list (sem s) ! i = t"

fun is_up :: "sem_event \<Rightarrow> bool" where
  "is_up EUp = True"
| "is_up _ = False"


lemma remove1_nth:
  "i < length xs \<Longrightarrow> xs ! i \<noteq> x \<Longrightarrow> \<exists>j\<le>i. j < length (remove1 x xs) \<and> remove1 x xs ! j = xs ! i"
proof (induction xs arbitrary: i)
  case Nil
  then show ?case
    by simp
next
  case (Cons y ys)
  show ?case
  proof (cases i)
    case 0
    then show ?thesis
      using Cons.prems by auto
  next
    case (Suc k)
    show ?thesis
    proof (cases "x = y")
      case True
      then show ?thesis
        using Suc Cons.prems by (intro exI [of _ k]) auto
    next
      case False
      from Cons.IH [of k] Suc Cons.prems obtain j where "j \<le> k" "j < length (remove1 x ys)"
        and "remove1 x ys ! j = ys ! k"
        by auto
      then show ?thesis
        using False Suc by (intro exI [of _ "Suc j"]) auto
    qed
  qed
qed

lemma queued_unlocked: "sem_inv n s \<Longrightarrow> queued_at t i s \<Longrightarrow> count (sem s) = 0"
  by (auto simp: sem_inv_def queued_at_def)

lemma uninterruptible [simp]: "\<not> signal_pending_state TASK_UNINTERRUPTIBLE p"
  by (simp add: signal_pending_state_def)

lemma queued_remove:
  assumes "queued_at t i s" and "u \<noteq> t"
  shows "\<exists>j\<le>i. queued_at t j (s\<lparr>sem := (sem s)\<lparr>wait_list := remove1 u (wait_list (sem s))\<rparr>, pcs := (pcs s)(u := pc)\<rparr>)"
  using remove1_nth [of i "wait_list (sem s)" u] assms by (auto simp: queued_at_def)

lemma queued_down:
  assumes "sem_inv n s" and "queued_at t i s" and "pcs s u = Running"
    and "sem_acquire c p u (sem s) = (m, r)" and "sem s' = m" and "pcs s' = (pcs s)(u := pc)"
  shows "queued_at t i s'"
proof -
  have "u \<notin> set (wait_list (sem s))" and "u \<noteq> t"
    using assms by (auto simp: sem_inv_def queued_at_def)
  then have "i < length (wait_list m) \<and> wait_list m ! i = wait_list (sem s) ! i"
    using assms(2,4) queued_unlocked [OF assms(1,2)]
    by (auto simp: sem_acquire_eq down_common_def down_loop_def queued_at_def nth_append remove1_append
        split: if_splits)
  then show ?thesis
    using assms(2,5,6) \<open>u \<noteq> t\<close> by (simp add: queued_at_def)
qed

lemma queued_wake:
  assumes "queued_at t i s" and "sem_exec (EWake u elapsed p) s = Some s'"
  shows "\<exists>j\<le>i. queued_at t j s'"
proof (cases "u = t")
  case True
  then show ?thesis
    using assms by (auto simp: queued_at_def down_resume_def down_loop_def schedule_timeout_def)
next
  case False
  obtain st to up where u: "pcs s u = Asleep st to up"
    using assms(2) by (auto split: down_pc.splits)
  have "\<exists>j\<le>i. queued_at t j (s\<lparr>pcs := (pcs s)(u := pc)\<rparr>)" for pc
    using assms(1) False by (auto simp: queued_at_def)
  then show ?thesis
    using assms(2) u queued_remove [OF assms(1) False]
      down_loop_cases [of p u "sem s" st "schedule_timeout to elapsed"]
    by (auto simp: down_resume_def split: if_splits)
qed

lemma queued_up:
  assumes "sem_inv n s" and "queued_at t i s" and "sem_exec EUp s = Some s'"
  shows "given t s' \<or> (\<exists>j<i. queued_at t j s')"
proof -
  obtain x xs where w: "wait_list (sem s) = x # xs"
    using assms(2) by (cases "wait_list (sem s)") (auto simp: queued_at_def)
  then have s': "s' = s\<lparr>sem := (sem s)\<lparr>wait_list := xs\<rparr>, ups := Suc (ups s), pcs := (pcs s)(x := set_up (pcs s x)), downs := Suc (downs s)\<rparr>"
    using assms(3) by (auto simp: up_def up_contended_def)
  show ?thesis
  proof (cases i)
    case 0
    then show ?thesis
      using assms(2) w s' by (auto simp: queued_at_def given_def)
  next
    case (Suc k)
    have "x \<noteq> t"
      using assms(1,2) w Suc by (auto simp: sem_inv_def queued_at_def)
    then show ?thesis
      using assms(2) w s' Suc by (auto simp: queued_at_def intro!: exI [of _ k])
  qed
qed

lemma queued_step:
  assumes "sem_inv n s" and "queued_at t i s" and "sem_exec e s = Some s'"
  shows "given t s' \<or> (\<exists>j. queued_at t j s' \<and> j + (if is_up e then 1 else 0) \<le> i)"
proof (cases e)
  case (EDown c u p)
  then show ?thesis
    using assms queued_down [OF assms(1,2), of u c p _ _ s'] by (fastforce split: prod.splits if_splits)
next
  case ETrylock
  then have "queued_at t i s'"
    using assms queued_unlocked [OF assms(1,2)] by (auto simp: trylock_eq queued_at_def)
  then show ?thesis
    using ETrylock by auto
next
  case (EWake u elapsed p)
  then show ?thesis
    using queued_wake [OF assms(2) assms(3) [unfolded EWake]] by auto
next
  case EUp
  then show ?thesis
    using queued_up [OF assms(1,2) assms(3) [unfolded EUp]] by fastforce
qed


interpretation sema_wait: bounded_response sem_exec "sem_inv (unat (n :: u32))" "queued_at t" "given t" "\<lambda>e _. is_up e" for n t
  by unfold_locales (rule queued_step)

lemma sem_run_ups: "sem_run es s = Some s' \<Longrightarrow> ups s' = ups s + length (filter is_up es)"
proof (induction es arbitrary: s)
  case (Cons e es)
  then obtain s1 where s1: "sem_exec e s = Some s1" "sem_run es s1 = Some s'"
    by (auto split: option.splits)
  then have "ups s1 = ups s + (if is_up e then 1 else 0)"
    by (cases e) (auto simp: Let_def split: if_splits prod.splits option.splits down_pc.splits)
  then show ?case
    using Cons.IH [OF s1(2)] by simp
qed simp

subsection \<open>Properties\<close>

text \<open>C12: The permits are conserved, however the operations of any tasks and interrupt handlers
  interleave, whoever calls \<open>up\<close>: as long as the count cannot have wrapped around, the count and the number
  of times the semaphore has been given to somebody add up to the initial count and the number of calls of
  \<open>up\<close>, so that it is never given more often than that. The queue holds exactly the tasks that wait, and
  no task waits while the count is positive.\<close>

theorem sem_permits_conserved:
  assumes "sem_run es (sem_start n) = Some s" and "unat n + length (filter is_up es) < 2 ^ 32"
  shows "unat (count (sem s)) + downs s = unat n + length (filter is_up es) \<and>
    set (wait_list (sem s)) = {t. waits (pcs s t)} \<and> (wait_list (sem s) \<noteq> [] \<longrightarrow> count (sem s) = 0)"
proof -
  have "ups s = length (filter is_up es)"
    using sem_run_ups [OF assms(1)] by (simp add: sem_start_def)
  then show ?thesis
    using sema.run_inv [OF assms(1) sem_start_inv] assms(2) by (auto simp: sem_inv_def)
qed

definition quiet :: sigs where
  "quiet = \<lparr>pending = False, fatal = False\<rparr>"

definition sample_run :: "sem_event list" where
  "sample_run = [EDown CallDown 1 quiet, EDown CallDown 2 quiet, EDown (CallTimeout 5) 3 quiet,
     EWake 3 9 quiet, EDown CallInterruptible 4 quiet, EUp]"

definition sample_end :: sem_sys where
  "sample_end = \<lparr>sem = \<lparr>count = 0, wait_list = [4]\<rparr>,
     pcs = ((\<lambda>_. Running)(2 := Asleep 2 MAX_SCHEDULE_TIMEOUT True, 4 := Asleep 1 MAX_SCHEDULE_TIMEOUT False)),
     downs = 2, ups = 1\<rparr>"

lemmas sem_eval = sem_acquire_eq down_common_def down_loop_def down_resume_def up_def up_contended_def
  trylock_eq signal_pending_state_def schedule_timeout_def sem_start_def sema_init_def quiet_def

lemma sample_run_eval: "sem_run sample_run (sem_start 1) = Some sample_end"
  by (auto simp: sample_run_def sample_end_def sem_eval fun_eq_iff)

theorem sem_permits_conserved_witness:
  "sem_run sample_run (sem_start 1) = Some sample_end \<and> unat (count (sem sample_end)) + downs sample_end = 2"
  using sem_permits_conserved [OF sample_run_eval] sample_run_eval by (simp add: sample_run_def)

text \<open>C14: Waiting is bounded and in order of arrival: a task that waits in \<open>down\<close> with
  \<open>i\<close> tasks before it in the queue is given the semaphore at the latest by the
  \<open>i + 1\<close>st call of \<open>up\<close>, whoever makes these calls, whatever the other tasks do meanwhile and
  however often it is woken without cause.\<close>

theorem sem_waiting_bounded:
  assumes "sem_run es0 (sem_start n) = Some s" and "queued_at t i s"
    and "sem_run es s = Some s'" and "i < length (filter is_up es)"
  shows "\<exists>es1 es2 s1. es = es1 @ es2 \<and> sem_run es1 s = Some s1 \<and> given t s1"
  using sema_wait.goal_within [OF assms(3) sema.run_inv [OF assms(1) sem_start_inv] assms(2)] assms(4)
  by (simp add: ticks_events [OF assms(3)])

text \<open>A semaphore without permits, on which two tasks wait for an interrupt handler.\<close>

definition sample_wait :: sem_sys where
  "sample_wait = \<lparr>sem = \<lparr>count = 0, wait_list = [1, 2]\<rparr>,
     pcs = ((\<lambda>_. Running)(1 := Asleep 2 MAX_SCHEDULE_TIMEOUT False, 2 := Asleep 2 MAX_SCHEDULE_TIMEOUT False)),
     downs = 0, ups = 0\<rparr>"

lemma sample_wait_eval:
  "sem_run [EDown CallDown 1 quiet, EDown CallDown 2 quiet] (sem_start 0) = Some sample_wait"
  by (auto simp: sample_wait_def sem_eval fun_eq_iff)

lemma sample_wait_up: "\<exists>s'. sem_run [EWake 2 7 quiet, EUp, ETrylock, EUp] sample_wait = Some s'"
  by (simp add: sample_wait_def sem_eval)

theorem sem_waiting_bounded_witness:
  "\<exists>es1 es2 s1. [EWake 2 7 quiet, EUp, ETrylock, EUp] = es1 @ es2 \<and> sem_run es1 sample_wait = Some s1 \<and> given 2 s1"
proof -
  obtain s' where s': "sem_run [EWake 2 7 quiet, EUp, ETrylock, EUp] sample_wait = Some s'"
    using sample_wait_up by blast
  show ?thesis
    by (rule sem_waiting_bounded [OF sample_wait_eval _ s', of 2 1]) (simp_all add: queued_at_def sample_wait_def)
qed

text \<open>What a sleeping operation can return. A task whose waiter has been given the
  semaphore returns 0 even if a signal is pending or its time is over; \<open>down\<close> returns nothing
  but 0; \<open>-EINTR\<close> and \<open>-ETIME\<close> are returned only by a task that was not given the
  semaphore, and then its waiter is off the queue and the semaphore otherwise unchanged.\<close>

theorem sem_wake_result:
  assumes "sem_run es (sem_start n) = Some s" and "pcs s t = Asleep state timeout granted"
    and "down_resume p t (sem s) granted state (schedule_timeout timeout elapsed) = (m, r)"
  shows "(granted \<longrightarrow> m = sem s \<and> r = Returned 0) \<and> (\<not> granted \<longrightarrow> r \<noteq> Returned 0) \<and>
    (state = TASK_UNINTERRUPTIBLE \<longrightarrow> r \<noteq> Returned (- EINTR)) \<and>
    (timeout = MAX_SCHEDULE_TIMEOUT \<longrightarrow> r \<noteq> Returned (- ETIME)) \<and>
    (r = Returned (- EINTR) \<or> r = Returned (- ETIME) \<longrightarrow>
       t \<in> set (wait_list (sem s)) \<and> m = (sem s)\<lparr>wait_list := filter (\<lambda>u. u \<noteq> t) (wait_list (sem s))\<rparr>)"
proof -
  have inv: "distinct (wait_list (sem s))" "t \<in> set (wait_list (sem s)) \<longleftrightarrow> waits (pcs s t)"
    using sema.run_inv [OF assms(1) sem_start_inv] by (simp_all add: sem_inv_def)
  then have rem: "remove1 t (wait_list (sem s)) = filter (\<lambda>u. u \<noteq> t) (wait_list (sem s))"
    by (simp add: distinct_remove1_removeAll removeAll_filter_not_eq eq_commute)
  have "(granted \<longrightarrow> m = sem s \<and> r = Returned 0) \<and> (\<not> granted \<longrightarrow> r \<noteq> Returned 0) \<and>
    (state = TASK_UNINTERRUPTIBLE \<longrightarrow> r \<noteq> Returned (- EINTR)) \<and>
    (timeout = MAX_SCHEDULE_TIMEOUT \<longrightarrow> r \<noteq> Returned (- ETIME))"
    using assms(3) by (auto simp: down_resume_def down_loop_def schedule_timeout_def split: if_splits)
  moreover have "r = Returned (- EINTR) \<or> r = Returned (- ETIME) \<longrightarrow>
        t \<in> set (wait_list (sem s)) \<and> m = (sem s)\<lparr>wait_list := filter (\<lambda>u. u \<noteq> t) (wait_list (sem s))\<rparr>"
    using assms(2,3) inv rem by (auto simp: down_resume_def down_loop_def split: if_splits)
  ultimately show ?thesis
    by blast
qed

theorem sem_wake_result_witness:
  "down_resume \<lparr>pending = True, fatal = False\<rparr> 4 (sem sample_end) False 1 (schedule_timeout MAX_SCHEDULE_TIMEOUT 3)
     = (\<lparr>count = 0, wait_list = []\<rparr>, Returned (- 4)) \<and> 4 \<in> set (wait_list (sem sample_end))"
proof -
  have pc: "pcs sample_end 4 = Asleep 1 MAX_SCHEDULE_TIMEOUT False"
    by (simp add: sample_end_def)
  have r: "down_resume \<lparr>pending = True, fatal = False\<rparr> 4 (sem sample_end) False 1
      (schedule_timeout MAX_SCHEDULE_TIMEOUT 3) = (\<lparr>count = 0, wait_list = []\<rparr>, Returned (- 4))"
    by (simp add: sample_end_def sem_eval)
  show ?thesis
    using sem_wake_result [OF sample_run_eval pc r] r by simp
qed

end
