(* ===== verification/Rwsem.thy ===== *)
theory Rwsem
  imports Kernel_Prelude
begin

text \<open>
  The reader/writer semaphore of \<open>lib/rwsem-spinlock.c\<close>. A step of the model is what a task
  does while it holds \<open>sem->wait_lock\<close>; a task that has to wait queues itself and sleeps
  until another task, releasing the lock, has set its \<open>waiter.task\<close> to \<open>NULL\<close>, which
  is how the lock is handed over.
\<close>

subsection \<open>Data\<close>

abbreviation (input) RWSEM_WAITING_FOR_READ :: u32 where "RWSEM_WAITING_FOR_READ \<equiv> 1"
abbreviation (input) RWSEM_WAITING_FOR_WRITE :: u32 where "RWSEM_WAITING_FOR_WRITE \<equiv> 2"

record rwsem_waiter =
  rw_task :: nat
  rw_flags :: u32

record rw_semaphore =
  activity :: int
  rw_wait_list :: "rwsem_waiter list"

definition init_rwsem :: rw_semaphore where
  "init_rwsem = \<lparr>activity = 0, rw_wait_list = []\<rparr>"

text \<open>\<open>rwsem_is_locked\<close>, with the outcome of the attempt to take the spin lock as an argument.\<close>

definition rwsem_is_locked :: "bool \<Rightarrow> rw_semaphore \<Rightarrow> int" where
  "rwsem_is_locked locked sem =
     (let ret = 1 in if locked then (if activity sem \<noteq> 0 then 1 else 0) else ret)"

subsection \<open>Waking up\<close>

text \<open>
  The loop that grants read locks to the front of the queue: the rest of the queue and the tasks
  woken, in their order.
\<close>

fun wake_readers :: "rwsem_waiter list \<Rightarrow> rwsem_waiter list \<times> nat list" where
  "wake_readers [] = ([], [])"
| "wake_readers (waiter # next) =
     (if rw_flags waiter AND RWSEM_WAITING_FOR_READ \<noteq> 0
      then let (rest, woken) = wake_readers next in (rest, rw_task waiter # woken)
      else (waiter # next, []))"

text \<open>
  \<open>__rwsem_do_wake\<close> returns the semaphore and the tasks whose \<open>waiter.task\<close> it cleared.
  Its callers have tested that the queue is not empty.
\<close>

definition grant_readers :: "rw_semaphore \<Rightarrow> rw_semaphore \<times> nat list" where
  "grant_readers sem =
     (let (rest, woken) = wake_readers (rw_wait_list sem)
      in (sem\<lparr>activity := activity sem + int (length woken), rw_wait_list := rest\<rparr>, woken))"

definition rwsem_do_wake :: "rw_semaphore \<Rightarrow> bool \<Rightarrow> rw_semaphore \<times> nat list" where
  "rwsem_do_wake sem wakewrite =
     (let waiter = hd (rw_wait_list sem)
      in if \<not> wakewrite
         then if rw_flags waiter AND RWSEM_WAITING_FOR_WRITE \<noteq> 0 then (sem, []) else grant_readers sem
         else if rw_flags waiter AND RWSEM_WAITING_FOR_WRITE \<noteq> 0
         then (sem\<lparr>activity := - 1, rw_wait_list := tl (rw_wait_list sem)\<rparr>, [rw_task waiter])
         else grant_readers sem)"

definition rwsem_wake_one_writer :: "rw_semaphore \<Rightarrow> rw_semaphore \<times> nat list" where
  "rwsem_wake_one_writer sem =
     (let waiter = hd (rw_wait_list sem)
      in (sem\<lparr>activity := - 1, rw_wait_list := tl (rw_wait_list sem)\<rparr>, [rw_task waiter]))"

subsection \<open>The operations\<close>

text \<open>The sleeping operations say whether the lock was granted at once.\<close>

definition down_read :: "nat \<Rightarrow> rw_semaphore \<Rightarrow> rw_semaphore \<times> bool" where
  "down_read tsk sem =
     (if 0 \<le> activity sem \<and> rw_wait_list sem = [] then (sem\<lparr>activity := activity sem + 1\<rparr>, True)
      else (sem\<lparr>rw_wait_list :=
              rw_wait_list sem @ [\<lparr>rw_task = tsk, rw_flags = RWSEM_WAITING_FOR_READ\<rparr>]\<rparr>, False))"

definition down_read_trylock :: "rw_semaphore \<Rightarrow> rw_semaphore \<times> int" where
  "down_read_trylock sem =
     (if 0 \<le> activity sem \<and> rw_wait_list sem = [] then (sem\<lparr>activity := activity sem + 1\<rparr>, 1)
      else (sem, 0))"

definition down_write_nested :: "nat \<Rightarrow> rw_semaphore \<Rightarrow> rw_semaphore \<times> bool" where
  "down_write_nested tsk sem =
     (if activity sem = 0 \<and> rw_wait_list sem = [] then (sem\<lparr>activity := - 1\<rparr>, True)
      else (sem\<lparr>rw_wait_list :=
              rw_wait_list sem @ [\<lparr>rw_task = tsk, rw_flags = RWSEM_WAITING_FOR_WRITE\<rparr>]\<rparr>, False))"

definition down_write :: "nat \<Rightarrow> rw_semaphore \<Rightarrow> rw_semaphore \<times> bool" where
  "down_write tsk sem = down_write_nested tsk sem"

definition down_write_trylock :: "rw_semaphore \<Rightarrow> rw_semaphore \<times> int" where
  "down_write_trylock sem =
     (if activity sem = 0 \<and> rw_wait_list sem = [] then (sem\<lparr>activity := - 1\<rparr>, 1) else (sem, 0))"

definition up_read :: "rw_semaphore \<Rightarrow> rw_semaphore \<times> nat list" where
  "up_read sem =
     (let sem = sem\<lparr>activity := activity sem - 1\<rparr>
      in if activity sem = 0 \<and> rw_wait_list sem \<noteq> [] then rwsem_wake_one_writer sem else (sem, []))"

definition up_write :: "rw_semaphore \<Rightarrow> rw_semaphore \<times> nat list" where
  "up_write sem =
     (let sem = sem\<lparr>activity := 0\<rparr>
      in if rw_wait_list sem \<noteq> [] then rwsem_do_wake sem True else (sem, []))"

definition downgrade_write :: "rw_semaphore \<Rightarrow> rw_semaphore \<times> nat list" where
  "downgrade_write sem =
     (let sem = sem\<lparr>activity := 1\<rparr>
      in if rw_wait_list sem \<noteq> [] then rwsem_do_wake sem False else (sem, []))"

subsection \<open>Tasks sharing the semaphore\<close>

datatype rw_mode = Rd | Wr

text \<open>
  A task is outside, waits for the lock (the flag says that its \<open>waiter.task\<close> has been
  cleared) or has come back from the operation with the lock.
\<close>

datatype rw_pc = RwOutside | RwWait rw_mode bool | RwHas rw_mode

record rw_sys =
  rwsem :: rw_semaphore
  rw_pcs :: "nat \<Rightarrow> rw_pc"

datatype rw_event =
    DownRead nat | DownReadTry nat | DownWrite nat | DownWriteTry nat
  | Resume nat           \<comment> \<open>a waiting task runs and looks at its \<open>waiter.task\<close>\<close>
  | UpRead nat | UpWrite nat | Downgrade nat

definition grant :: "nat list \<Rightarrow> (nat \<Rightarrow> rw_pc) \<Rightarrow> nat \<Rightarrow> rw_pc" where
  "grant woken pcs t =
     (if t \<in> set woken then (case pcs t of RwWait m _ \<Rightarrow> RwWait m True | pc \<Rightarrow> pc) else pcs t)"

fun rw_exec :: "rw_event \<Rightarrow> rw_sys \<Rightarrow> rw_sys option" where
  "rw_exec (DownRead t) s =
     (if rw_pcs s t = RwOutside
      then let (m, now) = down_read t (rwsem s)
           in Some \<lparr>rwsem = m, rw_pcs = (rw_pcs s)(t := if now then RwHas Rd else RwWait Rd False)\<rparr>
      else None)"
| "rw_exec (DownReadTry t) s =
     (if rw_pcs s t = RwOutside
      then let (m, r) = down_read_trylock (rwsem s)
           in Some \<lparr>rwsem = m, rw_pcs = (rw_pcs s)(t := if r = 1 then RwHas Rd else RwOutside)\<rparr>
      else None)"
| "rw_exec (DownWrite t) s =
     (if rw_pcs s t = RwOutside
      then let (m, now) = down_write t (rwsem s)
           in Some \<lparr>rwsem = m, rw_pcs = (rw_pcs s)(t := if now then RwHas Wr else RwWait Wr False)\<rparr>
      else None)"
| "rw_exec (DownWriteTry t) s =
     (if rw_pcs s t = RwOutside
      then let (m, r) = down_write_trylock (rwsem s)
           in Some \<lparr>rwsem = m, rw_pcs = (rw_pcs s)(t := if r = 1 then RwHas Wr else RwOutside)\<rparr>
      else None)"
| "rw_exec (Resume t) s =
     (case rw_pcs s t of
        RwWait m g \<Rightarrow> Some (s\<lparr>rw_pcs := (rw_pcs s)(t := if g then RwHas m else RwWait m g)\<rparr>)
      | _ \<Rightarrow> None)"
| "rw_exec (UpRead t) s =
     (if rw_pcs s t = RwHas Rd
      then let (m, woken) = up_read (rwsem s)
           in Some \<lparr>rwsem = m, rw_pcs = grant woken ((rw_pcs s)(t := RwOutside))\<rparr>
      else None)"
| "rw_exec (UpWrite t) s =
     (if rw_pcs s t = RwHas Wr
      then let (m, woken) = up_write (rwsem s)
           in Some \<lparr>rwsem = m, rw_pcs = grant woken ((rw_pcs s)(t := RwOutside))\<rparr>
      else None)"
| "rw_exec (Downgrade t) s =
     (if rw_pcs s t = RwHas Wr
      then let (m, woken) = downgrade_write (rwsem s)
           in Some \<lparr>rwsem = m, rw_pcs = grant woken ((rw_pcs s)(t := RwHas Rd))\<rparr>
      else None)"

abbreviation rw_run :: "rw_event list \<Rightarrow> rw_sys \<Rightarrow> rw_sys option" where
  "rw_run \<equiv> run_events rw_exec"

definition rw_start :: rw_sys where
  "rw_start = \<lparr>rwsem = init_rwsem, rw_pcs = \<lambda>_. RwOutside\<rparr>"

subsection \<open>The invariant\<close>

fun flag :: "rw_mode \<Rightarrow> u32" where
  "flag Rd = RWSEM_WAITING_FOR_READ"
| "flag Wr = RWSEM_WAITING_FOR_WRITE"

text \<open>The tasks that have the lock in a mode, including those that have not run since it was handed over.\<close>

definition has :: "rw_mode \<Rightarrow> (nat \<Rightarrow> rw_pc) \<Rightarrow> nat set" where
  "has m pcs = {t. pcs t = RwHas m \<or> pcs t = RwWait m True}"

text \<open>The queue holds exactly the tasks that wait, each once and with its mode.\<close>

definition queue_ok :: "rwsem_waiter list \<Rightarrow> (nat \<Rightarrow> rw_pc) \<Rightarrow> bool" where
  "queue_ok ws pcs \<longleftrightarrow>
     distinct (map rw_task ws) \<and>
     (\<forall>w\<in>set ws. \<exists>m. rw_flags w = flag m \<and> pcs (rw_task w) = RwWait m False) \<and>
     (\<forall>t m. pcs t = RwWait m False \<longrightarrow> (\<exists>w\<in>set ws. rw_task w = t))"

text \<open>The meaning of \<open>activity\<close> that \<open>rwsem-spinlock.h\<close> documents.\<close>

definition lock_ok :: "int \<Rightarrow> (nat \<Rightarrow> rw_pc) \<Rightarrow> bool" where
  "lock_ok a pcs \<longleftrightarrow>
     finite (has Rd pcs) \<and>
     (a = - 1 \<and> (\<exists>t. has Wr pcs = {t}) \<and> has Rd pcs = {} \<or> a = int (card (has Rd pcs)) \<and> has Wr pcs = {})"

text \<open>Nobody waits for a free lock, and behind readers the first in the queue is a writer.\<close>

definition front_ok :: "int \<Rightarrow> rwsem_waiter list \<Rightarrow> bool" where
  "front_ok a ws \<longleftrightarrow> ws = [] \<or> a \<noteq> 0 \<and> (0 < a \<longrightarrow> rw_flags (hd ws) = RWSEM_WAITING_FOR_WRITE)"

definition rw_inv :: "rw_sys \<Rightarrow> bool" where
  "rw_inv s \<longleftrightarrow>
     queue_ok (rw_wait_list (rwsem s)) (rw_pcs s) \<and> lock_ok (activity (rwsem s)) (rw_pcs s) \<and>
     front_ok (activity (rwsem s)) (rw_wait_list (rwsem s))"

lemma flag_simps [simp]:
  "flag m AND RWSEM_WAITING_FOR_READ \<noteq> 0 \<longleftrightarrow> m = Rd" "flag m AND RWSEM_WAITING_FOR_WRITE \<noteq> 0 \<longleftrightarrow> m = Wr"
  "flag m = flag m' \<longleftrightarrow> m = m'" "flag m = 2 \<longleftrightarrow> m = Wr"
  by (cases m; cases m'; simp)+

lemma wake_readers_eq:
  "wake_readers ws =
     (dropWhile (\<lambda>w. rw_flags w AND RWSEM_WAITING_FOR_READ \<noteq> 0) ws,
      map rw_task (takeWhile (\<lambda>w. rw_flags w AND RWSEM_WAITING_FOR_READ \<noteq> 0) ws))"
  by (induction ws) simp_all

lemma queue_ok_upd:
  assumes "queue_ok ws pcs" and "\<And>m. pcs t \<noteq> RwWait m False" and "\<And>m. pc \<noteq> RwWait m False"
  shows "queue_ok ws (pcs(t := pc))"
proof -
  have "rw_task w \<noteq> t" if "w \<in> set ws" for w
    using assms(1,2) that by (auto simp: queue_ok_def)
  then show ?thesis
    using assms by (auto simp: queue_ok_def)
qed

lemma queue_ok_append:
  assumes "queue_ok ws pcs" and "\<And>m. pcs t \<noteq> RwWait m False"
  shows "queue_ok (ws @ [\<lparr>rw_task = t, rw_flags = flag m\<rparr>]) (pcs(t := RwWait m False))"
proof -
  have "rw_task w \<noteq> t" if "w \<in> set ws" for w
    using assms(1,2) that by (auto simp: queue_ok_def)
  then show ?thesis
    using assms by (auto simp: queue_ok_def)
qed

lemma queue_ok_grant:
  assumes "queue_ok (us @ vs) pcs"
  shows "queue_ok vs (grant (map rw_task us) pcs)"
  unfolding queue_ok_def
proof (intro conjI ballI allI impI)
  show "distinct (map rw_task vs)"
    using assms by (simp add: queue_ok_def)
next
  fix w
  assume w: "w \<in> set vs"
  then have "rw_task w \<notin> set (map rw_task us)"
    using assms by (auto simp: queue_ok_def)
  then show "\<exists>m. rw_flags w = flag m \<and> grant (map rw_task us) pcs (rw_task w) = RwWait m False"
    using assms w by (auto simp: queue_ok_def grant_def)
next
  fix t m
  assume "grant (map rw_task us) pcs t = RwWait m False"
  then have "pcs t = RwWait m False" "t \<notin> set (map rw_task us)"
    by (auto simp: grant_def split: if_splits rw_pc.splits)
  then show "\<exists>w\<in>set vs. rw_task w = t"
    using assms by (fastforce simp: queue_ok_def)
qed

lemma has_grant:
  assumes "queue_ok (us @ vs) pcs"
  shows "has m (grant (map rw_task us) pcs) = has m pcs \<union> rw_task ` {u \<in> set us. rw_flags u = flag m}"
proof -
  have w: "\<exists>m. rw_flags u = flag m \<and> pcs (rw_task u) = RwWait m False" if "u \<in> set us" for u
    using assms that by (auto simp: queue_ok_def)
  show ?thesis
    using w by (fastforce simp: has_def grant_def split: if_splits rw_pc.splits)
qed

lemma grant_Nil [simp]: "grant [] pcs = pcs"
  by (simp add: grant_def fun_eq_iff)

lemma has_upd:
  "has m (pcs(t := pc)) = (if pc = RwHas m \<or> pc = RwWait m True then insert t (has m pcs) else has m pcs - {t})"
  by (auto simp: has_def)

text \<open>Handing the lock to the writer, or to all the readers, at the front of the queue.\<close>

definition sys_ok :: "int \<Rightarrow> rwsem_waiter list \<Rightarrow> (nat \<Rightarrow> rw_pc) \<Rightarrow> bool" where
  "sys_ok a ws pcs \<longleftrightarrow> queue_ok ws pcs \<and> lock_ok a pcs \<and> front_ok a ws"

lemma rw_inv_sys_ok: "rw_inv s \<longleftrightarrow> sys_ok (activity (rwsem s)) (rw_wait_list (rwsem s)) (rw_pcs s)"
  by (simp add: rw_inv_def sys_ok_def)

lemma grant_writer_ok:
  assumes "queue_ok (w # ws) pcs" and "rw_flags w = flag Wr" and "has Rd pcs = {}" and "has Wr pcs = {}"
  shows "sys_ok (- 1) ws (grant [rw_task w] pcs)"
  using queue_ok_grant [of "[w]" ws pcs] has_grant [of "[w]" ws pcs Rd] has_grant [of "[w]" ws pcs Wr] assms
  by (simp add: sys_ok_def lock_ok_def front_ok_def Collect_conv_if)

lemma queue_readers:
  assumes "queue_ok ws pcs" and "u \<in> set ws"
  shows "rw_flags u AND RWSEM_WAITING_FOR_READ \<noteq> 0 \<longleftrightarrow> rw_flags u = flag Rd"
    and "rw_flags u \<noteq> flag Rd \<longleftrightarrow> rw_flags u = flag Wr"
    and "rw_flags u AND RWSEM_WAITING_FOR_WRITE \<noteq> 0 \<longleftrightarrow> rw_flags u = flag Wr"
proof -
  obtain m where "rw_flags u = flag m"
    using assms by (auto simp: queue_ok_def)
  then show "rw_flags u AND RWSEM_WAITING_FOR_READ \<noteq> 0 \<longleftrightarrow> rw_flags u = flag Rd"
    and "rw_flags u \<noteq> flag Rd \<longleftrightarrow> rw_flags u = flag Wr"
    and "rw_flags u AND RWSEM_WAITING_FOR_WRITE \<noteq> 0 \<longleftrightarrow> rw_flags u = flag Wr"
    by (cases m; simp)+
qed

lemma grant_readers_eq:
  assumes "queue_ok (rw_wait_list sem) pcs"
  shows "grant_readers sem =
    (sem\<lparr>activity := activity sem + int (length (takeWhile (\<lambda>w. rw_flags w = flag Rd) (rw_wait_list sem))),
         rw_wait_list := dropWhile (\<lambda>w. rw_flags w = flag Rd) (rw_wait_list sem)\<rparr>,
     map rw_task (takeWhile (\<lambda>w. rw_flags w = flag Rd) (rw_wait_list sem)))"
proof -
  let ?P = "\<lambda>w. rw_flags w AND RWSEM_WAITING_FOR_READ \<noteq> 0"
  have "takeWhile ?P (rw_wait_list sem) = takeWhile (\<lambda>w. rw_flags w = flag Rd) (rw_wait_list sem)"
    and "dropWhile ?P (rw_wait_list sem) = dropWhile (\<lambda>w. rw_flags w = flag Rd) (rw_wait_list sem)"
    using queue_readers(1) [OF assms] by (auto cong: takeWhile_cong dropWhile_cong)
  then show ?thesis
    by (simp add: grant_readers_def wake_readers_eq)
qed

lemma grant_readers_ok:
  fixes ws :: "rwsem_waiter list"
  defines "us \<equiv> takeWhile (\<lambda>w. rw_flags w = flag Rd) ws" and "vs \<equiv> dropWhile (\<lambda>w. rw_flags w = flag Rd) ws"
  assumes q: "queue_ok ws pcs" and l: "lock_ok a pcs" "0 \<le> a" and n: "0 < a + int (length us) \<or> ws = []"
  shows "sys_ok (a + int (length us)) vs (grant (map rw_task us) pcs)"
proof -
  have ws: "ws = us @ vs"
    by (simp add: us_def vs_def)
  have qs: "queue_ok (us @ vs) pcs"
    using q ws by simp
  have rd: "rw_flags u = flag Rd" if "u \<in> set us" for u
    using that set_takeWhileD unfolding us_def by metis
  have e: "{u \<in> set us. rw_flags u = flag Rd} = set us" "{u \<in> set us. rw_flags u = flag Wr} = {}"
    using rd by fastforce+
  have h: "has Rd (grant (map rw_task us) pcs) = has Rd pcs \<union> set (map rw_task us)"
    and h': "has Wr (grant (map rw_task us) pcs) = has Wr pcs"
    using has_grant [OF qs, of Rd] has_grant [OF qs, of Wr] unfolding e by simp_all
  have disj: "has Rd pcs \<inter> set (map rw_task us) = {}"
  proof -
    have "\<exists>m. pcs (rw_task u) = RwWait m False" if "u \<in> set us" for u
      using qs that by (auto simp: queue_ok_def)
    then show ?thesis
      by (force simp: has_def)
  qed
  have d: "distinct (map rw_task us)"
    using qs by (simp add: queue_ok_def)
  have l': "finite (has Rd pcs)" "a = int (card (has Rd pcs))" "has Wr pcs = {}"
    using l by (auto simp: lock_ok_def)
  have "card (has Rd pcs \<union> set (map rw_task us)) = card (has Rd pcs) + length us"
    using card_Un_disjoint [OF l'(1) _ disj] distinct_card [OF d] by simp
  then have "lock_ok (a + int (length us)) (grant (map rw_task us) pcs)"
    unfolding lock_ok_def h h' using l' by simp
  moreover have "front_ok (a + int (length us)) vs"
  proof (cases "vs = []")
    case False
    have "rw_flags (hd vs) \<noteq> flag Rd"
      using hd_dropWhile [of "\<lambda>w. rw_flags w = flag Rd" ws] False unfolding vs_def by blast
    moreover have "hd vs \<in> set ws"
      using False unfolding ws by simp
    ultimately have "rw_flags (hd vs) = flag Wr"
      using queue_readers(2) [OF q] by blast
    moreover have "ws \<noteq> []"
      using False unfolding ws by simp
    ultimately show ?thesis
      using n unfolding front_ok_def by simp
  qed (simp add: front_ok_def)
  ultimately show ?thesis
    using queue_ok_grant [OF qs] by (simp add: sys_ok_def)
qed

lemma up_read_ok:
  assumes "sys_ok (activity sem) (rw_wait_list sem) pcs" and "pcs t = RwHas Rd" and "up_read sem = (m, woken)"
  shows "sys_ok (activity m) (rw_wait_list m) (grant woken (pcs(t := RwOutside)))"
proof -
  let ?pcs = "pcs(t := RwOutside)"
  have t: "t \<in> has Rd pcs"
    using assms(2) by (simp add: has_def)
  then have l: "activity sem = int (card (has Rd pcs))" "finite (has Rd pcs)" "has Wr ?pcs = {}"
    using assms(1) by (auto simp: sys_ok_def lock_ok_def has_upd)
  have pos: "0 < card (has Rd pcs)"
    using t l(2) by (auto simp: card_gt_0_iff)
  have q: "queue_ok (rw_wait_list sem) ?pcs"
    using assms(1,2) by (intro queue_ok_upd) (auto simp: sys_ok_def)
  have f: "finite (has Rd ?pcs)"
    using l(2) by (simp add: has_upd)
  have c: "int (card (has Rd ?pcs)) = activity sem - 1"
    using l t pos by (simp add: has_upd)
  show ?thesis
  proof (cases "activity sem = 1 \<and> rw_wait_list sem \<noteq> []")
    case True
    then obtain w ws where w: "rw_wait_list sem = w # ws"
      by (cases "rw_wait_list sem") auto
    have "has Rd ?pcs = {}"
      using c True l by (auto simp: has_upd)
    moreover have "rw_flags w = flag Wr"
      using assms(1) w True by (simp add: sys_ok_def front_ok_def)
    ultimately show ?thesis
      using grant_writer_ok [of w ws ?pcs] q l(3) w True assms(3)
      by (auto simp: up_read_def rwsem_wake_one_writer_def)
  next
    case False
    then have "front_ok (activity sem - 1) (rw_wait_list sem)"
      using assms(1) l pos by (auto simp: sys_ok_def front_ok_def)
    then show ?thesis
      using False q l f c assms(3)
      by (auto simp: up_read_def sys_ok_def lock_ok_def simp del: fun_upd_apply)
  qed
qed

lemma write_released:
  assumes "sys_ok (activity sem) (rw_wait_list sem) pcs" and "pcs t = RwHas Wr"
    and "pc = RwOutside \<or> pc = RwHas Rd"
  shows "queue_ok (rw_wait_list sem) (pcs(t := pc))"
    and "has Wr (pcs(t := pc)) = {}" and "has Rd (pcs(t := pc)) = (if pc = RwOutside then {} else {t})"
proof -
  have t: "t \<in> has Wr pcs"
    using assms(2) by (simp add: has_def)
  then show "has Wr (pcs(t := pc)) = {}" and "has Rd (pcs(t := pc)) = (if pc = RwOutside then {} else {t})"
    using assms by (auto simp: sys_ok_def lock_ok_def has_upd)
  show "queue_ok (rw_wait_list sem) (pcs(t := pc))"
    using assms by (intro queue_ok_upd) (auto simp: sys_ok_def)
qed

lemma up_write_ok:
  assumes "sys_ok (activity sem) (rw_wait_list sem) pcs" and "pcs t = RwHas Wr" and "up_write sem = (m, woken)"
  shows "sys_ok (activity m) (rw_wait_list m) (grant woken (pcs(t := RwOutside)))"
proof -
  let ?pcs = "pcs(t := RwOutside)"
  note r = write_released [OF assms(1,2), of RwOutside, simplified]
  have l: "lock_ok 0 ?pcs"
    using r by (simp add: lock_ok_def)
  show ?thesis
  proof (cases "rw_wait_list sem")
    case Nil
    then show ?thesis
      using r l assms(3) by (auto simp: up_write_def sys_ok_def front_ok_def)
  next
    case (Cons w ws)
    show ?thesis
    proof (cases "rw_flags w = flag Wr")
      case True
      then show ?thesis
        using grant_writer_ok [of w ws ?pcs] r Cons assms(3) by (auto simp: up_write_def rwsem_do_wake_def)
    next
      case False
      then have w: "rw_flags w = flag Rd" "rw_flags w AND RWSEM_WAITING_FOR_WRITE = 0"
        using queue_readers(2,3) [OF r(1), of w] Cons by auto
      then show ?thesis
        using grant_readers_ok [OF r(1) l] Cons assms(3) grant_readers_eq [of "sem\<lparr>activity := 0\<rparr>" ?pcs] r(1)
        by (simp add: up_write_def rwsem_do_wake_def Let_def)
    qed
  qed
qed

lemma downgrade_write_ok:
  assumes "sys_ok (activity sem) (rw_wait_list sem) pcs" and "pcs t = RwHas Wr"
    and "downgrade_write sem = (m, woken)"
  shows "sys_ok (activity m) (rw_wait_list m) (grant woken (pcs(t := RwHas Rd)))"
proof -
  let ?pcs = "pcs(t := RwHas Rd)"
  note r = write_released [OF assms(1,2), of "RwHas Rd", simplified]
  have l: "lock_ok 1 ?pcs"
    using r by (simp add: lock_ok_def)
  show ?thesis
  proof (cases "rw_wait_list sem = [] \<or> rw_flags (hd (rw_wait_list sem)) = flag Wr")
    case True
    then have "sys_ok 1 (rw_wait_list sem) ?pcs"
      using r l by (auto simp: sys_ok_def front_ok_def)
    moreover have "downgrade_write sem = (sem\<lparr>activity := 1\<rparr>, [])"
      using True by (auto simp: downgrade_write_def rwsem_do_wake_def Let_def)
    ultimately show ?thesis
      using assms(3) by auto
  next
    case False
    then have "rw_flags (hd (rw_wait_list sem)) AND RWSEM_WAITING_FOR_WRITE = 0"
      using queue_readers(3) [OF r(1), of "hd (rw_wait_list sem)"] by auto
    then show ?thesis
      using False grant_readers_ok [OF r(1) l] assms(3) grant_readers_eq [of "sem\<lparr>activity := 1\<rparr>" ?pcs] r(1)
      by (simp add: downgrade_write_def rwsem_do_wake_def Let_def) auto
  qed
qed


lemma down_ok:
  assumes "sys_ok (activity sem) (rw_wait_list sem) pcs" and "pcs t = RwOutside"
  shows "0 \<le> activity sem \<Longrightarrow> rw_wait_list sem = [] \<Longrightarrow>
      sys_ok (activity sem + 1) (rw_wait_list sem) (pcs(t := RwHas Rd))"
    and "activity sem = 0 \<Longrightarrow> rw_wait_list sem = [] \<Longrightarrow>
      sys_ok (- 1) (rw_wait_list sem) (pcs(t := RwHas Wr))"
    and "rw_wait_list sem \<noteq> [] \<or> activity sem \<noteq> 0 \<and> (m = Wr \<or> activity sem < 0) \<Longrightarrow>
      sys_ok (activity sem) (rw_wait_list sem @ [\<lparr>rw_task = t, rw_flags = flag m\<rparr>]) (pcs(t := RwWait m False))"
proof -
  have q: "queue_ok (rw_wait_list sem) pcs" and l: "lock_ok (activity sem) pcs"
    and f: "front_ok (activity sem) (rw_wait_list sem)"
    using assms(1) by (simp_all add: sys_ok_def)
  have t: "t \<notin> has Rd pcs" "t \<notin> has Wr pcs"
    using assms(2) by (simp_all add: has_def)
  have q': "queue_ok (rw_wait_list sem) (pcs(t := RwHas k))" for k
    using q assms(2) by (intro queue_ok_upd) auto
  show "sys_ok (activity sem + 1) (rw_wait_list sem) (pcs(t := RwHas Rd))"
    if "0 \<le> activity sem" "rw_wait_list sem = []"
    using that q' [of Rd] l t by (auto simp: sys_ok_def lock_ok_def front_ok_def has_upd)
  show "sys_ok (- 1) (rw_wait_list sem) (pcs(t := RwHas Wr))"
    if "activity sem = 0" "rw_wait_list sem = []"
    using that q' [of Wr] l t by (auto simp: sys_ok_def lock_ok_def front_ok_def has_upd)
  show "sys_ok (activity sem) (rw_wait_list sem @ [\<lparr>rw_task = t, rw_flags = flag m\<rparr>]) (pcs(t := RwWait m False))"
    if "rw_wait_list sem \<noteq> [] \<or> activity sem \<noteq> 0 \<and> (m = Wr \<or> activity sem < 0)"
    using that queue_ok_append [OF q, of t m] assms(2) l f t
    by (cases "rw_wait_list sem = []") (auto simp: sys_ok_def lock_ok_def front_ok_def has_upd)
qed

lemma rw_exec_inv:
  assumes "rw_inv s" and "rw_exec e s = Some s'"
  shows "rw_inv s'"
proof -
  let ?m = "rwsem s"
  have ok: "sys_ok (activity ?m) (rw_wait_list ?m) (rw_pcs s)"
    using assms(1) by (simp add: rw_inv_sys_ok)
  have stay: "sys_ok (activity ?m) (rw_wait_list ?m) ((rw_pcs s)(t := pc))"
    if "\<And>m. rw_pcs s t \<noteq> RwWait m False" "\<And>m. pc \<noteq> RwWait m False"
      "\<And>m. has m ((rw_pcs s)(t := pc)) = has m (rw_pcs s)" for t pc
    using ok queue_ok_upd [of "rw_wait_list ?m" "rw_pcs s" t pc] that by (simp add: sys_ok_def lock_ok_def)
  show ?thesis
  proof (cases e)
    case (DownRead t)
    then show ?thesis
      using assms(2) down_ok(1) [OF ok, of t] down_ok(3) [OF ok, of t Rd]
      by (auto simp: down_read_def rw_inv_sys_ok split: if_splits)
  next
    case (DownReadTry t)
    then show ?thesis
      using assms(2) down_ok(1) [OF ok, of t] ok
      by (auto simp: down_read_trylock_def rw_inv_sys_ok fun_upd_idem split: if_splits)
  next
    case (DownWrite t)
    then show ?thesis
      using assms(2) down_ok(2) [OF ok, of t] down_ok(3) [OF ok, of t Wr]
      by (auto simp: down_write_def down_write_nested_def rw_inv_sys_ok split: if_splits)
  next
    case (DownWriteTry t)
    then show ?thesis
      using assms(2) down_ok(2) [OF ok, of t] ok
      by (auto simp: down_write_trylock_def rw_inv_sys_ok fun_upd_idem split: if_splits)
  next
    case (Resume t)
    then obtain m g where t: "rw_pcs s t = RwWait m g"
      using assms(2) by (auto split: rw_pc.splits)
    have "has k ((rw_pcs s)(t := RwHas m)) = has k (rw_pcs s)" if g for k
      using t that by (auto simp: has_def)
    then show ?thesis
      using Resume t assms stay [of t "RwHas m"] by (cases g) (auto simp: rw_inv_sys_ok fun_upd_idem)
  next
    case (UpRead t)
    then show ?thesis
      using assms(2) up_read_ok [OF ok, of t] by (auto simp: rw_inv_sys_ok split: if_splits prod.splits)
  next
    case (UpWrite t)
    then show ?thesis
      using assms(2) up_write_ok [OF ok, of t] by (auto simp: rw_inv_sys_ok split: if_splits prod.splits)
  next
    case (Downgrade t)
    then show ?thesis
      using assms(2) downgrade_write_ok [OF ok, of t] by (auto simp: rw_inv_sys_ok split: if_splits prod.splits)
  qed
qed

lemma rw_start_inv: "rw_inv rw_start"
  by (simp add: rw_inv_def rw_start_def init_rwsem_def queue_ok_def lock_ok_def front_ok_def has_def)

interpretation rw: event_system rw_exec rw_inv
  by unfold_locales (rule rw_exec_inv)

subsection \<open>Waiting is bounded\<close>

definition rw_queued :: "nat \<Rightarrow> nat \<Rightarrow> rw_sys \<Rightarrow> bool" where
  "rw_queued t i s \<longleftrightarrow> i < length (rw_wait_list (rwsem s)) \<and> rw_task (rw_wait_list (rwsem s) ! i) = t"

definition has_lock :: "nat \<Rightarrow> rw_sys \<Rightarrow> bool" where
  "has_lock t s \<longleftrightarrow> t \<in> has Rd (rw_pcs s) \<or> t \<in> has Wr (rw_pcs s)"

text \<open>A release that leaves the lock free for the next in the queue.\<close>

fun frees_lock :: "rw_event \<Rightarrow> rw_sys \<Rightarrow> bool" where
  "frees_lock (UpWrite _) s = True"
| "frees_lock (UpRead _) s = (activity (rwsem s) = 1)"
| "frees_lock _ s = False"

text \<open>Every release wakes a prefix of the queue, and one that frees the lock a non-empty one.\<close>

lemma grant_readers_prefix:
  "\<exists>k. grant_readers sem = (sem\<lparr>activity := activity sem + int (min k (length (rw_wait_list sem))),
     rw_wait_list := drop k (rw_wait_list sem)\<rparr>, map rw_task (take k (rw_wait_list sem))) \<and>
   (rw_wait_list sem \<noteq> [] \<and> rw_flags (hd (rw_wait_list sem)) AND RWSEM_WAITING_FOR_READ \<noteq> 0 \<longrightarrow> 0 < k)"
proof -
  let ?P = "\<lambda>w. rw_flags w AND RWSEM_WAITING_FOR_READ \<noteq> 0"
  let ?k = "length (takeWhile ?P (rw_wait_list sem))"
  have "takeWhile ?P (rw_wait_list sem) = take ?k (rw_wait_list sem)"
    and "dropWhile ?P (rw_wait_list sem) = drop ?k (rw_wait_list sem)"
    by (rule takeWhile_eq_take, rule dropWhile_eq_drop)
  then show ?thesis
    unfolding grant_readers_def wake_readers_eq
    by (intro exI [of _ ?k]) (cases "rw_wait_list sem"; simp add: min_def length_takeWhile_le)
qed

lemma up_read_prefix:
  "\<exists>k. snd (up_read sem) = map rw_task (take k (rw_wait_list sem)) \<and>
       rw_wait_list (fst (up_read sem)) = drop k (rw_wait_list sem) \<and>
       (activity sem = 1 \<and> rw_wait_list sem \<noteq> [] \<longrightarrow> 0 < k)"
  by (cases "activity sem = 1 \<and> rw_wait_list sem \<noteq> []")
    (auto simp: up_read_def rwsem_wake_one_writer_def drop_Suc take_Suc intro: exI [of _ "Suc 0"] exI [of _ 0])

lemma do_wake_prefix:
  assumes "queue_ok (rw_wait_list sem) pcs" and "rw_wait_list sem \<noteq> []"
  shows "\<exists>k. snd (rwsem_do_wake sem wr) = map rw_task (take k (rw_wait_list sem)) \<and>
    rw_wait_list (fst (rwsem_do_wake sem wr)) = drop k (rw_wait_list sem) \<and> (wr \<longrightarrow> 0 < k)"
proof -
  let ?w = "hd (rw_wait_list sem)"
  have w: "rw_flags ?w AND RWSEM_WAITING_FOR_READ \<noteq> 0 \<or> rw_flags ?w AND RWSEM_WAITING_FOR_WRITE \<noteq> 0"
    using queue_readers [OF assms(1), of ?w] assms(2) by auto
  obtain k where "grant_readers sem = (sem\<lparr>activity := activity sem + int (min k (length (rw_wait_list sem))),
     rw_wait_list := drop k (rw_wait_list sem)\<rparr>, map rw_task (take k (rw_wait_list sem)))"
    and "rw_flags ?w AND RWSEM_WAITING_FOR_READ \<noteq> 0 \<longrightarrow> 0 < k"
    using grant_readers_prefix [of sem] assms(2) by blast
  then show ?thesis
    using w assms(2)
    by (cases "rw_flags ?w AND RWSEM_WAITING_FOR_WRITE \<noteq> 0"; cases wr)
      (auto simp: rwsem_do_wake_def Let_def drop_Suc take_Suc
        intro: exI [of _ "Suc 0"] exI [of _ 0] exI [of _ k])
qed

lemma queued_prefix:
  assumes "queue_ok (rw_wait_list (rwsem s)) pcs" and "rw_queued t i s"
    and "s' = \<lparr>rwsem = m, rw_pcs = grant (map rw_task (take k (rw_wait_list (rwsem s)))) pcs\<rparr>"
    and "rw_wait_list m = drop k (rw_wait_list (rwsem s))"
  shows "has_lock t s' \<or> k \<le> i \<and> rw_queued t (i - k) s'"
proof (cases "k \<le> i")
  case True
  then show ?thesis
    using assms(2-4) by (auto simp: rw_queued_def)
next
  case False
  let ?ws = "rw_wait_list (rwsem s)"
  have u: "?ws ! i \<in> set (take k ?ws)" "rw_task (?ws ! i) = t"
    using False assms(2) by (auto simp: rw_queued_def in_set_conv_nth)
  then have "rw_flags (?ws ! i) = flag Rd \<or> rw_flags (?ws ! i) = flag Wr"
    using queue_readers(2) [OF assms(1)] in_set_takeD by fast
  then show ?thesis
    using has_grant [of "take k ?ws" "drop k ?ws" pcs] assms(1,3) u by (auto simp: has_lock_def)
qed

lemma rw_queued_step:
  assumes "rw_inv s" and "rw_queued t i s" and "rw_exec e s = Some s'"
  shows "has_lock t s' \<or> (\<exists>j. rw_queued t j s' \<and> j + (if frees_lock e s then 1 else 0) \<le> i)"
proof -
  let ?m = "rwsem s" and ?ws = "rw_wait_list (rwsem s)"
  have ok: "sys_ok (activity ?m) ?ws (rw_pcs s)" and ne: "?ws \<noteq> []"
    using assms by (auto simp: rw_inv_sys_ok rw_queued_def)
  then have q: "queue_ok ?ws (rw_pcs s)"
    by (simp add: sys_ok_def)
  have grow: "rw_queued t i \<lparr>rwsem = sem, rw_pcs = pcs\<rparr>" if "rw_wait_list sem = ?ws \<or> (\<exists>w. rw_wait_list sem = ?ws @ [w])" for sem pcs
    using assms(2) that by (auto simp: rw_queued_def nth_append)
  have shrink: "has_lock t s' \<or> (\<exists>j. rw_queued t j s' \<and> j + (if frees_lock e s then 1 else 0) \<le> i)"
    if "queue_ok ?ws pcs" "s' = \<lparr>rwsem = fst r, rw_pcs = grant (snd r) pcs\<rparr>"
      "\<exists>k. snd r = map rw_task (take k ?ws) \<and> rw_wait_list (fst r) = drop k ?ws \<and> (frees_lock e s \<longrightarrow> 0 < k)"
    for r :: "rw_semaphore \<times> nat list" and pcs
    using queued_prefix [OF that(1) assms(2), of s' "fst r"] that(2,3) by fastforce
  show ?thesis
  proof (cases e)
    case (UpRead u)
    then have u: "rw_pcs s u = RwHas Rd"
      using assms(3) by (auto split: if_splits)
    have r: "queue_ok ?ws ((rw_pcs s)(u := RwOutside))"
      using u q by (intro queue_ok_upd) auto
    show ?thesis
      using shrink [OF r, of "up_read ?m"] UpRead u assms(3) up_read_prefix [of ?m] ne by (auto split: prod.splits)
  next
    case (UpWrite u)
    then have u: "rw_pcs s u = RwHas Wr"
      using assms(3) by (auto split: if_splits)
    note r = write_released(1) [OF ok u, of RwOutside, simplified]
    have "up_write ?m = rwsem_do_wake (?m\<lparr>activity := 0\<rparr>) True"
      using ne by (simp add: up_write_def)
    then show ?thesis
      using shrink [OF r, of "up_write ?m"] UpWrite u assms(3) do_wake_prefix [of "?m\<lparr>activity := 0\<rparr>" _ True] r ne
      by (auto split: prod.splits)
  next
    case (Downgrade u)
    then have u: "rw_pcs s u = RwHas Wr"
      using assms(3) by (auto split: if_splits)
    note r = write_released(1) [OF ok u, of "RwHas Rd", simplified]
    have "downgrade_write ?m = rwsem_do_wake (?m\<lparr>activity := 1\<rparr>) False"
      using ne by (simp add: downgrade_write_def)
    then show ?thesis
      using shrink [OF r, of "downgrade_write ?m"] Downgrade u assms(3) do_wake_prefix [of "?m\<lparr>activity := 1\<rparr>" _ False] r ne
      by (auto split: prod.splits)
  next
    case (Resume u)
    then have "rw_queued t i s'"
      using assms(2,3) by (auto simp: rw_queued_def split: rw_pc.splits)
    then show ?thesis
      using Resume by auto
  qed (use assms(3) grow in \<open>auto simp: down_read_def down_read_trylock_def down_write_def
        down_write_nested_def down_write_trylock_def split: if_splits intro!: exI [of _ i]\<close>)
qed

interpretation rw_wait: bounded_response rw_exec rw_inv "rw_queued t" "has_lock t" frees_lock for t
  by unfold_locales (rule rw_queued_step)

subsection \<open>Properties\<close>

text \<open>C8: In every state the tasks can reach, a task that may write excludes every other task,
  the activity count is the number of readers, or -1 for a writer, as its declaration says, and a
  task waits only while another one has the lock.\<close>

theorem rwsem_exclusion:
  assumes "rw_run es rw_start = Some s"
  shows "(has Wr (rw_pcs s) = {} \<or> has Rd (rw_pcs s) = {} \<and> card (has Wr (rw_pcs s)) = 1) \<and>
    activity (rwsem s) = (if has Wr (rw_pcs s) = {} then int (card (has Rd (rw_pcs s))) else - 1) \<and>
    (rw_wait_list (rwsem s) \<noteq> [] \<longrightarrow> has Rd (rw_pcs s) \<union> has Wr (rw_pcs s) \<noteq> {})"
  using rw.run_inv [OF assms rw_start_inv] by (auto simp: rw_inv_def lock_ok_def front_ok_def)

definition rw_sample :: "rw_event list" where
  "rw_sample = [DownWrite 1, DownRead 2, DownRead 3, DownWrite 4, DownRead 5, UpWrite 1]"

definition rw_sample_end :: rw_sys where
  "rw_sample_end =
     \<lparr>rwsem = \<lparr>activity = 2, rw_wait_list = [\<lparr>rw_task = 4, rw_flags = 2\<rparr>, \<lparr>rw_task = 5, rw_flags = 1\<rparr>]\<rparr>,
      rw_pcs = (\<lambda>_. RwOutside)(2 := RwWait Rd True, 3 := RwWait Rd True, 4 := RwWait Wr False, 5 := RwWait Rd False)\<rparr>"

lemmas rw_eval = down_read_def down_write_def down_write_nested_def up_write_def up_read_def
  rwsem_do_wake_def grant_readers_def rwsem_wake_one_writer_def grant_def rw_start_def init_rwsem_def Let_def

lemma rw_sample_eval: "rw_run rw_sample rw_start = Some rw_sample_end"
  by (auto simp: rw_sample_def rw_sample_end_def rw_eval fun_eq_iff)

theorem rwsem_exclusion_witness:
  "rw_run rw_sample rw_start = Some rw_sample_end \<and> has Wr (rw_pcs rw_sample_end) = {} \<and>
   card (has Rd (rw_pcs rw_sample_end)) = 2"
proof -
  have "has Wr (rw_pcs rw_sample_end) = {}"
    by (auto simp: has_def rw_sample_end_def)
  then show ?thesis
    using rwsem_exclusion [OF rw_sample_eval] rw_sample_eval by (simp add: rw_sample_end_def)
qed

text \<open>C10: Neither readers nor writers starve: a waiting task with \<open>i\<close> tasks before it in
  the queue has been given the lock at the latest when the lock has become free for the
  \<open>i + 1\<close>st time, whatever tasks arrive behind it.\<close>

theorem rwsem_waiting_bounded:
  assumes "rw_run es0 rw_start = Some s" and "rw_queued t i s"
    and "rw_run es s = Some s'" and "i < ticks rw_exec frees_lock es s"
  shows "\<exists>es1 es2 s1. es = es1 @ es2 \<and> rw_run es1 s = Some s1 \<and> has_lock t s1"
  using rw_wait.goal_within [OF assms(3) rw.run_inv [OF assms(1) rw_start_inv] assms(2,4)] .

theorem rwsem_waiting_bounded_witness:
  "\<exists>es1 es2 s1. [Resume 2, Resume 3, UpRead 2, UpRead 3] = es1 @ es2 \<and> rw_run es1 rw_sample_end = Some s1 \<and>
     has_lock 4 s1"
proof -
  have "\<exists>s'. rw_run [Resume 2, Resume 3, UpRead 2, UpRead 3] rw_sample_end = Some s'"
    by (simp add: rw_sample_end_def rw_eval)
  then obtain s' where s': "rw_run [Resume 2, Resume 3, UpRead 2, UpRead 3] rw_sample_end = Some s'"
    by blast
  show ?thesis
    by (rule rwsem_waiting_bounded [OF rw_sample_eval _ s', of 4 0])
      (simp_all add: rw_queued_def rw_sample_end_def rw_eval)
qed

text \<open>\<open>__rwsem_wake_one_writer\<close> does not look at what the task it wakes waits for,
  and need not: whenever the last reader releases the lock, the first task in the queue is a writer.\<close>

theorem rwsem_wakes_a_writer:
  assumes "rw_run es rw_start = Some s" and "rw_pcs s t = RwHas Rd" and "activity (rwsem s) = 1"
    and "rw_wait_list (rwsem s) = w # ws"
  shows "rw_exec (UpRead t) s = Some s' \<longrightarrow>
    has Rd (rw_pcs s') = {} \<and> has Wr (rw_pcs s') = {rw_task w} \<and> rw_wait_list (rwsem s') = ws"
proof
  assume e: "rw_exec (UpRead t) s = Some s'"
  have inv: "rw_inv s"
    using rw.run_inv [OF assms(1) rw_start_inv] .
  have m: "rwsem s' = (rwsem s)\<lparr>activity := - 1, rw_wait_list := ws\<rparr>"
    and pcs: "rw_pcs s' = grant [rw_task w] ((rw_pcs s)(t := RwOutside))"
    using e assms(2-4) by (auto simp: up_read_def rwsem_wake_one_writer_def)
  have "rw_inv s'"
    using rw_exec_inv [OF inv e] .
  then obtain u where u: "has Wr (rw_pcs s') = {u}" "has Rd (rw_pcs s') = {}"
    using m by (auto simp: rw_inv_def lock_ok_def)
  have "\<exists>k. rw_pcs s (rw_task w) = RwWait k False"
    using inv assms(4) by (auto simp: rw_inv_def queue_ok_def)
  then have "has_lock (rw_task w) s'"
    using pcs assms(2) by (auto simp: has_lock_def has_def grant_def) (metis rw_mode.exhaust)+
  then show "has Rd (rw_pcs s') = {} \<and> has Wr (rw_pcs s') = {rw_task w} \<and> rw_wait_list (rwsem s') = ws"
    using u m by (auto simp: has_lock_def)
qed

definition rw_sample2 :: "rw_event list" where
  "rw_sample2 = [DownRead 1, DownWrite 4, DownRead 5]"

definition rw_sample2_end :: rw_sys where
  "rw_sample2_end =
     \<lparr>rwsem = \<lparr>activity = 1, rw_wait_list = [\<lparr>rw_task = 4, rw_flags = 2\<rparr>, \<lparr>rw_task = 5, rw_flags = 1\<rparr>]\<rparr>,
      rw_pcs = (\<lambda>_. RwOutside)(1 := RwHas Rd, 4 := RwWait Wr False, 5 := RwWait Rd False)\<rparr>"

theorem rwsem_wakes_a_writer_witness:
  "\<exists>s'. rw_exec (UpRead 1) rw_sample2_end = Some s' \<and> has Wr (rw_pcs s') = {4}"
proof -
  have r: "rw_run rw_sample2 rw_start = Some rw_sample2_end"
    by (auto simp: rw_sample2_def rw_sample2_end_def rw_eval fun_eq_iff)
  have "\<exists>s'. rw_exec (UpRead 1) rw_sample2_end = Some s'"
    by (simp add: rw_sample2_end_def rw_eval)
  then show ?thesis
    using rwsem_wakes_a_writer [OF r, of 1 "\<lparr>rw_task = 4, rw_flags = 2\<rparr>" "[\<lparr>rw_task = 5, rw_flags = 1\<rparr>]"]
    by (auto simp: rw_sample2_end_def simp del: rw_exec.simps)
qed

end
