(* ===== verification/Sort.thy ===== *)
theory Sort
  imports Kernel_Prelude "HOL-Library.Multiset"
begin

text \<open>
  The heap sort of \<open>lib/sort.c\<close>. The code works on an array of bytes with offsets that are
  multiples of the element size; it is modelled so, with unsigned 32-bit offsets, and shown to
  implement a heap sort on the list of elements, which is shown to sort.
\<close>

subsection \<open>Swapping two elements\<close>

definition u32_swap :: "u8 list \<Rightarrow> nat \<Rightarrow> nat \<Rightarrow> int \<Rightarrow> u8 list option" where
  "u32_swap mem a b sz =
     do { t \<leftarrow> mem_read mem a 4; v \<leftarrow> mem_read mem b 4; mem \<leftarrow> mem_write mem a v; mem_write mem b t }"

function generic_swap :: "u8 list \<Rightarrow> nat \<Rightarrow> nat \<Rightarrow> int \<Rightarrow> u8 list option" where
  "generic_swap mem a b sz =
     do { t \<leftarrow> mem_read mem a 1;
          v \<leftarrow> mem_read mem b 1;
          mem \<leftarrow> mem_write mem a v;
          mem \<leftarrow> mem_write mem b t;
          if 0 < sz - 1 then generic_swap mem (a + 1) (b + 1) (sz - 1) else Some mem }"
  by pat_completeness auto
termination
  by (relation "measure (\<lambda>(_, _, _, sz). nat sz)") auto

declare generic_swap.simps [simp del]

type_synonym swap_func = "u8 list \<Rightarrow> nat \<Rightarrow> nat \<Rightarrow> int \<Rightarrow> u8 list option"
type_synonym cmp_func = "u8 list \<Rightarrow> u8 list \<Rightarrow> int"

subsection \<open>The sort\<close>

text \<open>The comparison function sees the bytes of the element a pointer points to.\<close>

definition element :: "u8 list \<Rightarrow> u32 \<Rightarrow> u32 \<Rightarrow> u8 list option" where
  "element base sz off = mem_read base (unat off) (unat sz)"

text \<open>
  The inner loop, which both phases run: \<open>n\<close> is the end of the heap, \<open>r\<close> the element
  that sinks.
\<close>

partial_function (option) sift_loop ::
    "cmp_func \<Rightarrow> swap_func \<Rightarrow> u32 \<Rightarrow> u32 \<Rightarrow> u8 list \<Rightarrow> u32 \<Rightarrow> u8 list option" where
  "sift_loop cmp_func swap_func sz n base r =
     (if r * 2 + sz < n
      then do { c \<leftarrow> (if r * 2 + sz < n - sz
                     then do { x \<leftarrow> element base sz (r * 2 + sz);
                               y \<leftarrow> element base sz (r * 2 + sz + sz);
                               Some (if cmp_func x y < 0 then r * 2 + sz + sz else r * 2 + sz) }
                     else Some (r * 2 + sz));
                x \<leftarrow> element base sz r;
                y \<leftarrow> element base sz c;
                if cmp_func x y \<ge> 0 then Some base
                else do { base \<leftarrow> swap_func base (unat r) (unat c) (sint sz);
                          sift_loop cmp_func swap_func sz n base c } }
      else Some base)"

partial_function (option) heapify_loop ::
    "cmp_func \<Rightarrow> swap_func \<Rightarrow> u32 \<Rightarrow> u32 \<Rightarrow> u8 list \<Rightarrow> u32 \<Rightarrow> u8 list option" where
  "heapify_loop cmp_func swap_func sz n base i =
     (if 0 \<le> sint i
      then do { base \<leftarrow> sift_loop cmp_func swap_func sz n base i;
                heapify_loop cmp_func swap_func sz n base (i - sz) }
      else Some base)"

partial_function (option) sort_loop ::
    "cmp_func \<Rightarrow> swap_func \<Rightarrow> u32 \<Rightarrow> u8 list \<Rightarrow> u32 \<Rightarrow> u8 list option" where
  "sort_loop cmp_func swap_func sz base i =
     (if 0 < sint i
      then do { base \<leftarrow> swap_func base 0 (unat i) (sint sz);
                base \<leftarrow> sift_loop cmp_func swap_func sz i base 0;
                sort_loop cmp_func swap_func sz base (i - sz) }
      else Some base)"

definition sort_array :: "u8 list \<Rightarrow> u32 \<Rightarrow> u32 \<Rightarrow> cmp_func \<Rightarrow> swap_func option \<Rightarrow> u8 list option" where
  "sort_array base num sz cmp_func swap_func =
     (let i = (num div 2 - 1) * sz;
          n = num * sz;
          swap = (case swap_func of Some f \<Rightarrow> f | None \<Rightarrow> if sz = 4 then u32_swap else generic_swap)
      in do { base \<leftarrow> heapify_loop cmp_func swap sz n base i;
              sort_loop cmp_func swap sz base (n - sz) })"

subsection \<open>Heap sort on a list of elements\<close>

abbreviation exchange :: "'a list \<Rightarrow> nat \<Rightarrow> nat \<Rightarrow> 'a list" where
  "exchange xs i j \<equiv> xs[i := xs ! j, j := xs ! i]"

definition big_child :: "('a \<Rightarrow> 'a \<Rightarrow> int) \<Rightarrow> nat \<Rightarrow> 'a list \<Rightarrow> nat \<Rightarrow> nat" where
  "big_child cmp n xs r =
     (if r * 2 + 2 < n \<and> cmp (xs ! (r * 2 + 1)) (xs ! (r * 2 + 2)) < 0 then r * 2 + 2 else r * 2 + 1)"

function sift :: "('a \<Rightarrow> 'a \<Rightarrow> int) \<Rightarrow> nat \<Rightarrow> 'a list \<Rightarrow> nat \<Rightarrow> 'a list" where
  "sift cmp n xs r =
     (if r * 2 + 1 < n
      then let c = big_child cmp n xs r
           in if cmp (xs ! r) (xs ! c) \<ge> 0 then xs else sift cmp n (exchange xs r c) c
      else xs)"
  by pat_completeness auto
termination
  by (relation "measure (\<lambda>(_, n, _, r). n - r)") (auto simp: big_child_def)

declare sift.simps [simp del]

primrec build_heap :: "('a \<Rightarrow> 'a \<Rightarrow> int) \<Rightarrow> nat \<Rightarrow> 'a list \<Rightarrow> nat \<Rightarrow> 'a list" where
  "build_heap cmp n xs 0 = xs"
| "build_heap cmp n xs (Suc i) = build_heap cmp n (sift cmp n xs i) i"

primrec drain_heap :: "('a \<Rightarrow> 'a \<Rightarrow> int) \<Rightarrow> 'a list \<Rightarrow> nat \<Rightarrow> 'a list" where
  "drain_heap cmp xs 0 = xs"
| "drain_heap cmp xs (Suc i) = drain_heap cmp (sift cmp (Suc i) (exchange xs 0 (Suc i)) 0) i"

definition heap_sort :: "('a \<Rightarrow> 'a \<Rightarrow> int) \<Rightarrow> 'a list \<Rightarrow> 'a list" where
  "heap_sort cmp xs = drain_heap cmp (build_heap cmp (length xs) xs (length xs div 2)) (length xs - 1)"

text \<open>Sinking only rearranges the elements of the heap.\<close>

lemma big_child_bounds:
  "r * 2 + 1 < n \<Longrightarrow> r < big_child cmp n xs r \<and> big_child cmp n xs r < n"
  by (simp add: big_child_def)

lemma set_exchange: "i < length xs \<Longrightarrow> j < length xs \<Longrightarrow> set (exchange xs i j) = set xs"
  by (metis mset_eq_setD mset_swap)

lemma length_sift [simp]: "length (sift cmp n xs r) = length xs"
  by (induction cmp n xs r rule: sift.induct) (subst sift.simps, simp add: Let_def)

lemma mset_sift: "n \<le> length xs \<Longrightarrow> mset (sift cmp n xs r) = mset xs"
proof (induction cmp n xs r rule: sift.induct)
  case (1 cmp n xs r)
  then show ?case
    using big_child_bounds [of r n cmp xs]
    by (subst sift.simps) (auto simp: Let_def mset_swap)
qed

lemma sift_beyond: "n \<le> i \<Longrightarrow> sift cmp n xs r ! i = xs ! i"
proof (induction cmp n xs r rule: sift.induct)
  case (1 cmp n xs r)
  then show ?case
    using big_child_bounds [of r n cmp xs]
    by (subst sift.simps) (auto simp: Let_def)
qed

lemma drop_sift: "drop n (sift cmp n xs r) = drop n xs"
  by (rule nth_equalityI) (simp_all add: sift_beyond)

lemma mset_take_sift: "n \<le> length xs \<Longrightarrow> mset (take n (sift cmp n xs r)) = mset (take n xs)"
proof -
  assume "n \<le> length xs"
  then have "mset (take n (sift cmp n xs r)) + mset (drop n xs) = mset (take n xs) + mset (drop n xs)"
    by (metis append_take_drop_id drop_sift mset_append mset_sift)
  then show ?thesis
    by simp
qed

lemma mset_build_heap: "n \<le> length xs \<Longrightarrow> mset (build_heap cmp n xs k) = mset xs"
  by (induction k arbitrary: xs) (simp_all add: mset_sift)

subsection \<open>The order of a comparison function\<close>

text \<open>
  What a caller promises of its comparison function, on the elements it sorts: the sign changes
  with the order of the arguments and "not greater" is transitive.
\<close>

locale comparator =
  fixes cmp :: "'a \<Rightarrow> 'a \<Rightarrow> int" and A :: "'a set"
  assumes cmp_sign: "a \<in> A \<Longrightarrow> b \<in> A \<Longrightarrow> cmp a b < 0 \<longleftrightarrow> 0 < cmp b a"
    and cmp_trans: "a \<in> A \<Longrightarrow> b \<in> A \<Longrightarrow> c \<in> A \<Longrightarrow> cmp a b \<le> 0 \<Longrightarrow> cmp b c \<le> 0 \<Longrightarrow> cmp a c \<le> 0"
begin

lemma cmp_flip: "a \<in> A \<Longrightarrow> b \<in> A \<Longrightarrow> 0 \<le> cmp a b \<longleftrightarrow> cmp b a \<le> 0"
  using cmp_sign [of a b] by linarith

lemma cmp_refl: "a \<in> A \<Longrightarrow> cmp a a = 0"
  using cmp_sign [of a a] by linarith

lemma ge_trans: "a \<in> A \<Longrightarrow> b \<in> A \<Longrightarrow> c \<in> A \<Longrightarrow> 0 \<le> cmp a b \<Longrightarrow> 0 \<le> cmp b c \<Longrightarrow> 0 \<le> cmp a c"
  using cmp_flip cmp_trans [of c b a] by simp

end

subsection \<open>Heaps\<close>

text \<open>
  The elements from \<open>k\<close> to \<open>n\<close> form a heap, apart from the order between \<open>r\<close> and its
  children; what is above \<open>r\<close> is not smaller than what is below it.
\<close>

definition child :: "nat \<Rightarrow> nat \<Rightarrow> bool" where
  "child i j \<longleftrightarrow> j = i * 2 + 1 \<or> j = i * 2 + 2"

definition heap :: "('a \<Rightarrow> 'a \<Rightarrow> int) \<Rightarrow> nat \<Rightarrow> nat \<Rightarrow> 'a list \<Rightarrow> bool" where
  "heap cmp k n xs \<longleftrightarrow> (\<forall>i j. k \<le> i \<longrightarrow> child i j \<longrightarrow> j < n \<longrightarrow> 0 \<le> cmp (xs ! i) (xs ! j))"

definition heap_but :: "('a \<Rightarrow> 'a \<Rightarrow> int) \<Rightarrow> nat \<Rightarrow> nat \<Rightarrow> 'a list \<Rightarrow> nat \<Rightarrow> bool" where
  "heap_but cmp k n xs r \<longleftrightarrow>
     (\<forall>i j. k \<le> i \<longrightarrow> i \<noteq> r \<longrightarrow> child i j \<longrightarrow> j < n \<longrightarrow> 0 \<le> cmp (xs ! i) (xs ! j)) \<and>
     (\<forall>p j. k \<le> p \<longrightarrow> child p r \<longrightarrow> child r j \<longrightarrow> j < n \<longrightarrow> 0 \<le> cmp (xs ! p) (xs ! j))"

lemma heap_butD:
  "heap_but cmp k n xs r \<Longrightarrow> k \<le> i \<Longrightarrow> i \<noteq> r \<Longrightarrow> child i j \<Longrightarrow> j < n \<Longrightarrow> 0 \<le> cmp (xs ! i) (xs ! j)"
  "heap_but cmp k n xs r \<Longrightarrow> k \<le> p \<Longrightarrow> child p r \<Longrightarrow> child r j \<Longrightarrow> j < n \<Longrightarrow> 0 \<le> cmp (xs ! p) (xs ! j)"
  by (simp_all add: heap_but_def)

lemma child_inj: "child i j \<Longrightarrow> child i' j \<Longrightarrow> i = i'"
  unfolding child_def by presburger

lemma child_less: "child i j \<Longrightarrow> i < j"
  by (auto simp: child_def)

lemma child_of_big: "child r (big_child cmp n xs r)"
  by (simp add: child_def big_child_def)

context comparator
begin

lemma big_child_max:
  assumes "set xs \<subseteq> A" and "n \<le> length xs" and "child r j" and "j < n"
  shows "0 \<le> cmp (xs ! big_child cmp n xs r) (xs ! j)"
proof -
  have j: "xs ! j \<in> A" and "xs ! (r * 2 + 1) \<in> A"
    using assms by (auto simp: child_def)
  moreover have "xs ! (r * 2 + 2) \<in> A" if "r * 2 + 2 < n"
    using assms that by auto
  ultimately show ?thesis
    using assms(3,4) cmp_refl [OF j] cmp_flip [of "xs ! (r * 2 + 2)" "xs ! (r * 2 + 1)"]
      cmp_flip [of "xs ! (r * 2 + 1)" "xs ! (r * 2 + 2)"]
    by (cases "r * 2 + 2 < n") (auto simp: child_def big_child_def not_less)
qed

lemma sink_step:
  assumes A: "set xs \<subseteq> A" and n: "n \<le> length xs" and h: "heap_but cmp k n xs r"
    and r: "k \<le> r" "r * 2 + 1 < n" and lt: "cmp (xs ! r) (xs ! big_child cmp n xs r) < 0"
  shows "heap_but cmp k n (exchange xs r (big_child cmp n xs r)) (big_child cmp n xs r)"
proof -
  let ?c = "big_child cmp n xs r"
  let ?ys = "exchange xs r ?c"
  have c: "r < ?c" "?c < n" "child r ?c"
    using big_child_bounds [OF r(2), of cmp xs] child_of_big by simp_all
  have ys: "?ys ! i = (if i = r then xs ! ?c else if i = ?c then xs ! r else xs ! i)" if "i < n" for i
    using that c n by (auto simp: nth_list_update)
  have "xs ! r \<in> A" "xs ! ?c \<in> A"
    using A n c by (auto simp: subset_code(1))
  then have top: "0 \<le> cmp (xs ! ?c) (xs ! r)"
    using lt cmp_sign by (simp add: less_imp_le)
  show ?thesis
    unfolding heap_but_def
  proof (intro conjI allI impI)
    fix i j
    assume ij: "k \<le> i" "i \<noteq> ?c" "child i j" "j < n"
    then have i: "i < n" "i < j"
      using child_less by force+
    consider "i = r" | "j = r" | "i \<noteq> r" "j \<noteq> r" "j \<noteq> ?c"
      using ij child_inj [OF c(3)] by blast
    then show "0 \<le> cmp (?ys ! i) (?ys ! j)"
    proof cases
      case 1
      then show ?thesis
        using ij i(2) ys [OF i(1)] ys [OF ij(4)] top big_child_max [OF A n, of r j] by (auto split: if_splits)
    next
      case 2
      then show ?thesis
        using ij i ys [OF i(1)] ys [OF ij(4)] heap_butD(2) [OF h, of i ?c] c by auto
    next
      case 3
      then show ?thesis
        using ij ys [OF i(1)] ys [OF ij(4)] heap_butD(1) [OF h, of i j] by auto
    qed
  next
    fix p j
    assume pj: "k \<le> p" "child p ?c" "child ?c j" "j < n"
    then have p: "p = r" and j: "?c < j"
      using child_inj c child_less by blast+
    then show "0 \<le> cmp (?ys ! p) (?ys ! j)"
      using ys [of p] ys [of j] c pj r heap_butD(1) [OF h, of ?c j] by auto
  qed
qed

lemma sift_heap:
  "set xs \<subseteq> A \<Longrightarrow> n \<le> length xs \<Longrightarrow> heap_but cmp k n xs r \<Longrightarrow> k \<le> r \<Longrightarrow> heap cmp k n (sift cmp n xs r)"
proof (induction "n - r" arbitrary: xs r rule: less_induct)
  case less
  let ?c = "big_child cmp n xs r"
  show ?case
  proof (cases "r * 2 + 1 < n \<and> cmp (xs ! r) (xs ! ?c) < 0")
    case True
    then have c: "r < ?c" "?c < n"
      using big_child_bounds [of r n cmp xs] by simp_all
    have "sift cmp n xs r = sift cmp n (exchange xs r ?c) ?c"
      using True by (subst sift.simps) (simp add: Let_def)
    moreover have "set (exchange xs r ?c) \<subseteq> A"
      using less.prems c by (simp add: set_exchange)
    ultimately show ?thesis
      using less.hyps [of ?c "exchange xs r ?c"] sink_step [of xs n k r] less.prems True c by simp
  next
    case False
    have "0 \<le> cmp (xs ! r) (xs ! j)" if "child r j" "j < n" for j
    proof -
      have "xs ! r \<in> A" "xs ! j \<in> A" "xs ! ?c \<in> A"
        using that child_less big_child_bounds [of r n cmp xs] less.prems
        by (auto simp: child_def subset_code(1))
      moreover have "0 \<le> cmp (xs ! r) (xs ! ?c)"
        using False that by (auto simp: child_def)
      ultimately show ?thesis
        using ge_trans big_child_max [OF less.prems(1,2) that] by blast
    qed
    moreover have "sift cmp n xs r = xs"
      using False by (subst sift.simps) (auto simp: Let_def)
    ultimately show ?thesis
      using less.prems(3) by (auto simp: heap_def heap_but_def)
  qed
qed

lemma set_sift: "n \<le> length xs \<Longrightarrow> set (sift cmp n xs r) = set xs"
  using mset_sift [of n xs cmp r] mset_eq_setD by blast

lemma build_heap_heap:
  "set xs \<subseteq> A \<Longrightarrow> n \<le> length xs \<Longrightarrow> heap cmp k n xs \<Longrightarrow>
   heap cmp 0 n (build_heap cmp n xs k) \<and> mset (build_heap cmp n xs k) = mset xs"
proof (induction k arbitrary: xs)
  case 0
  then show ?case
    by simp
next
  case (Suc k)
  have "heap_but cmp k n xs k"
    using Suc.prems(3) child_less by (fastforce simp: heap_def heap_but_def)
  then have "heap cmp k n (sift cmp n xs k)"
    using sift_heap Suc.prems by blast
  then show ?case
    using Suc.IH [of "sift cmp n xs k"] Suc.prems by (simp add: set_sift mset_sift)
qed

lemma heap_root:
  "set xs \<subseteq> A \<Longrightarrow> n \<le> length xs \<Longrightarrow> heap cmp 0 n xs \<Longrightarrow> j < n \<Longrightarrow> 0 \<le> cmp (xs ! 0) (xs ! j)"
proof (induction j rule: less_induct)
  case (less j)
  have A: "xs ! i \<in> A" if "i < n" for i
    using that less.prems by (auto simp: subset_code(1))
  show ?case
  proof (cases "j = 0")
    case True
    then show ?thesis
      using A [of 0] less.prems cmp_refl by simp
  next
    case False
    define i where "i = (j - 1) div 2"
    have i: "child i j" "i < j"
      using False unfolding i_def child_def by presburger+
    then have "0 \<le> cmp (xs ! 0) (xs ! i)" "0 \<le> cmp (xs ! i) (xs ! j)"
      using less by (auto simp: heap_def)
    then show ?thesis
      using ge_trans [of "xs ! 0" "xs ! i" "xs ! j"] A less.prems(4) i by simp
  qed
qed

text \<open>
  The second phase: the elements from \<open>Suc i\<close> on are in their final place.
\<close>

lemma drain_heap_sorts:
  "set xs \<subseteq> A \<Longrightarrow> i < length xs \<Longrightarrow> heap cmp 0 (Suc i) xs \<Longrightarrow>
   sorted_wrt (\<lambda>x y. cmp x y \<le> 0) (drop (Suc i) xs) \<Longrightarrow>
   \<forall>x\<in>set (take (Suc i) xs). \<forall>y\<in>set (drop (Suc i) xs). cmp x y \<le> 0 \<Longrightarrow>
   sorted_wrt (\<lambda>x y. cmp x y \<le> 0) (drain_heap cmp xs i) \<and> mset (drain_heap cmp xs i) = mset xs"
proof (induction i arbitrary: xs)
  case 0
  then show ?case
    by (cases xs) auto
next
  case (Suc i)
  let ?ys = "exchange xs 0 (Suc i)"
  let ?zs = "sift cmp (Suc i) ?ys 0"
  have "set ?ys = set xs"
    by (rule set_exchange) (use Suc.prems(2) in auto)
  then have A: "set ?ys \<subseteq> A" "set ?zs \<subseteq> A"
    using Suc.prems(1,2) by (simp_all add: set_sift)
  have "heap_but cmp 0 (Suc i) ?ys 0"
    using Suc.prems(2,3) by (auto simp: heap_def heap_but_def child_def nth_list_update)
  then have h: "heap cmp 0 (Suc i) ?zs"
    using sift_heap [OF A(1)] Suc.prems(2) by simp
  have dys: "drop (Suc i) ?ys = xs ! 0 # drop (Suc (Suc i)) xs"
    using Suc.prems(2) by (subst Cons_nth_drop_Suc [symmetric]) (auto simp: nth_list_update)
  have max: "cmp x (xs ! 0) \<le> 0" if x: "x \<in> set (take (Suc (Suc i)) xs)" for x
  proof -
    obtain j where "j < Suc (Suc i)" "x = xs ! j"
      using x Suc.prems(2) by (auto simp: in_set_conv_nth)
    moreover have "xs ! 0 \<in> A"
      using Suc.prems(1,2) by (cases xs) auto
    ultimately show ?thesis
      using heap_root [OF Suc.prems(1) _ Suc.prems(3), of j] Suc.prems(1,2) cmp_flip [of "xs ! 0" x]
      by (auto simp: subset_code(1))
  qed
  have tys: "set (take (Suc i) ?zs) \<subseteq> set (take (Suc (Suc i)) xs)"
  proof -
    have "set (take (Suc i) ?zs) = set (take (Suc i) ?ys)"
      using mset_take_sift [of "Suc i" ?ys cmp 0] Suc.prems(2) by (auto dest: mset_eq_setD)
    also have "\<dots> \<subseteq> set (take (Suc (Suc i)) xs)"
    proof
      fix x
      assume "x \<in> set (take (Suc i) ?ys)"
      then obtain j where "j < Suc i" "x = ?ys ! j"
        using Suc.prems(2) by (auto simp: in_set_conv_nth)
      then have "x = take (Suc (Suc i)) xs ! (if j = 0 then Suc i else j)"
        using Suc.prems(2) by (cases "xs = []") (auto simp: nth_list_update)
      then show "x \<in> set (take (Suc (Suc i)) xs)"
        using \<open>j < Suc i\<close> Suc.prems(2) by (simp only:) (rule nth_mem, simp)
    qed
    finally show ?thesis .
  qed
  have x0: "xs ! 0 \<in> set (take (Suc (Suc i)) xs)"
    using Suc.prems(2) by (cases xs) auto
  have "mset ?ys = mset xs"
    by (rule mset_swap) (use Suc.prems(2) in auto)
  then show ?case
    using Suc.IH [OF A(2) _ h] Suc.prems(2,4,5) dys max tys x0
    by (auto simp: drop_sift mset_sift)
qed

lemma heap_sort_sorts:
  assumes "set xs \<subseteq> A"
  shows "sorted_wrt (\<lambda>x y. cmp x y \<le> 0) (heap_sort cmp xs) \<and> mset (heap_sort cmp xs) = mset xs"
proof (cases "xs = []")
  case True
  then show ?thesis
    by (simp add: heap_sort_def)
next
  case False
  let ?ys = "build_heap cmp (length xs) xs (length xs div 2)"
  have "heap cmp (length xs div 2) (length xs) xs"
    by (auto simp: heap_def child_def)
  then have ys: "heap cmp 0 (length xs) ?ys" "mset ?ys = mset xs"
    using build_heap_heap [OF assms] by simp_all
  then have "length ?ys = length xs" "set ?ys \<subseteq> A"
    using assms mset_eq_length mset_eq_setD by blast+
  then show ?thesis
    using drain_heap_sorts [of ?ys "length xs - 1"] ys False by (simp add: heap_sort_def)
qed

end


subsection \<open>The code implements the heap sort on elements\<close>

definition swaps :: "nat \<Rightarrow> swap_func \<Rightarrow> bool" where
  "swaps e f \<longleftrightarrow>
     (\<forall>xs i j. (\<forall>x\<in>set xs. length x = e) \<longrightarrow> i < j \<longrightarrow> j < length xs \<longrightarrow>
        f (concat xs) (i * e) (j * e) (int e) = Some (concat (exchange xs i j)))"

lemma generic_swap_eq:
  "0 < n \<Longrightarrow> a + n \<le> b \<Longrightarrow> b + n \<le> length mem \<Longrightarrow>
   \<exists>mem'. generic_swap mem a b (int n) = Some mem' \<and> length mem' = length mem \<and>
     (\<forall>i<length mem. mem' ! i =
        (if a \<le> i \<and> i < a + n then mem ! (b + (i - a))
         else if b \<le> i \<and> i < b + n then mem ! (a + (i - b)) else mem ! i))"
proof (induction n arbitrary: a b mem)
  case 0
  then show ?case
    by simp
next
  case (Suc n)
  let ?m = "mem[a := mem ! b, b := mem ! a]"
  have step: "generic_swap mem a b (int (Suc n)) =
      (if 0 < n then generic_swap ?m (a + 1) (b + 1) (int n) else Some ?m)"
    using Suc.prems
    by (subst generic_swap.simps)
      (simp add: mem_read_def mem_write_def list_put_single take_Suc_conv_app_nth hd_drop_conv_nth take_Suc)
  show ?case
  proof (cases "n = 0")
    case True
    then show ?thesis
      using step Suc.prems by (auto simp: nth_list_update less_Suc_eq)
  next
    case False
    then obtain mem' where m: "generic_swap ?m (a + 1) (b + 1) (int n) = Some mem'" "length mem' = length mem"
      and nth: "\<And>i. i < length mem \<Longrightarrow> mem' ! i =
        (if a + 1 \<le> i \<and> i < a + 1 + n then ?m ! (b + 1 + (i - (a + 1)))
         else if b + 1 \<le> i \<and> i < b + 1 + n then ?m ! (a + 1 + (i - (b + 1))) else ?m ! i)"
      using Suc.IH [of "a + 1" "b + 1" ?m] Suc.prems by auto
    have "mem' ! i = (if a \<le> i \<and> i < a + Suc n then mem ! (b + (i - a))
         else if b \<le> i \<and> i < b + Suc n then mem ! (a + (i - b)) else mem ! i)" if i: "i < length mem" for i
    proof -
      have ab: "a < b" "a + n < b" "b < length mem"
        using Suc.prems by simp_all
      consider "i = a" | "i = b" | "a < i" "i \<le> a + n" | "b < i" "i \<le> b + n"
        | "i < a" | "a + n < i" "i < b" | "b + n < i"
        by linarith
      then show ?thesis
      proof cases
        case 3
        then have "b + 1 + (i - (a + 1)) = b + (i - a)" "b + (i - a) \<noteq> b" "b + (i - a) \<noteq> a"
          using ab by simp_all
        then show ?thesis
          using nth [OF i] 3 ab by simp
      next
        case 4
        then have "a + 1 + (i - (b + 1)) = a + (i - b)" "a + (i - b) \<noteq> b" "a + (i - b) \<noteq> a"
          using ab by simp_all
        then show ?thesis
          using nth [OF i] 4 ab by simp
      qed (use nth [OF i] ab i in simp_all)
    qed
    then show ?thesis
      using m step False by simp
  qed
qed


lemma swaps_write:
  assumes "\<forall>x\<in>set xs. length x = e" and "i < j" and "j < length xs"
  shows "\<exists>m. mem_write (concat xs) (i * e) (xs ! j) = Some m \<and>
    mem_write m (j * e) (xs ! i) = Some (concat (exchange xs i j))"
proof -
  have "\<forall>x\<in>set (xs[i := xs ! j]). length x = e"
    using assms set_update_subset_insert [of xs i "xs ! j"] by auto
  then show ?thesis
    using mem_write_concat [of xs e i "xs ! j"] mem_write_concat [of "xs[i := xs ! j]" e j "xs ! i"] assms
    by simp
qed

lemma swaps_u32: "swaps 4 u32_swap"
  unfolding swaps_def
proof (intro allI impI)
  fix xs :: "u8 list list" and i j
  assume a: "\<forall>x\<in>set xs. length x = 4" "i < j" "j < length xs"
  show "u32_swap (concat xs) (i * 4) (j * 4) (int 4) = Some (concat (exchange xs i j))"
    using swaps_write [OF a] mem_read_concat [OF a(1)] a by (auto simp: u32_swap_def)
qed

lemma swaps_generic:
  assumes "0 < e"
  shows "swaps e generic_swap"
  unfolding swaps_def
proof (intro allI impI)
  fix xs :: "u8 list list" and i j
  assume a: "\<forall>x\<in>set xs. length x = e" "i < j" "j < length xs"
  have le: "i * e + e \<le> j * e" "j * e + e \<le> length (concat xs)"
    using mult_le_mono1 [of "Suc i" j e] mult_le_mono1 [of "Suc j" "length xs" e] a
    by (simp_all add: length_concat_const [OF a(1)])
  obtain m where m: "generic_swap (concat xs) (i * e) (j * e) (int e) = Some m" "length m = length (concat xs)"
    and nth: "\<And>k. k < length (concat xs) \<Longrightarrow> m ! k =
        (if i * e \<le> k \<and> k < i * e + e then concat xs ! (j * e + (k - i * e))
         else if j * e \<le> k \<and> k < j * e + e then concat xs ! (i * e + (k - j * e)) else concat xs ! k)"
    using generic_swap_eq [OF assms le] by auto
  have len: "length (xs ! i) = e" "length (xs ! j) = e"
    using a by auto
  have r: "xs ! k = take e (drop (k * e) (concat xs))" if "k < length xs" for k
    using mem_read_concat [OF a(1) that] by (auto simp: mem_read_def split: if_splits)
  have "concat (exchange xs i j) = list_put (list_put (concat xs) (i * e) (xs ! j)) (j * e) (xs ! i)"
    using swaps_write [OF a] len le by (auto simp: mem_write_def split: if_splits)
  also have "\<dots> = m"
  proof (rule nth_equalityI)
    fix k
    assume "k < length (list_put (list_put (concat xs) (i * e) (xs ! j)) (j * e) (xs ! i))"
    then have k: "k < length (concat xs)"
      using le len by simp
    have "xs ! j ! (k - i * e) = concat xs ! (j * e + (k - i * e))" if "i * e \<le> k" "k < i * e + e"
      using r [OF a(3)] that le by simp
    moreover have "xs ! i ! (k - j * e) = concat xs ! (i * e + (k - j * e))" if "j * e \<le> k" "k < j * e + e"
      using r [of i] that le a by simp
    ultimately show "list_put (list_put (concat xs) (i * e) (xs ! j)) (j * e) (xs ! i) ! k = m ! k"
      using nth [OF k] k le len by (simp add: nth_list_put)
  qed (use m len le in simp)
  finally show "generic_swap (concat xs) (i * e) (j * e) (int e) = Some (concat (exchange xs i j))"
    using m by simp
qed

text \<open>Offsets: the \<open>k\<close>th element lies at \<open>k * e\<close>.\<close>

definition offs :: "nat \<Rightarrow> nat \<Rightarrow> u32" where
  "offs e k = of_nat (k * e)"

lemma offs_arith:
  "offs e k * 2 + of_nat e = offs e (k * 2 + 1)" "offs e k + of_nat e = offs e (k + 1)"
  "offs e (Suc k) - of_nat e = offs e k"
  by (simp_all add: offs_def algebra_simps)

lemma unat_offs: "k * e < 2 ^ 32 \<Longrightarrow> unat (offs e k) = k * e"
  by (simp add: offs_def unat_of_nat take_bit_nat_eq_self del: of_nat_mult)

lemma offs_less: "j * e < 2 ^ 32 \<Longrightarrow> k * e < 2 ^ 32 \<Longrightarrow> 0 < e \<Longrightarrow> offs e j < offs e k \<longleftrightarrow> j < k"
  by (simp add: word_less_nat_alt unat_offs)

lemma sint_offs: "k * e < 2 ^ 31 \<Longrightarrow> sint (offs e k) = int (k * e)"
  by (subst sint_small) (simp_all add: unat_offs flip: int_unat of_nat_less_iff [where 'a = int])

text \<open>
  An array of \<open>length xs\<close> elements of \<open>e\<close> bytes, small enough for the signed counters
  of the code, and a swap function that swaps elements.
\<close>

definition array_ok :: "nat \<Rightarrow> swap_func \<Rightarrow> u8 list list \<Rightarrow> bool" where
  "array_ok e swap xs \<longleftrightarrow>
     0 < e \<and> e < 2 ^ 31 \<and> length xs * e < 2 ^ 31 \<and> (\<forall>x\<in>set xs. length x = e) \<and> swaps e swap"

lemma array_ok_exchange:
  assumes "array_ok e swap xs" and "i < length xs" and "j < length xs"
  shows "array_ok e swap (exchange xs i j)"
  using assms set_exchange [OF assms(2,3)] by (simp add: array_ok_def)

lemma array_ok_sift:
  assumes "array_ok e swap xs" and "n \<le> length xs"
  shows "array_ok e swap (sift cmp n xs r)"
  using assms mset_eq_setD [OF mset_sift [OF assms(2)], of cmp r] by (simp add: array_ok_def)

lemma array_ok_swap:
  assumes "array_ok e swap xs" and "i < j" and "j < length xs"
  shows "swap (concat xs) (i * e) (j * e) (int e) = Some (concat (exchange xs i j))"
  using assms by (simp add: array_ok_def swaps_def)

lemma array_bound: "array_ok e swap xs \<Longrightarrow> k \<le> 2 * length xs \<Longrightarrow> k * e < 2 ^ 32"
proof -
  assume "array_ok e swap xs" and k: "k \<le> 2 * length xs"
  then have "2 * (length xs * e) < 2 ^ 32"
    by (simp add: array_ok_def mult.commute)
  moreover have "k * e \<le> 2 * (length xs * e)"
    using mult_le_mono1 [OF k, of e] by (simp only: mult.assoc)
  ultimately show ?thesis
    by (rule le_less_trans [rotated])
qed

lemma array_offs:
  assumes "array_ok e swap xs"
  shows "k \<le> 2 * length xs \<Longrightarrow> unat (offs e k) = k * e"
    and "j \<le> 2 * length xs \<Longrightarrow> k \<le> 2 * length xs \<Longrightarrow> offs e j < offs e k \<longleftrightarrow> j < k"
    and "unat (of_nat e :: u32) = e" and "sint (of_nat e :: u32) = int e"
    and "k \<le> length xs \<Longrightarrow> sint (offs e k) = int (k * e)"
proof -
  note e = assms [unfolded array_ok_def]
  show "unat (offs e k) = k * e" if "k \<le> 2 * length xs"
    using unat_offs array_bound [OF assms that] by blast
  show "offs e j < offs e k \<longleftrightarrow> j < k" if "j \<le> 2 * length xs" "k \<le> 2 * length xs"
    using offs_less [of j e k] array_bound [OF assms] that e by blast
  show "unat (of_nat e :: u32) = e" "sint (of_nat e :: u32) = int e"
    using e unat_offs [of 1 e] sint_offs [of 1 e] by (simp_all add: offs_def)
  show "sint (offs e k) = int (k * e)" if "k \<le> length xs"
    using sint_offs [of k e] le_less_trans [OF mult_le_mono1 [OF that, of e]] e by blast
qed

lemma array_element:
  assumes "array_ok e swap xs" and "k < length xs"
  shows "element (concat xs) (of_nat e) (offs e k) = Some (xs ! k)"
  using assms array_offs(1,3) [OF assms(1)] mem_read_concat [of xs e k]
  by (simp add: element_def array_ok_def)

lemma sift_loop_eq:
  "array_ok e swap xs \<Longrightarrow> n \<le> length xs \<Longrightarrow> r < n \<Longrightarrow>
   sift_loop cmp swap (of_nat e) (offs e n) (concat xs) (offs e r) = Some (concat (sift cmp n xs r))"
proof (induction "n - r" arbitrary: xs r rule: less_induct)
  case less
  note ok = less.prems(1) and offs = array_offs [OF less.prems(1)] and el = array_element [OF less.prems(1)]
  let ?c = "big_child cmp n xs r"
  have top: "offs e n - of_nat e = offs e (n - 1)"
    using less.prems(3) offs_arith(3) [of e "n - 1"] by simp
  have two: "offs e (r * 2 + 1) + of_nat e = offs e (r * 2 + 2)"
    using offs_arith(2) [of e "r * 2 + 1"] by simp
  have lt: "offs e (r * 2 + 1) < offs e n \<longleftrightarrow> r * 2 + 1 < n"
    and lt2: "offs e (r * 2 + 1) < offs e (n - 1) \<longleftrightarrow> r * 2 + 2 < n"
    using less.prems offs(2) by auto
  show ?case
  proof (cases "r * 2 + 1 < n")
    case False
    then show ?thesis
      using lt by (subst sift_loop.simps, subst sift.simps) (simp add: offs_arith)
  next
    case True
    then have c: "r < ?c" "?c < n" "?c < length xs"
      using big_child_bounds [of r n cmp xs] less.prems(2) by simp_all
    have pick: "(if offs e (r * 2 + 1) < offs e (n - 1)
        then do { x \<leftarrow> element (concat xs) (of_nat e) (offs e (r * 2 + 1));
                  y \<leftarrow> element (concat xs) (of_nat e) (offs e (r * 2 + 2));
                  Some (if cmp x y < 0 then offs e (r * 2 + 2) else offs e (r * 2 + 1)) }
        else Some (offs e (r * 2 + 1))) = Some (offs e ?c)"
      using lt2 el less.prems(2) by (auto simp: big_child_def)
    have sw: "swap (concat xs) (r * e) (?c * e) (int e) = Some (concat (exchange xs r ?c))"
      using array_ok_swap [OF ok c(1,3)] .
    have rec: "sift_loop cmp swap (of_nat e) (offs e n) (concat (exchange xs r ?c)) (offs e ?c)
        = Some (concat (sift cmp n (exchange xs r ?c) ?c))"
      using less.hyps [of ?c "exchange xs r ?c"] array_ok_exchange [OF ok] c less.prems by simp
    have u: "unat (offs e r) = r * e" "unat (offs e ?c) = ?c * e"
      using offs(1) c less.prems(2) by simp_all
    have "sift_loop cmp swap (of_nat e) (offs e n) (concat xs) (offs e r) =
        do { c \<leftarrow> Some (offs e ?c);
             x \<leftarrow> element (concat xs) (of_nat e) (offs e r);
             y \<leftarrow> element (concat xs) (of_nat e) c;
             if cmp x y \<ge> 0 then Some (concat xs)
             else do { base \<leftarrow> swap (concat xs) (unat (offs e r)) (unat c) (sint (of_nat e :: u32));
                       sift_loop cmp swap (of_nat e) (offs e n) base c } }"
      using True by (subst sift_loop.simps) (simp only: offs_arith(1) top two lt pick if_True)
    then show ?thesis
      using True c sw rec u el [of r] el [of ?c] less.prems(2) offs(4)
      by (subst sift.simps) (simp add: Let_def)
  qed
qed

lemma neg_size:
  assumes "0 < e" and "e < 2 ^ 31"
  shows "sint (- (of_nat e :: u32)) < 0"
proof -
  have e: "unat (of_nat e :: u32) = e"
    using unat_offs [of 1 e] assms by (simp add: offs_def)
  have "\<not> unat (- (of_nat e :: u32)) < 2 ^ 31"
  proof
    assume "unat (- (of_nat e :: u32)) < 2 ^ 31"
    then have "unat (- (of_nat e :: u32) + of_nat e) = unat (- (of_nat e :: u32)) + e"
      using e assms by (subst unat_word_ariths(1)) simp
    then show False
      using assms(1) by simp
  qed
  then show ?thesis
    using sint_nonneg_iff [of "- (of_nat e :: u32)"] by (simp add: not_le)
qed

lemma heapify_loop_eq:
  "array_ok e swap xs \<Longrightarrow> n \<le> length xs \<Longrightarrow> k \<le> n \<Longrightarrow>
   heapify_loop cmp swap (of_nat e) (offs e n) (concat xs) (offs e k - of_nat e) = Some (concat (build_heap cmp n xs k))"
proof (induction k arbitrary: xs)
  case 0
  then show ?case
    using neg_size [of e] by (subst heapify_loop.simps) (simp add: array_ok_def offs_def not_le)
next
  case (Suc k)
  have "0 \<le> sint (offs e k)"
    using array_offs(5) [OF Suc.prems(1), of k] Suc.prems by simp
  then show ?case
    using Suc.IH [OF array_ok_sift [OF Suc.prems(1,2)]] Suc.prems sift_loop_eq [OF Suc.prems(1,2), of k cmp]
    by (subst heapify_loop.simps) (simp add: offs_arith(3))
qed

lemma sort_loop_eq:
  "array_ok e swap xs \<Longrightarrow> k < length xs \<Longrightarrow>
   sort_loop cmp swap (of_nat e) (concat xs) (offs e k) = Some (concat (drain_heap cmp xs k))"
proof (induction k arbitrary: xs)
  case 0
  then show ?case
    by (subst sort_loop.simps) (simp add: offs_def)
next
  case (Suc k)
  let ?ys = "exchange xs 0 (Suc k)"
  have ok: "array_ok e swap ?ys"
    by (rule array_ok_exchange [OF Suc.prems(1)]) (use Suc.prems(2) in auto)
  have "0 < sint (offs e (Suc k))"
    using array_offs(5) [OF Suc.prems(1), of "Suc k"] Suc.prems by (simp add: array_ok_def add_pos_nonneg)
  moreover have "swap (concat xs) 0 (unat (offs e (Suc k))) (int e) = Some (concat ?ys)"
    using array_ok_swap [OF Suc.prems(1), of 0 "Suc k"] array_offs(1) [OF Suc.prems(1), of "Suc k"] Suc.prems(2) by simp
  moreover have "sift_loop cmp swap (of_nat e) (offs e (Suc k)) (concat ?ys) 0 = Some (concat (sift cmp (Suc k) ?ys 0))"
    using sift_loop_eq [OF ok, of "Suc k" 0 cmp] Suc.prems(2) by (simp add: offs_def)
  moreover have "sort_loop cmp swap (of_nat e) (concat (sift cmp (Suc k) ?ys 0)) (offs e k) =
      Some (concat (drain_heap cmp (sift cmp (Suc k) ?ys 0) k))"
    using Suc.IH [OF array_ok_sift [OF ok]] Suc.prems(2) by simp
  ultimately show ?case
    using array_offs(4) [OF Suc.prems(1)]
    by (subst sort_loop.simps) (simp add: offs_arith(3))
qed


lemma sort_array_eq:
  assumes "array_ok e swap xs" and "unat num = length xs"
    and "case swap_func of Some f \<Rightarrow> swap = f | None \<Rightarrow> swap = (if e = 4 then u32_swap else generic_swap)"
  shows "sort_array (concat xs) num (of_nat e) cmp swap_func = Some (concat (heap_sort cmp xs))"
proof -
  have e4: "(of_nat e :: u32) = 4 \<longleftrightarrow> e = 4"
    using array_offs(3) [OF assms(1)] by (auto simp: word_unat_eq_iff)
  have num: "num = of_nat (length xs)"
    using assms(2) by (simp flip: assms(2))
  have half: "num div 2 = of_nat (length xs div 2)"
  proof -
    have "length xs div 2 < 2 ^ 32"
      using unat_less_u32 [of num] assms(2) by simp
    then have "unat (of_nat (length xs div 2) :: u32) = length xs div 2"
      by (simp add: unat_of_nat take_bit_nat_eq_self)
    then show ?thesis
      using assms(2) by (simp add: word_unat_eq_iff unat_div)
  qed
  have i: "(num div 2 - 1) * of_nat e = offs e (length xs div 2) - of_nat e"
    by (simp add: half offs_def algebra_simps)
  have n: "num * of_nat e = offs e (length xs)"
    by (simp add: num offs_def)
  let ?ys = "build_heap cmp (length xs) xs (length xs div 2)"
  have h: "heapify_loop cmp swap (of_nat e) (offs e (length xs)) (concat xs) (offs e (length xs div 2) - of_nat e)
      = Some (concat ?ys)"
    by (rule heapify_loop_eq [OF assms(1)]) simp_all
  have sw: "(case swap_func of None \<Rightarrow> if (of_nat e :: u32) = 4 then u32_swap else generic_swap | Some f \<Rightarrow> f) = swap"
    using assms(3) e4 by (auto split: option.splits)
  have "sort_loop cmp swap (of_nat e) (concat ?ys) (offs e (length xs) - of_nat e) = Some (concat (heap_sort cmp xs))"
  proof (cases "length xs")
    case 0
    then show ?thesis
      using neg_size [of e] assms(1)
      by (subst sort_loop.simps) (simp add: array_ok_def offs_def heap_sort_def)
  next
    case (Suc k)
    have "mset ?ys = mset xs"
      by (rule mset_build_heap) simp
    then have "array_ok e swap ?ys" "length ?ys = length xs"
      using assms(1) mset_eq_setD mset_eq_length by (metis array_ok_def)+
    then show ?thesis
      using sort_loop_eq [of e swap ?ys k cmp] Suc by (simp add: offs_arith(3) heap_sort_def)
  qed
  then show ?thesis
    unfolding sort_array_def Let_def sw i n h by simp
qed


text \<open>
  \<open>sort\<close> with the swap function it chooses itself, for any order on the elements: it
  returns, and the array then holds the same elements in order.
\<close>

lemma sort_array_default:
  assumes "0 < e" and "e < 2 ^ 31" and "length xs * e < 2 ^ 31" and "\<forall>x\<in>set xs. length x = e"
    and "unat num = length xs"
  shows "sort_array (concat xs) num (of_nat e) cmp None = Some (concat (heap_sort cmp xs))"
proof -
  have "swaps e (if e = 4 then u32_swap else generic_swap)"
    using swaps_u32 swaps_generic [OF assms(1)] by simp
  then show ?thesis
    using sort_array_eq [of e _ xs num None] assms by (simp add: array_ok_def)
qed

text \<open>The same for records that are laid out in \<open>e\<close> bytes each.\<close>

lemma sort_records:
  assumes "comparator cmp A" and "enc ` set es \<subseteq> A" and "\<And>r. length (enc r) = e" and "\<And>r. dec (enc r) = r"
    and "0 < e" and "e < 2 ^ 31" and "length es * e < 2 ^ 31"
  shows "\<exists>fs. sort_array (concat (map enc es)) (of_nat (length es)) (of_nat e) cmp None = Some (concat (map enc fs)) \<and>
    mset fs = mset es \<and> sorted_wrt (\<lambda>x y. cmp (enc x) (enc y) \<le> 0) fs"
proof -
  let ?xs = "map enc es"
  let ?ys = "heap_sort cmp ?xs"
  let ?fs = "map dec ?ys"
  have ys: "sorted_wrt (\<lambda>x y. cmp x y \<le> 0) ?ys" "mset ?ys = mset ?xs"
    using comparator.heap_sort_sorts [OF assms(1), of ?xs] assms(2) by simp_all
  have "length es \<le> length es * e"
    using assms(5) by simp
  also have "\<dots> < 2 ^ 32"
    using assms(7) by simp
  finally have "length es < 2 ^ 32" .
  then have "unat (of_nat (length es) :: u32) = length es"
    by (simp add: unat_of_nat take_bit_nat_eq_self)
  then have "sort_array (concat ?xs) (of_nat (length es)) (of_nat e) cmp None = Some (concat ?ys)"
    using sort_array_default [of e ?xs "of_nat (length es)" cmp] assms(3,5-7) by simp
  moreover have "\<forall>y\<in>set ?ys. enc (dec y) = y"
    using mset_eq_setD [OF ys(2)] assms(4) by auto
  then have enc: "map enc ?fs = ?ys"
    by (simp add: map_idI)
  moreover have "mset ?fs = mset es"
    using arg_cong [OF ys(2), of "image_mset dec"] assms(4) by (simp add: multiset.map_comp comp_def)
  moreover have "sorted_wrt (\<lambda>x y. cmp (enc x) (enc y) \<le> 0) ?fs"
    using ys(1) sorted_wrt_map [of "\<lambda>x y. cmp x y \<le> 0" enc ?fs] unfolding enc by blast
  ultimately show ?thesis
    by (intro exI [of _ ?fs]) (simp only:)
qed

subsection \<open>Properties\<close>

text \<open>C15: For a comparison function that orders the elements, \<open>sort\<close> returns (its loops end
  and no access leaves the array), and the array then holds the elements it held before, in
  ascending order, for every number and size of elements whose product fits the counters.\<close>

theorem sort_sorts:
  assumes "comparator cmp A" and "set xs \<subseteq> A" and "\<forall>x\<in>set xs. length x = e"
    and "0 < e" and "e < 2 ^ 31" and "length xs * e < 2 ^ 31" and "unat num = length xs"
  shows "\<exists>ys. sort_array (concat xs) num (of_nat e) cmp None = Some (concat ys) \<and>
    mset ys = mset xs \<and> sorted_wrt (\<lambda>x y. cmp x y \<le> 0) ys"
  using sort_array_default [of e xs num cmp] comparator.heap_sort_sorts [OF assms(1,2)] assms(3-7) by auto

definition first_byte :: "u8 list \<Rightarrow> u8 list \<Rightarrow> int" where
  "first_byte x y = int (unat (hd x)) - int (unat (hd y))"

interpretation first_byte: comparator first_byte UNIV
  by unfold_locales (auto simp: first_byte_def)

theorem sort_sorts_witness:
  "\<exists>ys. sort_array [3, 0, 1, 1, 2, 2] 3 2 first_byte None = Some (concat ys) \<and>
    mset ys = mset [[3, 0], [1, 1], [2, 2]] \<and> sorted_wrt (\<lambda>x y. first_byte x y \<le> 0) ys"
  using sort_sorts [OF first_byte.comparator_axioms, of "[[3, 0], [1, 1], [2, 2]]" 2 3] by simp

end
