(* ===== verification/Extable.thy ===== *)
theory Extable
  imports Sort
begin

text \<open>
  Exception tables: \<open>lib/extable.c\<close> sorts and searches them, \<open>kernel/extable.c\<close> and
  \<open>kernel/module.c\<close> look an address up in the tables of the kernel and of the modules, and
  \<open>fixup_exception\<close> of \<open>arch/x86/mm/extable.c\<close> resumes a faulting access at the
  address it finds. The sort is the one of \<open>lib/sort.c\<close>, on the bytes of the table.
\<close>

subsection \<open>Entries\<close>

record exception_table_entry =
  insn :: u32
  fixup :: u32

definition entry_bytes :: "exception_table_entry \<Rightarrow> u8 list" where
  "entry_bytes e = le_bytes 4 (insn e) @ le_bytes 4 (fixup e)"

definition entry_of :: "u8 list \<Rightarrow> exception_table_entry" where
  "entry_of bs = \<lparr>insn = le_word (take 4 bs), fixup = le_word (take 4 (drop 4 bs))\<rparr>"

lemma length_entry_bytes [simp]: "length (entry_bytes e) = 8"
  by (simp add: entry_bytes_def)

lemma entry_of_bytes [simp]: "entry_of (entry_bytes e) = e"
  by (simp add: entry_of_def entry_bytes_def le_word_bytes)

abbreviation table_bytes :: "exception_table_entry list \<Rightarrow> u8 list" where
  "table_bytes es \<equiv> concat (map entry_bytes es)"

abbreviation table_sorted :: "exception_table_entry list \<Rightarrow> bool" where
  "table_sorted \<equiv> sorted_wrt (\<lambda>x y. insn x \<le> insn y)"

subsection \<open>Sorting\<close>

definition cmp_ex :: cmp_func where
  "cmp_ex a b =
     (let x = entry_of a; y = entry_of b
      in if insn y < insn x then 1 else if insn x < insn y then - 1 else 0)"

text \<open>The memory from \<open>start\<close> to \<open>finish\<close>, of which each entry takes 8 bytes.\<close>

definition sort_extable :: "u8 list \<Rightarrow> u8 list option" where
  "sort_extable tab = sort_array tab (of_nat (length tab div 8)) 8 cmp_ex None"

interpretation by_insn: comparator cmp_ex UNIV
  by unfold_locales (auto simp: cmp_ex_def Let_def split: if_splits)

lemma sort_extable_eq:
  assumes "length es * 8 < 2 ^ 31"
  shows "\<exists>fs. sort_extable (table_bytes es) = Some (table_bytes fs) \<and> mset fs = mset es \<and> table_sorted fs"
proof -
  have "length (table_bytes es) div 8 = length es"
    using length_concat_const [of "map entry_bytes es" 8] by simp
  moreover obtain fs where "sort_array (table_bytes es) (of_nat (length es)) (of_nat 8) cmp_ex None = Some (table_bytes fs)"
    "mset fs = mset es" "sorted_wrt (\<lambda>x y. cmp_ex (entry_bytes x) (entry_bytes y) \<le> 0) fs"
    using sort_records [OF by_insn.comparator_axioms, of entry_bytes es 8 entry_of] assms by auto
  moreover have "cmp_ex (entry_bytes x) (entry_bytes y) \<le> 0 \<longleftrightarrow> insn x \<le> insn y" for x y
    by (auto simp: cmp_ex_def Let_def not_less)
  ultimately show ?thesis
    by (intro exI [of _ fs]) (simp add: sort_extable_def)
qed

subsection \<open>Searching\<close>

text \<open>
  The binary search, on positions in the table (\<open>final\<close> may be the one before the first).
  \<open>None\<close> is an access outside the table, \<open>Some None\<close> the result \<open>NULL\<close>.
\<close>

function search_extable :: "exception_table_entry list \<Rightarrow> int \<Rightarrow> int \<Rightarrow> u32 \<Rightarrow> exception_table_entry option option" where
  "search_extable tab first final value =
     (if first \<le> final
      then let mid = (final - first) div 2 + first
           in if mid < 0 \<or> int (length tab) \<le> mid then None
              else if insn (tab ! nat mid) < value then search_extable tab (mid + 1) final value
              else if value < insn (tab ! nat mid) then search_extable tab first (mid - 1) value
              else Some (Some (tab ! nat mid))
      else Some None)"
  by pat_completeness auto
termination
  by (relation "measure (\<lambda>(_, first, final, _). nat (final - first + 1))") auto

declare search_extable.simps [simp del]

lemma search_extable_eq:
  "table_sorted tab \<Longrightarrow> 0 \<le> first \<Longrightarrow> final < int (length tab) \<Longrightarrow>
   (\<forall>i<length tab. int i < first \<longrightarrow> insn (tab ! i) < value) \<Longrightarrow>
   (\<forall>i<length tab. final < int i \<longrightarrow> value < insn (tab ! i)) \<Longrightarrow>
   \<exists>r. search_extable tab first final value = Some r \<and>
     (case r of None \<Rightarrow> value \<notin> insn ` set tab | Some e \<Rightarrow> e \<in> set tab \<and> insn e = value)"
proof (induction tab first final "value" rule: search_extable.induct)
  case (1 tab first final "value")
  define mid where "mid = (final - first) div 2 + first"
  show ?case
  proof (cases "first \<le> final")
    case False
    then have "insn (tab ! i) \<noteq> value" if "i < length tab" for i
      using "1.prems" that by (cases "int i < first") force+
    then have "value \<notin> insn ` set tab"
      by (metis (no_types, lifting) imageE in_set_conv_nth)
    then show ?thesis
      using False by (subst search_extable.simps) simp
  next
    case True
    then have mid: "first \<le> mid" "mid \<le> final"
      unfolding mid_def by auto
    then have m: "0 \<le> mid" "mid < int (length tab)" "nat mid < length tab"
      using "1.prems"(2,3) by auto
    have below: "insn (tab ! i) \<le> insn (tab ! nat mid)" if "i \<le> nat mid" for i
      using sorted_wrt_nth_less [OF "1.prems"(1), of i "nat mid"] that m by (cases "i = nat mid") auto
    have above: "insn (tab ! nat mid) \<le> insn (tab ! i)" if "nat mid \<le> i" "i < length tab" for i
      using sorted_wrt_nth_less [OF "1.prems"(1), of "nat mid" i] that m by (cases "i = nat mid") auto
    note step = search_extable.simps [of tab first final "value", folded mid_def]
    consider (lt) "insn (tab ! nat mid) < value" | (gt) "value < insn (tab ! nat mid)" | (eq) "insn (tab ! nat mid) = value"
      by force
    then show ?thesis
    proof cases
      case lt
      have "\<forall>i<length tab. int i < mid + 1 \<longrightarrow> insn (tab ! i) < value"
        using below lt by (auto intro!: le_less_trans [OF _ lt] below)
      then have "\<exists>r. search_extable tab (mid + 1) final value = Some r \<and>
          (case r of None \<Rightarrow> value \<notin> insn ` set tab | Some e \<Rightarrow> e \<in> set tab \<and> insn e = value)"
        using "1.IH"(1) [OF True mid_def _ lt] "1.prems" m by simp
      then show ?thesis
        using step True m lt by (simp add: Let_def)
    next
      case gt
      have "\<forall>i<length tab. mid - 1 < int i \<longrightarrow> value < insn (tab ! i)"
        by (auto intro!: less_le_trans [OF gt] above)
      then have "\<exists>r. search_extable tab first (mid - 1) value = Some r \<and>
          (case r of None \<Rightarrow> value \<notin> insn ` set tab | Some e \<Rightarrow> e \<in> set tab \<and> insn e = value)"
        using "1.IH"(2) [OF True mid_def _ _ gt] "1.prems" m gt by (simp add: not_less less_imp_le)
      moreover have "\<not> insn (tab ! nat mid) < value"
        using gt by (simp add: not_less less_imp_le)
      ultimately show ?thesis
        using step True m gt by (simp add: Let_def)
    next
      case eq
      then show ?thesis
        using step True m by (simp add: Let_def)
    qed
  qed
qed


lemma search_table:
  assumes "table_sorted tab"
  shows "\<exists>r. search_extable tab 0 (int (length tab) - 1) value = Some r \<and>
    (case r of None \<Rightarrow> value \<notin> insn ` set tab | Some e \<Rightarrow> e \<in> set tab \<and> insn e = value)"
  using search_extable_eq [OF assms, of 0 "int (length tab) - 1" "value"] by auto

subsection \<open>Modules\<close>

record module =
  extable :: "exception_table_entry list"
  module_init :: u32
  init_size :: u32

definition within_module_init :: "u32 \<Rightarrow> module \<Rightarrow> bool" where
  "within_module_init addr m \<longleftrightarrow> module_init m \<le> addr \<and> addr < module_init m + init_size m"

fun trim_front :: "module \<Rightarrow> exception_table_entry list \<Rightarrow> exception_table_entry list" where
  "trim_front m [] = []"
| "trim_front m (e # es) = (if within_module_init (insn e) m then trim_front m es else e # es)"

function trim_back :: "module \<Rightarrow> exception_table_entry list \<Rightarrow> nat \<Rightarrow> nat" where
  "trim_back m tab num_exentries =
     (if num_exentries \<noteq> 0 \<and> within_module_init (insn (tab ! (num_exentries - 1))) m
      then trim_back m tab (num_exentries - 1) else num_exentries)"
  by pat_completeness auto
termination
  by (relation "measure (\<lambda>(_, _, n). n)") auto

declare trim_back.simps [simp del]

definition trim_init_extable :: "module \<Rightarrow> module" where
  "trim_init_extable m =
     (let front = trim_front m (extable m) in m\<lparr>extable := take (trim_back m front (length front)) front\<rparr>)"

fun search_module_extables :: "module list \<Rightarrow> u32 \<Rightarrow> exception_table_entry option option" where
  "search_module_extables [] addr = Some None"
| "search_module_extables (m # modules) addr =
     (if length (extable m) = 0 then search_module_extables modules addr
      else do { e \<leftarrow> search_extable (extable m) 0 (int (length (extable m)) - 1) addr;
                if e \<noteq> None then Some e else search_module_extables modules addr })"

subsection \<open>Looking an address up, and fixing up a fault\<close>

definition search_exception_tables ::
    "exception_table_entry list \<Rightarrow> module list \<Rightarrow> u32 \<Rightarrow> exception_table_entry option option" where
  "search_exception_tables ex_table modules addr =
     do { e \<leftarrow> search_extable ex_table 0 (int (length ex_table) - 1) addr;
          if e = None then search_module_extables modules addr else Some e }"

record fault_state =
  ip :: u32
  uaccess_err :: int

definition fixup_exception ::
    "exception_table_entry list \<Rightarrow> module list \<Rightarrow> fault_state \<Rightarrow> (fault_state \<times> int) option" where
  "fixup_exception ex_table modules regs =
     do { f \<leftarrow> search_exception_tables ex_table modules (ip regs);
          Some (case f of
                  Some e \<Rightarrow> (if fixup e < 16
                             then (regs\<lparr>uaccess_err := - EFAULT, ip := ip regs + fixup e\<rparr>, 1)
                             else (regs\<lparr>ip := fixup e\<rparr>, 1))
                | None \<Rightarrow> (regs, 0)) }"

lemma search_module_extables_eq:
  "(\<forall>m\<in>set modules. table_sorted (extable m)) \<Longrightarrow>
   \<exists>r. search_module_extables modules addr = Some r \<and>
     (case r of None \<Rightarrow> addr \<notin> (\<Union>m\<in>set modules. insn ` set (extable m))
      | Some e \<Rightarrow> (\<exists>m\<in>set modules. e \<in> set (extable m)) \<and> insn e = addr)"
proof (induction modules)
  case Nil
  then show ?case
    by simp
next
  case (Cons m modules)
  have sorted: "\<forall>m\<in>set modules. table_sorted (extable m)" "table_sorted (extable m)"
    using Cons.prems by simp_all
  obtain r where r: "search_module_extables modules addr = Some r"
    "case r of None \<Rightarrow> addr \<notin> (\<Union>m\<in>set modules. insn ` set (extable m))
      | Some e \<Rightarrow> (\<exists>m\<in>set modules. e \<in> set (extable m)) \<and> insn e = addr"
    using Cons.IH [OF sorted(1)] by blast
  obtain q where q: "search_extable (extable m) 0 (int (length (extable m)) - 1) addr = Some q"
    "case q of None \<Rightarrow> addr \<notin> insn ` set (extable m) | Some e \<Rightarrow> e \<in> set (extable m) \<and> insn e = addr"
    using search_table [OF sorted(2)] by blast
  have "q = None" if "length (extable m) = 0"
    using q(2) that by (cases q) simp_all
  then have "search_module_extables (m # modules) addr = Some (if q = None then r else q)"
    using q(1) r(1) by simp
  moreover have "case (if q = None then r else q) of
      None \<Rightarrow> addr \<notin> (\<Union>m\<in>set (m # modules). insn ` set (extable m))
    | Some e \<Rightarrow> (\<exists>m\<in>set (m # modules). e \<in> set (extable m)) \<and> insn e = addr"
  proof (cases q)
    case None
    then show ?thesis
      using q(2) r(2) by (cases r) simp_all
  next
    case (Some e)
    then show ?thesis
      using q(2) by simp
  qed
  ultimately show ?case
    by blast
qed

lemma search_exception_tables_eq:
  assumes "table_sorted ex_table" and "\<forall>m\<in>set modules. table_sorted (extable m)"
  shows "\<exists>r. search_exception_tables ex_table modules addr = Some r \<and>
     (case r of None \<Rightarrow> addr \<notin> insn ` set ex_table \<union> (\<Union>m\<in>set modules. insn ` set (extable m))
      | Some e \<Rightarrow> e \<in> set ex_table \<union> (\<Union>m\<in>set modules. set (extable m)) \<and> insn e = addr)"
proof -
  obtain r where r: "search_module_extables modules addr = Some r"
    "case r of None \<Rightarrow> addr \<notin> (\<Union>m\<in>set modules. insn ` set (extable m))
      | Some e \<Rightarrow> (\<exists>m\<in>set modules. e \<in> set (extable m)) \<and> insn e = addr"
    using search_module_extables_eq [OF assms(2)] by blast
  obtain q where q: "search_extable ex_table 0 (int (length ex_table) - 1) addr = Some q"
    "case q of None \<Rightarrow> addr \<notin> insn ` set ex_table | Some e \<Rightarrow> e \<in> set ex_table \<and> insn e = addr"
    using search_table [OF assms(1)] by blast
  have "search_exception_tables ex_table modules addr = Some (if q = None then r else q)"
    using q(1) r(1) by (simp add: search_exception_tables_def)
  moreover have "case (if q = None then r else q) of
      None \<Rightarrow> addr \<notin> insn ` set ex_table \<union> (\<Union>m\<in>set modules. insn ` set (extable m))
    | Some e \<Rightarrow> e \<in> set ex_table \<union> (\<Union>m\<in>set modules. set (extable m)) \<and> insn e = addr"
    using q(2) r(2) by (cases q; cases r) simp_all
  ultimately show ?thesis
    by blast
qed

lemma trim_front_eq: "trim_front m es = dropWhile (\<lambda>e. within_module_init (insn e) m) es"
  by (induction es) simp_all

lemma trim_back_eq:
  "n \<le> length tab \<Longrightarrow>
   take (trim_back m tab n) tab = rev (dropWhile (\<lambda>e. within_module_init (insn e) m) (rev (take n tab)))"
proof (induction n)
  case 0
  then show ?case
    by (simp add: trim_back.simps)
next
  case (Suc n)
  have "trim_back m tab (Suc n) =
      (if within_module_init (insn (tab ! n)) m then trim_back m tab n else Suc n)"
    by (subst trim_back.simps) simp
  then show ?case
    using Suc.IH Suc.prems take_Suc_conv_app_nth [of n tab] by simp
qed


text \<open>A sorted list splits at a bound of the keys.\<close>

lemma sorted_filter_split:
  "sorted_wrt (\<lambda>x y. f x \<le> f y) xs \<Longrightarrow> (\<forall>x\<in>set xs. P x \<longleftrightarrow> f x < (k :: u32)) \<Longrightarrow>
   xs = filter P xs @ filter (\<lambda>x. \<not> P x) xs"
proof (induction xs)
  case Nil
  then show ?case
    by simp
next
  case (Cons x xs)
  show ?case
  proof (cases "P x")
    case True
    then show ?thesis
      using Cons by simp
  next
    case False
    then have "\<not> P y" if "y \<in> set xs" for y
      using Cons.prems that by (auto simp: not_less intro: order_trans)
    then have "filter P xs = []" "filter (\<lambda>x. \<not> P x) xs = xs"
      by (simp_all add: filter_empty_conv filter_id_conv)
    then show ?thesis
      using False by simp
  qed
qed

lemma trim_both:
  assumes "xs = us @ vs" and "(\<forall>x\<in>set us. P x) \<and> (\<forall>x\<in>set vs. \<not> P x) \<or> (\<forall>x\<in>set us. \<not> P x) \<and> (\<forall>x\<in>set vs. P x)"
  shows "rev (dropWhile P (rev (dropWhile P xs))) = filter (\<lambda>x. \<not> P x) xs"
proof -
  have none: "dropWhile P ys = ys" if "\<forall>x\<in>set ys. \<not> P x" for ys
    using that by (cases ys) auto
  from assms(2) show ?thesis
  proof
    assume a: "(\<forall>x\<in>set us. P x) \<and> (\<forall>x\<in>set vs. \<not> P x)"
    then have "dropWhile P xs = vs" "filter (\<lambda>x. \<not> P x) xs = vs"
      using assms(1) none [of vs] by (auto simp: dropWhile_append2 filter_empty_conv filter_id_conv)
    then show ?thesis
      using none [of "rev vs"] a by simp
  next
    assume a: "(\<forall>x\<in>set us. \<not> P x) \<and> (\<forall>x\<in>set vs. P x)"
    then have f: "filter (\<lambda>x. \<not> P x) xs = us"
      using assms(1) by (auto simp: filter_empty_conv filter_id_conv)
    show ?thesis
    proof (cases us)
      case Nil
      then show ?thesis
        using a f assms(1) by (auto dest: set_dropWhileD)
    next
      case (Cons u us')
      then have "dropWhile P xs = us @ vs"
        using a assms(1) by simp
      moreover have "dropWhile P (rev vs @ rev us) = rev us"
        using a none [of "rev us"] dropWhile_append2 [of "rev vs" P "rev us"] by auto
      ultimately show ?thesis
        using f by simp
    qed
  qed
qed

subsection \<open>Properties\<close>

text \<open>C16: The exception tables work end to end: once the kernel's table has been sorted at
  boot, a fault at an address with an entry, in the kernel's or in a module's table, is fixed up by
  continuing at the entry's fixup address (or behind it, with \<open>-EFAULT\<close> recorded, for the
  short form), and a fault at any other address is left alone.\<close>

theorem fault_fixed_up:
  assumes "length es * 8 < 2 ^ 31" and "\<forall>m\<in>set modules. table_sorted (extable m)"
  shows "\<exists>tab r. sort_extable (table_bytes es) = Some (table_bytes tab) \<and> mset tab = mset es \<and>
    fixup_exception tab modules regs = Some r \<and>
    (if ip regs \<in> insn ` set es \<union> (\<Union>m\<in>set modules. insn ` set (extable m))
     then \<exists>e \<in> set es \<union> (\<Union>m\<in>set modules. set (extable m)). insn e = ip regs \<and>
       r = (if fixup e < 16 then regs\<lparr>uaccess_err := - EFAULT, ip := ip regs + fixup e\<rparr>
            else regs\<lparr>ip := fixup e\<rparr>, 1)
     else r = (regs, 0))"
proof -
  obtain tab where tab: "sort_extable (table_bytes es) = Some (table_bytes tab)" "mset tab = mset es"
    "table_sorted tab"
    using sort_extable_eq [OF assms(1)] by blast
  have set: "set tab = set es"
    using mset_eq_setD [OF tab(2)] .
  obtain q where q: "search_exception_tables tab modules (ip regs) = Some q"
    "case q of None \<Rightarrow> ip regs \<notin> insn ` set es \<union> (\<Union>m\<in>set modules. insn ` set (extable m))
      | Some e \<Rightarrow> e \<in> set es \<union> (\<Union>m\<in>set modules. set (extable m)) \<and> insn e = ip regs"
    using search_exception_tables_eq [OF tab(3) assms(2), of "ip regs"] unfolding set by blast
  show ?thesis
  proof (cases q)
    case None
    then show ?thesis
      using tab q by (intro exI [of _ tab] exI [of _ "(regs, 0)"]) (simp add: fixup_exception_def)
  next
    case (Some e)
    let ?r = "(if fixup e < 16 then regs\<lparr>uaccess_err := - EFAULT, ip := ip regs + fixup e\<rparr>
               else regs\<lparr>ip := fixup e\<rparr>, 1 :: int)"
    have e: "e \<in> set es \<union> (\<Union>m\<in>set modules. set (extable m))" "insn e = ip regs"
      using q(2) Some by simp_all
    then have "ip regs \<in> insn ` set es \<union> (\<Union>m\<in>set modules. insn ` set (extable m))"
      by (auto simp flip: e(2))
    moreover have "fixup_exception tab modules regs = Some ?r"
      using q(1) Some by (simp add: fixup_exception_def)
    ultimately show ?thesis
      using tab(1,2) e by (intro exI [of _ tab] exI [of _ ?r]) auto
  qed
qed

theorem fault_fixed_up_witness:
  "\<exists>tab. sort_extable (table_bytes [\<lparr>insn = 9, fixup = 40\<rparr>, \<lparr>insn = 4, fixup = 3\<rparr>]) = Some (table_bytes tab) \<and>
     fixup_exception tab [\<lparr>extable = [], module_init = 0, init_size = 0\<rparr>] \<lparr>ip = 4, uaccess_err = 0\<rparr>
       = Some (\<lparr>ip = 7, uaccess_err = - 14\<rparr>, 1)"
  using fault_fixed_up [of "[\<lparr>insn = 9, fixup = 40\<rparr>, \<lparr>insn = 4, fixup = 3\<rparr>]"
      "[\<lparr>extable = [], module_init = 0, init_size = 0\<rparr>]" "\<lparr>ip = 4, uaccess_err = 0\<rparr>"]
  by auto

text \<open>Trimming the table of a module when its init section is freed removes exactly the
  entries for code in the init section, given that the table is sorted and the rest of the module's
  code lies on one side of that section, as the comment in the code claims.\<close>

theorem trim_init_extable_exact:
  assumes "table_sorted (extable m)"
    and "(\<forall>e\<in>set (extable m). \<not> within_module_init (insn e) m \<longrightarrow> insn e < module_init m) \<or>
      (\<forall>e\<in>set (extable m). \<not> within_module_init (insn e) m \<longrightarrow> module_init m + init_size m \<le> insn e)"
  shows "extable (trim_init_extable m) = filter (\<lambda>e. \<not> within_module_init (insn e) m) (extable m)"
proof -
  let ?P = "\<lambda>e. within_module_init (insn e) m"
  have eq: "extable (trim_init_extable m) = rev (dropWhile ?P (rev (dropWhile ?P (extable m))))"
    by (simp add: trim_init_extable_def trim_front_eq trim_back_eq)
  from assms(2) show ?thesis
  proof
    assume "\<forall>e\<in>set (extable m). \<not> ?P e \<longrightarrow> insn e < module_init m"
    then have "\<forall>e\<in>set (extable m). \<not> ?P e \<longleftrightarrow> insn e < module_init m"
      by (auto simp: within_module_init_def)
    from sorted_filter_split [OF assms(1) this] show ?thesis
      unfolding eq by (rule trim_both) auto
  next
    assume "\<forall>e\<in>set (extable m). \<not> ?P e \<longrightarrow> module_init m + init_size m \<le> insn e"
    then have "\<forall>e\<in>set (extable m). ?P e \<longleftrightarrow> insn e < module_init m + init_size m"
      by (auto simp: within_module_init_def)
    from sorted_filter_split [OF assms(1) this] show ?thesis
      unfolding eq by (rule trim_both) auto
  qed
qed

definition sample_module :: module where
  "sample_module =
     \<lparr>extable = [\<lparr>insn = 5, fixup = 50\<rparr>, \<lparr>insn = 101, fixup = 51\<rparr>], module_init = 100, init_size = 8\<rparr>"

theorem trim_init_extable_exact_witness:
  "extable (trim_init_extable sample_module) = [\<lparr>insn = 5, fixup = 50\<rparr>]"
  using trim_init_extable_exact [of sample_module]
  by (simp add: sample_module_def within_module_init_def)

end
