(* ===== verification/Range.thy ===== *)
theory Range
  imports Sort
begin

text \<open>
  Sets of addresses as arrays of ranges, \<open>kernel/range.c\<close>. The array is a list of its
  \<open>az\<close> slots; a slot whose end is 0 is free. A range holds the addresses from its start up to,
  but not including, its end.
\<close>

subsection \<open>Data\<close>

record range =
  r_start :: u64
  r_end :: u64

abbreviation no_range :: range where
  "no_range \<equiv> \<lparr>r_start = 0, r_end = 0\<rparr>"

subsection \<open>Adding\<close>

definition add_range :: "range list \<Rightarrow> nat \<Rightarrow> u64 \<Rightarrow> u64 \<Rightarrow> range list \<times> nat" where
  "add_range rs nr_range s e =
     (if e \<le> s then (rs, nr_range)
      else if length rs \<le> nr_range then (rs, nr_range)
      else (rs[nr_range := \<lparr>r_start = s, r_end = e\<rparr>], nr_range + 1))"

text \<open>
  The loop that looks for a range to merge with: the array and whether one was found;
  \<open>None\<close> is an access outside the array.
\<close>

function merge_loop :: "range list \<Rightarrow> nat \<Rightarrow> nat \<Rightarrow> u64 \<Rightarrow> u64 \<Rightarrow> (range list \<times> bool) option" where
  "merge_loop rs i nr_range s e =
     (if i < nr_range
      then if length rs \<le> i then None
           else if r_end (rs ! i) = 0 then merge_loop rs (i + 1) nr_range s e
           else let common_start = max (r_start (rs ! i)) s;
                    common_end = min (r_end (rs ! i)) e
                in if common_end < common_start then merge_loop rs (i + 1) nr_range s e
                   else let final_start = min (r_start (rs ! i)) s;
                            final_end = max (r_end (rs ! i)) e
                        in Some (rs[i := \<lparr>r_start = final_start, r_end = final_end\<rparr>], True)
      else Some (rs, False))"
  by pat_completeness auto
termination
  by (relation "measure (\<lambda>(_, i, n, _). n - i)") auto

declare merge_loop.simps [simp del]

definition add_range_with_merge :: "range list \<Rightarrow> nat \<Rightarrow> u64 \<Rightarrow> u64 \<Rightarrow> (range list \<times> nat) option" where
  "add_range_with_merge rs nr_range s e =
     (if e \<le> s then Some (rs, nr_range)
      else do { (rs, merged) \<leftarrow> merge_loop rs 0 nr_range s e;
                Some (if merged then (rs, nr_range) else add_range rs nr_range s e) })"

subsection \<open>Subtracting\<close>

text \<open>The first free slot, \<open>az\<close> if there is none.\<close>

primrec spare_slot :: "range list \<Rightarrow> nat" where
  "spare_slot [] = 0"
| "spare_slot (r # rs) = (if r_end r = 0 then 0 else 1 + spare_slot rs)"

definition subtract_slot :: "u64 \<Rightarrow> u64 \<Rightarrow> range list \<Rightarrow> nat \<Rightarrow> range list" where
  "subtract_slot s e rs j =
     (let r = rs ! j
      in if r_end r = 0 then rs
         else if s \<le> r_start r \<and> r_end r \<le> e then rs[j := no_range]
         else if s \<le> r_start r \<and> e < r_end r \<and> r_start r < e then rs[j := r\<lparr>r_start := e\<rparr>]
         else if r_start r < s \<and> r_end r \<le> e \<and> s < r_end r then rs[j := r\<lparr>r_end := s\<rparr>]
         else if r_start r < s \<and> e < r_end r
         then let i = spare_slot rs;
                  rs = (if i < length rs then rs[i := \<lparr>r_start = e, r_end = r_end r\<rparr>] else rs)
              in rs[j := r\<lparr>r_end := s\<rparr>]
         else rs)"

definition subtract_range :: "range list \<Rightarrow> u64 \<Rightarrow> u64 \<Rightarrow> range list" where
  "subtract_range rs s e =
     (if e \<le> s then rs else foldl (subtract_slot s e) rs [0..<length rs])"

subsection \<open>Sorting\<close>

definition range_bytes :: "range \<Rightarrow> u8 list" where
  "range_bytes r = le_bytes 8 (r_start r) @ le_bytes 8 (r_end r)"

definition range_of :: "u8 list \<Rightarrow> range" where
  "range_of bs = \<lparr>r_start = le_word (take 8 bs), r_end = le_word (take 8 (drop 8 bs))\<rparr>"

text \<open>The 64-bit difference is returned as an \<open>int\<close>, which keeps its low 32 bits.\<close>

definition cmp_range :: cmp_func where
  "cmp_range x1 x2 =
     (let start1 = r_start (range_of x1); start2 = r_start (range_of x2)
      in sint (ucast (start1 - start2) :: u32))"

definition sort_range :: "range list \<Rightarrow> nat \<Rightarrow> range list option" where
  "sort_range rs nr_range =
     do { mem \<leftarrow> sort_array (concat (map range_bytes (take nr_range rs))) (of_nat nr_range) 16 cmp_range None;
          Some (map (\<lambda>i. range_of (take 16 (drop (i * 16) mem))) [0..<nr_range] @ drop nr_range rs) }"

text \<open>The loop that looks for the last used slot above \<open>i\<close>, from \<open>j\<close> downwards.\<close>

function last_used :: "range list \<Rightarrow> int \<Rightarrow> int \<Rightarrow> int" where
  "last_used rs i j =
     (if i < j then if r_end (rs ! nat j) \<noteq> 0 then j else last_used rs i (j - 1) else j)"
  by pat_completeness auto
termination
  by (relation "measure (\<lambda>(_, i, j). nat (j - i))") auto

declare last_used.simps [simp del]

lemma last_used_bounds: "i \<le> j \<Longrightarrow> i \<le> last_used rs i j \<and> last_used rs i j \<le> j"
proof (induction rs i j rule: last_used.induct)
  case (1 rs i j)
  then show ?case
    by (subst (1 2) last_used.simps) auto
qed

function compact_loop :: "range list \<Rightarrow> int \<Rightarrow> int \<Rightarrow> range list" where
  "compact_loop rs i k =
     (if i < k
      then if r_end (rs ! nat i) \<noteq> 0 then compact_loop rs (i + 1) k
           else let j = last_used rs i k
                in if j = i then rs
                   else compact_loop (rs[nat i := rs ! nat j, nat j := no_range]) (i + 1) (j - 1)
      else rs)"
  by pat_completeness auto
termination
proof (relation "measure (\<lambda>(_, i, k). nat (k - i))", goal_cases)
  case (3 rs i k x)
  then show ?case
    using last_used_bounds [of i k rs] by auto
qed auto

declare compact_loop.simps [simp del]

definition clean_sort_range :: "range list \<Rightarrow> (range list \<times> nat) option" where
  "clean_sort_range rs =
     (let rs = compact_loop rs 0 (int (length rs) - 1);
          nr_range = spare_slot rs
      in do { rs \<leftarrow> sort_range rs nr_range; Some (rs, nr_range) })"

subsection \<open>The addresses covered\<close>

definition addrs :: "range \<Rightarrow> u64 set" where
  "addrs r = {r_start r..<r_end r}"

definition covered :: "range list \<Rightarrow> u64 set" where
  "covered rs = (\<Union>i<length rs. addrs (rs ! i))"

abbreviation (input) used :: "range \<Rightarrow> bool" where
  "used r \<equiv> r_end r \<noteq> 0"

lemma addrs_free: "r_end r = 0 \<Longrightarrow> addrs r = {}"
  by (simp add: addrs_def)

lemma covered_update:
  assumes "i < length rs"
  shows "covered (rs[i := r]) = addrs r \<union> (\<Union>j\<in>{..<length rs} - {i}. addrs (rs ! j))"
    and "covered rs = addrs (rs ! i) \<union> (\<Union>j\<in>{..<length rs} - {i}. addrs (rs ! j))"
  using assms by (auto simp: covered_def nth_list_update split: if_splits)

lemma covered_update_add:
  "i < length rs \<Longrightarrow> addrs r = addrs (rs ! i) \<union> X \<Longrightarrow> covered (rs[i := r]) = covered rs \<union> X"
  using covered_update(1) [of i rs r] covered_update(2) [of i rs] by auto

subsection \<open>Adding ranges\<close>

lemma touching_union:
  assumes "max a s \<le> min b e"
  shows "{min a s..<max b e} = {a..<b} \<union> {s..<(e :: u64)}"
  using assms by (auto simp: min_def max_def split: if_splits)

lemma merge_loop_eq:
  "nr \<le> length rs \<Longrightarrow>
   \<exists>rs' m. merge_loop rs i nr s e = Some (rs', m) \<and> length rs' = length rs \<and>
     (if m then covered rs' = covered rs \<union> {s..<e} else rs' = rs)"
proof (induction "nr - i" arbitrary: i rule: less_induct)
  case less
  let ?r = "rs ! i"
  show ?case
  proof (cases "i < nr \<and> used ?r \<and> \<not> min (r_end ?r) e < max (r_start ?r) s")
    case True
    then have "i < nr" "used ?r" and t: "max (r_start ?r) s \<le> min (r_end ?r) e"
      unfolding not_less by blast+
    have "addrs \<lparr>r_start = min (r_start ?r) s, r_end = max (r_end ?r) e\<rparr> = addrs ?r \<union> {s..<e}"
      using touching_union [OF t] by (simp add: addrs_def)
    then have "covered (rs[i := \<lparr>r_start = min (r_start ?r) s, r_end = max (r_end ?r) e\<rparr>]) = covered rs \<union> {s..<e}"
      using covered_update_add \<open>i < nr\<close> less.prems by simp
    moreover have "merge_loop rs i nr s e =
        Some (rs[i := \<lparr>r_start = min (r_start ?r) s, r_end = max (r_end ?r) e\<rparr>], True)"
      using \<open>i < nr\<close> \<open>used ?r\<close> less.prems leD [OF t] by (subst merge_loop.simps) (simp add: Let_def)
    ultimately show ?thesis
      by (intro exI [of _ "rs[i := \<lparr>r_start = min (r_start ?r) s, r_end = max (r_end ?r) e\<rparr>]"] exI [of _ True]) simp
  next
    case False
    then have step: "merge_loop rs i nr s e = (if i < nr then merge_loop rs (Suc i) nr s e else Some (rs, False))"
      using less.prems by (subst merge_loop.simps) (auto simp: Let_def)
    show ?thesis
    proof (cases "i < nr")
      case True
      then show ?thesis
        using less.hyps [of "Suc i"] less.prems step by simp
    next
      case False
      then show ?thesis
        using step by auto
    qed
  qed
qed

subsection \<open>Subtracting a range\<close>

definition splits :: "u64 \<Rightarrow> u64 \<Rightarrow> range \<Rightarrow> bool" where
  "splits s e r \<longleftrightarrow> used r \<and> r_start r < s \<and> e < r_end r"

lemma spare_slot_le: "spare_slot rs \<le> length rs"
  by (induction rs) simp_all

lemma spare_slot_free: "spare_slot rs < length rs \<Longrightarrow> r_end (rs ! spare_slot rs) = 0"
  by (induction rs) auto

lemma spare_slot_used: "i < spare_slot rs \<Longrightarrow> used (rs ! i)"
  by (induction rs arbitrary: i) (auto simp: nth_Cons split: nat.splits if_splits)

lemma spare_slot_exists: "i < length rs \<Longrightarrow> r_end (rs ! i) = 0 \<Longrightarrow> spare_slot rs < length rs"
  using spare_slot_used [of i rs] by (meson le_less_trans not_less)

lemma length_subtract_slot [simp]: "length (subtract_slot s e rs j) = length rs"
  by (simp add: subtract_slot_def Let_def)

text \<open>
  One turn of the loop: the slot loses the subtracted addresses; another slot only changes by
  taking, from free, a part of the range that has none of them.
\<close>

lemma subtract_slot_others:
  assumes "j < length rs" and "s < e" and "i < length rs" and "i \<noteq> j"
  shows "subtract_slot s e rs j ! i = rs ! i \<or>
    r_end (rs ! i) = 0 \<and> splits s e (rs ! j) \<and> subtract_slot s e rs j ! i = \<lparr>r_start = e, r_end = r_end (rs ! j)\<rparr>"
  using assms spare_slot_free [of rs]
  by (auto simp: subtract_slot_def Let_def splits_def nth_list_update split: if_splits)

lemma subtract_slot_self:
  assumes "j < length rs" and "s < e"
  shows "addrs (subtract_slot s e rs j ! j) =
    (if splits s e (rs ! j) then {r_start (rs ! j)..<s} else addrs (rs ! j) - {s..<e})"
  using assms
  by (auto simp: subtract_slot_def Let_def splits_def addrs_def nth_list_update)

lemma subtract_slot_covered:
  assumes "j < length rs" and "s < e"
  shows "addrs (subtract_slot s e rs j ! j) \<inter> {s..<e} = {}"
    and "covered (subtract_slot s e rs j) \<subseteq> covered rs"
    and "(\<not> splits s e (rs ! j) \<or> (\<exists>i<length rs. r_end (rs ! i) = 0)) \<Longrightarrow>
      covered rs - {s..<e} \<subseteq> covered (subtract_slot s e rs j)"
proof -
  let ?rs = "subtract_slot s e rs j" and ?r = "rs ! j"
  show "addrs (?rs ! j) \<inter> {s..<e} = {}"
    using subtract_slot_self [OF assms] by auto
  have self: "addrs (?rs ! j) \<subseteq> addrs ?r"
    using subtract_slot_self [OF assms] assms(2) by (auto simp: splits_def addrs_def)
  have other: "addrs (?rs ! i) \<subseteq> addrs (rs ! i) \<union> addrs ?r" if "i < length rs" "i \<noteq> j" for i
    using subtract_slot_others [OF assms that] assms(2) by (auto simp: splits_def addrs_def)
  show "covered ?rs \<subseteq> covered rs"
  proof
    fix x
    assume "x \<in> covered ?rs"
    then obtain i where i: "i < length rs" "x \<in> addrs (?rs ! i)"
      by (auto simp: covered_def)
    then have "x \<in> addrs (rs ! i) \<or> x \<in> addrs ?r"
      using self other [of i] by (cases "i = j") auto
    then show "x \<in> covered rs"
      using i(1) assms(1) by (auto simp: covered_def)
  qed
  assume spare: "\<not> splits s e ?r \<or> (\<exists>i<length rs. r_end (rs ! i) = 0)"
  show "covered rs - {s..<e} \<subseteq> covered ?rs"
  proof
    fix x
    assume x: "x \<in> covered rs - {s..<e}"
    then obtain i where i: "i < length rs" "x \<in> addrs (rs ! i)"
      by (auto simp: covered_def)
    consider "i \<noteq> j" | "i = j" "\<not> splits s e ?r" | "i = j" "splits s e ?r" "x < s" | "i = j" "splits s e ?r" "e \<le> x"
      using x by force
    then have "\<exists>k<length rs. x \<in> addrs (?rs ! k)"
    proof cases
      case 1
      then have "?rs ! i = rs ! i"
        using subtract_slot_others [OF assms i(1)] i(2) addrs_free by auto
      then show ?thesis
        using i by auto
    next
      case 2
      then show ?thesis
        using i x subtract_slot_self [OF assms] by auto
    next
      case 3
      then have "x \<in> {r_start ?r..<s}"
        using i by (simp add: addrs_def)
      then have "x \<in> addrs (?rs ! j)"
        using 3 subtract_slot_self [OF assms] by simp
      then show ?thesis
        using assms(1) by blast
    next
      case 4
      let ?k = "spare_slot rs"
      have k: "?k < length rs" "r_end (rs ! ?k) = 0"
        using spare 4 spare_slot_exists spare_slot_free by blast+
      then have "?rs ! ?k = \<lparr>r_start = e, r_end = r_end ?r\<rparr>"
        using 4 assms by (auto simp: subtract_slot_def Let_def splits_def nth_list_update)
      then show ?thesis
        using k i 4 by (auto simp: addrs_def)
    qed
    then show "x \<in> covered ?rs"
      by (auto simp: covered_def)
  qed
qed

text \<open>At most one range can have to be split, and there is room for it.\<close>

definition splittable :: "u64 \<Rightarrow> u64 \<Rightarrow> range list \<Rightarrow> nat \<Rightarrow> bool" where
  "splittable s e rs n \<longleftrightarrow>
     (\<forall>i<length rs. n \<le> i \<longrightarrow> \<not> splits s e (rs ! i)) \<or>
     (\<exists>i<length rs. r_end (rs ! i) = 0) \<and>
     (\<forall>i<length rs. \<forall>j<length rs. n \<le> i \<longrightarrow> n \<le> j \<longrightarrow> splits s e (rs ! i) \<longrightarrow> splits s e (rs ! j) \<longrightarrow> i = j)"

lemma subtract_slot_later:
  assumes "j < length rs" and "s < e" and "i < length rs" and "i \<noteq> j"
  shows "splits s e (subtract_slot s e rs j ! i) \<longleftrightarrow> splits s e (rs ! i)"
  using subtract_slot_others [OF assms] assms(2) by (auto simp: splits_def)

lemma subtract_slot_free:
  assumes "j < length rs" and "s < e" and "i < length rs" and "r_end (rs ! i) = 0" and "\<not> splits s e (rs ! j)"
  shows "r_end (subtract_slot s e rs j ! i) = 0"
proof (cases "i = j")
  case True
  then show ?thesis
    using assms by (simp add: subtract_slot_def Let_def)
next
  case False
  then show ?thesis
    using subtract_slot_others [OF assms(1-3) False] assms(4,5) by auto
qed

lemma subtract_slot_splittable:
  assumes "j < length rs" and "s < e" and "splittable s e rs j"
  shows "splittable s e (subtract_slot s e rs j) (Suc j)"
proof (cases "splits s e (rs ! j)")
  case True
  then have "\<not> splits s e (rs ! i)" if "i < length rs" "Suc j \<le> i" for i
    using assms that unfolding splittable_def by (metis Suc_n_not_le_n less_imp_le_nat Suc_le_lessD le_refl)
  then show ?thesis
    using subtract_slot_later [OF assms(1,2)] by (auto simp: splittable_def)
next
  case False
  have later: "splits s e (subtract_slot s e rs j ! i) \<longleftrightarrow> splits s e (rs ! i)" if "i < length rs" "Suc j \<le> i" for i
    using subtract_slot_later [OF assms(1,2)] that by simp
  show ?thesis
    using assms(3) later subtract_slot_free [OF assms(1,2) _ _ False] unfolding splittable_def
    by (auto simp: Suc_le_eq)
qed

lemma subtract_loop:
  assumes "s < e" and "n \<le> length rs"
  defines "cur \<equiv> foldl (subtract_slot s e) rs [0..<n]"
  shows "length cur = length rs \<and> (\<forall>i<n. addrs (cur ! i) \<inter> {s..<e} = {}) \<and> covered cur \<subseteq> covered rs \<and>
    (splittable s e rs 0 \<longrightarrow> splittable s e cur n \<and> covered rs - {s..<e} \<subseteq> covered cur)"
  using assms(2) unfolding cur_def
proof (induction n)
  case 0
  then show ?case
    by simp
next
  case (Suc n)
  let ?c = "foldl (subtract_slot s e) rs [0..<n]"
  have n: "n < length ?c" "n \<le> length rs"
    using Suc by simp_all
  have c: "length ?c = length rs" "\<forall>i<n. addrs (?c ! i) \<inter> {s..<e} = {}" "covered ?c \<subseteq> covered rs"
    "splittable s e rs 0 \<longrightarrow> splittable s e ?c n \<and> covered rs - {s..<e} \<subseteq> covered ?c"
    using Suc.IH n(2) by simp_all
  have "addrs (subtract_slot s e ?c n ! i) \<inter> {s..<e} = {}" if "i < Suc n" for i
  proof (cases "i = n")
    case True
    then show ?thesis
      using subtract_slot_covered(1) [OF n(1) assms(1)] by simp
  next
    case False
    then show ?thesis
      using subtract_slot_others [OF n(1) assms(1), of i] that n c(2) by (auto simp: addrs_def)
  qed
  moreover have "covered rs - {s..<e} \<subseteq> covered (subtract_slot s e ?c n)" if "splittable s e rs 0"
  proof -
    have "splittable s e ?c n" and sub: "covered rs - {s..<e} \<subseteq> covered ?c"
      using c(4) that by blast+
    then have "\<not> splits s e (?c ! n) \<or> (\<exists>i<length ?c. r_end (?c ! i) = 0)"
      using n(1) unfolding splittable_def by blast
    then show ?thesis
      using subtract_slot_covered(3) [OF n(1) assms(1)] sub by blast
  qed
  moreover have "splittable s e (subtract_slot s e ?c n) (Suc n)" if "splittable s e rs 0"
    using subtract_slot_splittable [OF n(1) assms(1)] c(4) that by blast
  ultimately show ?case
    using c(1,3) subtract_slot_covered(2) [OF n(1) assms(1)] by auto
qed

lemma disjoint_splittable:
  assumes "\<forall>i<length rs. \<forall>j<length rs. i \<noteq> j \<longrightarrow> addrs (rs ! i) \<inter> addrs (rs ! j) = {}"
    and "\<exists>i<length rs. r_end (rs ! i) = 0" and "s < e"
  shows "splittable s e rs 0"
proof -
  have "s \<in> addrs (rs ! i)" if "splits s e (rs ! i)" for i
    using that assms(3) by (auto simp: splits_def addrs_def)
  then show ?thesis
    using assms(1,2) unfolding splittable_def by blast
qed

subsection \<open>Compacting\<close>

lemma last_used_eq:
  "i \<le> j \<Longrightarrow> (\<forall>x. last_used rs i j < x \<longrightarrow> x \<le> j \<longrightarrow> r_end (rs ! nat x) = 0) \<and>
     (last_used rs i j \<noteq> i \<longrightarrow> used (rs ! nat (last_used rs i j)))"
proof (induction "nat (j - i)" arbitrary: j rule: less_induct)
  case less
  show ?case
  proof (cases "i < j \<and> r_end (rs ! nat j) = 0")
    case True
    then have "last_used rs i j = last_used rs i (j - 1)"
      by (subst last_used.simps) simp
    moreover have "x = j \<or> x \<le> j - 1" if "x \<le> j" for x
      using that by linarith
    ultimately show ?thesis
      using less.hyps [of "j - 1"] True by auto
  next
    case False
    then show ?thesis
      using less.prems by (subst (1 2 3) last_used.simps) auto
  qed
qed

definition compacted :: "range list \<Rightarrow> bool" where
  "compacted rs \<longleftrightarrow> (\<exists>n\<le>length rs. (\<forall>x<n. used (rs ! x)) \<and> (\<forall>x<length rs. n \<le> x \<longrightarrow> r_end (rs ! x) = 0))"

lemma filter_move:
  assumes "i < length rs" and "j < length rs" and "i \<noteq> j" and "r_end (rs ! i) = 0"
  shows "mset (filter used (rs[i := rs ! j, j := no_range])) = mset (filter used rs)"
proof -
  have "rs[i := rs ! j, j := no_range] = (exchange rs i j)[j := no_range]"
    by simp
  moreover have "mset (exchange rs i j) = mset rs"
    using mset_swap assms by blast
  moreover have "exchange rs i j ! j = rs ! i"
    using assms by simp
  ultimately have "mset (rs[i := rs ! j, j := no_range]) = add_mset no_range (mset rs - {#rs ! i#})"
    using mset_update [of j "exchange rs i j" no_range] assms by simp
  then show ?thesis
    using assms(4) unfolding mset_filter by simp
qed

lemma compact_loop_eq:
  "0 \<le> i \<Longrightarrow> i \<le> k + 1 \<Longrightarrow> k < int (length rs) \<Longrightarrow> (\<forall>x<nat i. used (rs ! x)) \<Longrightarrow>
   (\<forall>x<length rs. k < int x \<longrightarrow> r_end (rs ! x) = 0) \<Longrightarrow>
   length (compact_loop rs i k) = length rs \<and> compacted (compact_loop rs i k) \<and>
   mset (filter used (compact_loop rs i k)) = mset (filter used rs)"
proof (induction "nat (k - i)" arbitrary: rs i k rule: less_induct)
  case less
  define j where "j = last_used rs i k"
  have stop: "compacted rs" if "compact_loop rs i k = rs" "\<not> i < k \<or> r_end (rs ! nat i) = 0 \<and> (\<forall>x<length rs. i < int x \<longrightarrow> r_end (rs ! x) = 0)"
  proof (cases "nat i < length rs \<and> used (rs ! nat i)")
    case True
    then show ?thesis
      using that less.prems unfolding compacted_def
      by (intro exI [of _ "Suc (nat i)"]) (auto simp: less_Suc_eq)
  next
    case False
    have "r_end (rs ! x) = 0" if "x < length rs" "nat i \<le> x" for x
      using that False less.prems \<open>\<not> i < k \<or> _\<close> by (cases "x = nat i") auto
    then show ?thesis
      using less.prems unfolding compacted_def by (intro exI [of _ "nat i"]) auto
  qed
  note step = compact_loop.simps [of rs i k, folded j_def]
  show ?case
  proof (cases "i < k")
    case False
    then show ?thesis
      using step stop by simp
  next
    case True
    show ?thesis
    proof (cases "used (rs ! nat i)")
      case used: True
      have "\<forall>x<nat (i + 1). used (rs ! x)"
        using less.prems used by (auto simp: nat_add_distrib less_Suc_eq)
      then show ?thesis
        using less.hyps [of k "i + 1" rs] less.prems True used step by simp
    next
      case free: False
      have j: "i \<le> j" "j \<le> k" "\<forall>x. j < x \<longrightarrow> x \<le> k \<longrightarrow> r_end (rs ! nat x) = 0" "j \<noteq> i \<longrightarrow> used (rs ! nat j)"
        using last_used_bounds [of i k rs] last_used_eq [of i k rs] True unfolding j_def by auto
      have above: "r_end (rs ! x) = 0" if "x < length rs" "j < int x" for x
        using j(3) [rule_format, of "int x"] less.prems(5) that by (cases "int x \<le> k") auto
      show ?thesis
      proof (cases "j = i")
        case True
        then show ?thesis
          using step stop above free \<open>i < k\<close> by (simp add: Let_def)
      next
        case False
        let ?rs = "rs[nat i := rs ! nat j, nat j := no_range]"
        have b: "nat i < length rs" "nat j < length rs" "nat i \<noteq> nat j"
          using less.prems j False True by auto
        have "\<forall>x<nat (i + 1). used (?rs ! x)"
          using less.prems j b False by (auto simp: nat_add_distrib less_Suc_eq nth_list_update)
        moreover have "\<forall>x<length ?rs. j - 1 < int x \<longrightarrow> r_end (?rs ! x) = 0"
          using above b j False by (auto simp: nth_list_update)
        ultimately show ?thesis
          using less.hyps [of "j - 1" "i + 1" ?rs] less.prems j False True step free filter_move [OF b]
          by (simp add: Let_def)
      qed
    qed
  qed
qed

lemma compacted_spare:
  assumes "compacted rs"
  shows "filter used rs = take (spare_slot rs) rs" and "\<forall>r\<in>set (drop (spare_slot rs) rs). r_end r = 0"
proof -
  obtain n where n: "n \<le> length rs" "\<forall>x<n. used (rs ! x)" "\<forall>x<length rs. n \<le> x \<longrightarrow> r_end (rs ! x) = 0"
    using assms by (auto simp: compacted_def)
  have "spare_slot rs = n"
    using n spare_slot_used [of n rs] spare_slot_free [of rs] spare_slot_le [of rs]
    by (metis linorder_neqE_nat order_less_le_trans order_le_less)
  moreover have "\<forall>r\<in>set (take n rs). used r"
    using n by (auto simp: in_set_conv_nth)
  moreover have free: "\<forall>r\<in>set (drop n rs). r_end r = 0"
    using n by (auto simp: in_set_conv_nth)
  moreover have "filter used rs = filter used (take n rs) @ filter used (drop n rs)"
    by (metis append_take_drop_id filter_append)
  ultimately show "filter used rs = take (spare_slot rs) rs" "\<forall>r\<in>set (drop (spare_slot rs) rs). r_end r = 0"
    by (simp_all add: filter_empty_conv filter_id_conv)
qed

subsection \<open>Sorting\<close>

lemma length_range_bytes [simp]: "length (range_bytes r) = 16"
  by (simp add: range_bytes_def)

lemma range_of_bytes [simp]: "range_of (range_bytes r) = r"
  by (simp add: range_of_def range_bytes_def le_word_bytes)

text \<open>The comparison is right as long as the starts are less than 2 GB apart.\<close>

lemma cmp_range_small:
  assumes "unat (r_start x) < 2 ^ 31" and "unat (r_start y) < 2 ^ 31"
  shows "cmp_range (range_bytes x) (range_bytes y) = int (unat (r_start x)) - int (unat (r_start y))"
proof -
  let ?k = "int (unat (r_start x)) - int (unat (r_start y))"
  have "r_start x - r_start y = word_of_int ?k"
    unfolding int_unat by (rule word_sub_wi)
  then have "sint (ucast (r_start x - r_start y) :: u32) = signed_take_bit 31 (take_bit 64 ?k)"
    by (simp add: unsigned_of_int signed_of_int del: of_int_diff)
  also have "\<dots> = signed_take_bit 31 ?k"
    by (rule bit_eqI) (simp add: bit_simps min_def)
  also have "\<dots> = ?k"
  proof -
    have "unat (r_start x) < 2147483648" "unat (r_start y) < 2147483648"
      using assms by simp_all
    then have "- 2147483648 \<le> ?k" "?k < 2147483648"
      by linarith+
    then show ?thesis
      using signed_take_bit_int_eq_self [of 31 ?k] by simp
  qed
  finally show ?thesis
    by (simp add: cmp_range_def)
qed

interpretation by_start: comparator cmp_range "range_bytes ` {r. unat (r_start r) < 2 ^ 31}"
  by unfold_locales (auto simp: cmp_range_small)

lemma decode_array:
  "map (\<lambda>i. range_of (take 16 (drop (i * 16) (concat (map range_bytes rs))))) [0..<length rs] = rs"
proof (rule nth_equalityI)
  fix i
  assume "i < length (map (\<lambda>i. range_of (take 16 (drop (i * 16) (concat (map range_bytes rs))))) [0..<length rs])"
  then have i: "i < length rs"
    by simp
  then have "take 16 (drop (i * 16) (concat (map range_bytes rs))) = range_bytes (rs ! i)"
    using mem_read_concat [of "map range_bytes rs" 16 i] by (auto simp: mem_read_def split: if_splits)
  then show "map (\<lambda>i. range_of (take 16 (drop (i * 16) (concat (map range_bytes rs))))) [0..<length rs] ! i = rs ! i"
    using i by simp
qed simp

lemma sort_range_eq:
  assumes "nr \<le> length rs" and "nr * 16 < 2 ^ 31" and "\<forall>r\<in>set (take nr rs). unat (r_start r) < 2 ^ 31"
  shows "\<exists>us. sort_range rs nr = Some (us @ drop nr rs) \<and> mset us = mset (take nr rs) \<and>
    sorted_wrt (\<lambda>x y. r_start x \<le> r_start y) us"
proof -
  obtain us where us: "sort_array (concat (map range_bytes (take nr rs))) (of_nat nr) (of_nat 16) cmp_range None
      = Some (concat (map range_bytes us))" "mset us = mset (take nr rs)"
    "sorted_wrt (\<lambda>x y. cmp_range (range_bytes x) (range_bytes y) \<le> 0) us"
  proof -
    have "range_bytes ` set (take nr rs) \<subseteq> range_bytes ` {r. unat (r_start r) < 2 ^ 31}"
      using assms(3) by auto
    then show ?thesis
      using sort_records [OF by_start.comparator_axioms, of range_bytes "take nr rs" 16 range_of] assms(1,2) that
      by (auto simp: min_absorb2)
  qed
  have len: "length us = nr"
    using mset_eq_length [OF us(2)] assms(1) by simp
  have small: "unat (r_start u) < 2 ^ 31" if "u \<in> set us" for u
    using assms(3) that mset_eq_setD [OF us(2)] by blast
  have "sorted_wrt (\<lambda>x y. r_start x \<le> r_start y) us"
    using us(3)
  proof (rule sorted_wrt_mono_rel [rotated])
    fix x y
    assume "x \<in> set us" "y \<in> set us" "cmp_range (range_bytes x) (range_bytes y) \<le> 0"
    then show "r_start x \<le> r_start y"
      using cmp_range_small [OF small small, of x y] by (simp add: word_le_def)
  qed
  then show ?thesis
    using us(1,2) len decode_array [of us] by (intro exI [of _ us]) (simp add: sort_range_def)
qed

subsection \<open>Properties\<close>

text \<open>C19: Subtracting a range takes away nothing but the given addresses and all of them. If the
  ranges are disjoint and a slot is free, exactly the given addresses are gone; without a free slot
  addresses behind them can be lost as well, which the code reports.\<close>

theorem subtract_range_exact:
  assumes "s < e"
  shows "covered (subtract_range rs s e) \<subseteq> covered rs - {s..<e} \<and>
    ((\<forall>i<length rs. \<forall>j<length rs. i \<noteq> j \<longrightarrow> addrs (rs ! i) \<inter> addrs (rs ! j) = {}) \<and>
     (\<exists>i<length rs. r_end (rs ! i) = 0) \<longrightarrow> covered (subtract_range rs s e) = covered rs - {s..<e})"
proof -
  let ?c = "subtract_range rs s e"
  have c: "?c = foldl (subtract_slot s e) rs [0..<length rs]"
    using assms by (simp add: subtract_range_def not_le)
  note loop = subtract_loop [OF assms order_refl, of rs, folded c]
  then have sub: "covered ?c \<subseteq> covered rs - {s..<e}"
    unfolding covered_def by fastforce
  moreover have "covered rs - {s..<e} \<subseteq> covered ?c" if "splittable s e rs 0"
    using loop that by blast
  ultimately show ?thesis
    using disjoint_splittable [OF _ _ assms] by blast
qed

theorem subtract_range_exact_witness:
  "covered (subtract_range [\<lparr>r_start = 10, r_end = 20\<rparr>, no_range] 12 15) =
     covered [\<lparr>r_start = 10, r_end = 20\<rparr>, no_range] - {12..<15}"
proof -
  let ?rs = "[\<lparr>r_start = 10, r_end = 20\<rparr>, no_range]"
  have "\<forall>i<length ?rs. \<forall>j<length ?rs. i \<noteq> j \<longrightarrow> addrs (?rs ! i) \<inter> addrs (?rs ! j) = {}"
    by (simp add: All_less_Suc addrs_def)
  moreover have "\<exists>i<length ?rs. r_end (?rs ! i) = 0"
    by (intro exI [of _ 1]) simp
  ultimately show ?thesis
    using subtract_range_exact [of 12 15 ?rs] by simp
qed

text \<open>Adding a range with merging adds exactly the given addresses, unless the array is full
  and no range touches the new one, in which case the array is unchanged; no access leaves the
  array.\<close>

theorem add_range_with_merge_exact:
  assumes "s < e" and "nr \<le> length rs" and "nr < length rs \<longrightarrow> r_end (rs ! nr) = 0"
  shows "\<exists>rs' nr'. add_range_with_merge rs nr s e = Some (rs', nr') \<and> length rs' = length rs \<and>
    nr \<le> nr' \<and> nr' \<le> length rs \<and>
    (covered rs' = covered rs \<union> {s..<e} \<or> nr = length rs \<and> rs' = rs \<and> nr' = nr)"
proof -
  obtain rs1 m where m: "merge_loop rs 0 nr s e = Some (rs1, m)" "length rs1 = length rs"
    "if m then covered rs1 = covered rs \<union> {s..<e} else rs1 = rs"
    using merge_loop_eq [OF assms(2)] by blast
  show ?thesis
  proof (cases m)
    case True
    then show ?thesis
      using m assms by (simp add: add_range_with_merge_def not_le)
  next
    case False
    have "covered (rs[nr := \<lparr>r_start = s, r_end = e\<rparr>]) = covered rs \<union> {s..<e}" if "nr < length rs"
      using covered_update_add [of nr rs "\<lparr>r_start = s, r_end = e\<rparr>" "{s..<e}"] that assms(3)
      by (simp add: addrs_free) (simp add: addrs_def)
    then show ?thesis
      using False m assms by (auto simp: add_range_with_merge_def add_range_def not_le)
  qed
qed

theorem add_range_with_merge_exact_witness:
  "\<exists>rs' nr'. add_range_with_merge [\<lparr>r_start = 10, r_end = 20\<rparr>, no_range] 1 20 25 = Some (rs', nr') \<and>
     covered rs' = covered [\<lparr>r_start = 10, r_end = 20\<rparr>, no_range] \<union> {20..<25}"
  using add_range_with_merge_exact [of 20 25 1 "[\<lparr>r_start = 10, r_end = 20\<rparr>, no_range]"] by auto

text \<open>C21: Cleaning and sorting an array moves the ranges in use to the front, in the order of
  their starts, loses none, and returns their number, as long as they start below 2 GB.\<close>

theorem clean_sort_range_sorts:
  assumes "length rs * 16 < 2 ^ 31" and "\<forall>r\<in>set rs. unat (r_start r) < 2 ^ 31"
  shows "\<exists>us fs. clean_sort_range rs = Some (us @ fs, length us) \<and> mset us = mset (filter used rs) \<and>
    sorted_wrt (\<lambda>x y. r_start x \<le> r_start y) us \<and> (\<forall>r\<in>set fs. r_end r = 0) \<and> length (us @ fs) = length rs"
proof -
  let ?c = "compact_loop rs 0 (int (length rs) - 1)"
  let ?n = "spare_slot ?c"
  have c: "length ?c = length rs" "compacted ?c" "mset (filter used ?c) = mset (filter used rs)"
    using compact_loop_eq [of 0 "int (length rs) - 1" rs] by auto
  have n: "?n \<le> length rs"
    using spare_slot_le [of ?c] c(1) by simp
  have take: "mset (take ?n ?c) = mset (filter used rs)"
    using compacted_spare(1) [OF c(2)] c(3) by simp
  have "\<forall>r\<in>set (take ?n ?c). unat (r_start r) < 2 ^ 31"
    using assms(2) mset_eq_setD [OF take] by auto
  moreover have "?n * 16 < 2 ^ 31"
    using n assms(1) by linarith
  ultimately obtain us where us: "sort_range ?c ?n = Some (us @ drop ?n ?c)" "mset us = mset (take ?n ?c)"
    "sorted_wrt (\<lambda>x y. r_start x \<le> r_start y) us"
    using sort_range_eq [of ?n ?c] n c(1) by auto
  have "length us = ?n"
    using mset_eq_length [OF us(2)] n c(1) by simp
  then show ?thesis
    using us take compacted_spare(2) [OF c(2)] n c(1)
    by (intro exI [of _ us] exI [of _ "drop ?n ?c"]) (simp add: clean_sort_range_def Let_def)
qed

theorem clean_sort_range_sorts_witness:
  "\<exists>us fs. clean_sort_range [no_range, \<lparr>r_start = 30, r_end = 40\<rparr>, \<lparr>r_start = 10, r_end = 20\<rparr>] = Some (us @ fs, length us) \<and>
     mset us = {#\<lparr>r_start = 30, r_end = 40\<rparr>, \<lparr>r_start = 10, r_end = 20\<rparr>#} \<and>
     sorted_wrt (\<lambda>x y. r_start x \<le> r_start y) us"
  using clean_sort_range_sorts [of "[no_range, \<lparr>r_start = 30, r_end = 40\<rparr>, \<lparr>r_start = 10, r_end = 20\<rparr>]"] by auto

text \<open>Above 2 GB the comparison is wrong, since it returns a 64-bit difference as an
  \<open>int\<close>: a range that starts at 3 GB sorts before one that starts at 0, and ranges that start
  4 GB apart compare as equal.\<close>

theorem cmp_range_truncates:
  "cmp_range (range_bytes \<lparr>r_start = 0xC0000000, r_end = 0xC0001000\<rparr>) (range_bytes \<lparr>r_start = 0, r_end = 4096\<rparr>) < 0 \<and>
   cmp_range (range_bytes \<lparr>r_start = 0x100000000, r_end = 0x100001000\<rparr>) (range_bytes \<lparr>r_start = 0, r_end = 4096\<rparr>) = 0 \<and>
   sort_range [\<lparr>r_start = 0, r_end = 4096\<rparr>, \<lparr>r_start = 0xC0000000, r_end = 0xC0001000\<rparr>] 2 =
     Some [\<lparr>r_start = 0xC0000000, r_end = 0xC0001000\<rparr>, \<lparr>r_start = 0, r_end = 4096\<rparr>]"
proof -
  let ?a = "\<lparr>r_start = 0, r_end = 4096\<rparr>" and ?b = "\<lparr>r_start = 0xC0000000, r_end = 0xC0001000\<rparr>"
  have cmp: "cmp_range (range_bytes ?b) (range_bytes ?a) < 0" "0 < cmp_range (range_bytes ?a) (range_bytes ?b)"
    by (simp_all add: cmp_range_def)
  have "heap_sort cmp_range [range_bytes ?a, range_bytes ?b] = [range_bytes ?b, range_bytes ?a]"
    using cmp by (simp add: heap_sort_def sift.simps big_child_def numeral_2_eq_2)
  then have "sort_array (concat [range_bytes ?a, range_bytes ?b]) 2 16 cmp_range None =
      Some (concat (map range_bytes [?b, ?a]))"
    using sort_array_default [of 16 "[range_bytes ?a, range_bytes ?b]" 2 cmp_range] by simp
  then have "sort_range [?a, ?b] 2 = Some [?b, ?a]"
    by (simp add: sort_range_def numeral_2_eq_2)
  then show ?thesis
    using cmp by (simp add: cmp_range_def)
qed

end
