(* ===== verification/List_Sort.thy ===== *)
theory List_Sort
  imports Sort
begin

text \<open>
  The merge sort of linked lists, \<open>lib/list_sort.c\<close>. A null-terminated list of nodes is the
  list of its nodes, \<open>NULL\<close> the empty list; the forward links are then the order of the list.
  The backward links, which only the last step writes, are the list of the assignments
  \<open>node->prev = target\<close> it makes.
\<close>

subsection \<open>Merging\<close>

fun merge :: "('a \<Rightarrow> 'a \<Rightarrow> int) \<Rightarrow> 'a list \<Rightarrow> 'a list \<Rightarrow> 'a list" where
  "merge cmp (x # a) (y # b) = (if cmp x y \<le> 0 then x # merge cmp a (y # b) else y # merge cmp (x # a) b)"
| "merge cmp [] b = b"
| "merge cmp a [] = a"

text \<open>The loop that sets the backward links of the rest of the list.\<close>

fun restore_loop :: "'a \<Rightarrow> 'a list \<Rightarrow> 'a list \<times> ('a \<times> 'a) list" where
  "restore_loop tail [] = ([], [])"
| "restore_loop tail (x # rest) = (let (ord, prevs) = restore_loop x rest in (x # ord, (x, tail) # prevs))"

fun merge_back_loop :: "('a \<Rightarrow> 'a \<Rightarrow> int) \<Rightarrow> 'a \<Rightarrow> 'a list \<Rightarrow> 'a list \<Rightarrow> ('a list \<times> ('a \<times> 'a) list) option" where
  "merge_back_loop cmp tail (x # a) (y # b) =
     (if cmp x y \<le> 0
      then do { (ord, prevs) \<leftarrow> merge_back_loop cmp x a (y # b); Some (x # ord, (x, tail) # prevs) }
      else do { (ord, prevs) \<leftarrow> merge_back_loop cmp y (x # a) b; Some (y # ord, (y, tail) # prevs) })"
| "merge_back_loop cmp tail [] (y # b) = Some (restore_loop tail (y # b))"
| "merge_back_loop cmp tail (x # a) [] = Some (restore_loop tail (x # a))"
| "merge_back_loop cmp tail [] [] = None"   \<comment> \<open>\<open>tail->next\<close> is \<open>NULL\<close> and is dereferenced\<close>

definition merge_and_restore_back_links ::
    "('a \<Rightarrow> 'a \<Rightarrow> int) \<Rightarrow> 'a \<Rightarrow> 'a list \<Rightarrow> 'a list \<Rightarrow> ('a list \<times> ('a \<times> 'a) list) option" where
  "merge_and_restore_back_links cmp head a b =
     do { (ord, prevs) \<leftarrow> merge_back_loop cmp head a b; Some (ord, prevs @ [(head, last ord)]) }"

subsection \<open>Sorting\<close>

abbreviation (input) MAX_LIST_LENGTH_BITS :: nat where "MAX_LIST_LENGTH_BITS \<equiv> 20"

text \<open>
  The loop over the levels: \<open>part\<close> is the array of sorted partial lists. Reading past the
  array is \<open>None\<close>.
\<close>

function level_loop :: "('a \<Rightarrow> 'a \<Rightarrow> int) \<Rightarrow> 'a list list \<Rightarrow> nat \<Rightarrow> 'a list \<Rightarrow> ('a list list \<times> nat \<times> 'a list) option" where
  "level_loop cmp part lev cur =
     (if length part \<le> lev then None
      else if part ! lev = [] then Some (part, lev, cur)
      else level_loop cmp (part[lev := []]) (lev + 1) (merge cmp (part ! lev) cur))"
  by pat_completeness auto
termination
  by (relation "measure (\<lambda>(_, part, lev, _). length part - lev)") auto

declare level_loop.simps [simp del]

text \<open>One element of the list.\<close>

definition add_node :: "('a \<Rightarrow> 'a \<Rightarrow> int) \<Rightarrow> 'a list list \<Rightarrow> nat \<Rightarrow> 'a \<Rightarrow> ('a list list \<times> nat) option" where
  "add_node cmp part max_lev node =
     do { (part, lev, cur) \<leftarrow> level_loop cmp part 0 [node];
          let lev' = (if max_lev < lev \<and> length part - 1 \<le> lev then lev - 1 else lev);
          let max_lev' = (if max_lev < lev then lev' else max_lev);
          Some (part[lev' := cur], max_lev') }"

fun add_nodes :: "('a \<Rightarrow> 'a \<Rightarrow> int) \<Rightarrow> 'a list list \<Rightarrow> nat \<Rightarrow> 'a list \<Rightarrow> ('a list list \<times> nat) option" where
  "add_nodes cmp part max_lev [] = Some (part, max_lev)"
| "add_nodes cmp part max_lev (node # nodes) =
     do { (part, max_lev) \<leftarrow> add_node cmp part max_lev node; add_nodes cmp part max_lev nodes }"

definition collect_parts :: "('a \<Rightarrow> 'a \<Rightarrow> int) \<Rightarrow> 'a list list \<Rightarrow> nat \<Rightarrow> 'a list" where
  "collect_parts cmp part max_lev =
     foldl (\<lambda>acc lev. if part ! lev \<noteq> [] then merge cmp (part ! lev) acc else acc) [] [0..<max_lev]"

definition list_sort :: "('a \<Rightarrow> 'a \<Rightarrow> int) \<Rightarrow> 'a \<Rightarrow> 'a list \<Rightarrow> ('a list \<times> ('a \<times> 'a) list) option" where
  "list_sort cmp head nodes =
     (if nodes = [] then Some ([], [])
      else do { (part, max_lev) \<leftarrow> add_nodes cmp (replicate (MAX_LIST_LENGTH_BITS + 1) []) 0 nodes;
                merge_and_restore_back_links cmp head (part ! max_lev) (collect_parts cmp part max_lev) })"

subsection \<open>Merging is stable\<close>

lemma merge_induct [case_names Nil Cons_Nil Cons_Cons]:
  assumes "\<And>b. P [] b" and "\<And>x a. P (x # a) []"
    and "\<And>x a y b. P a (y # b) \<Longrightarrow> P (x # a) b \<Longrightarrow> P (x # a) (y # b)"
  shows "P a b"
proof (induction "length a + length b" arbitrary: a b rule: less_induct)
  case less
  then show ?case
    using assms by (cases a; cases b) auto
qed

context comparator
begin

abbreviation ordered :: "'a list \<Rightarrow> bool" where
  "ordered xs \<equiv> set xs \<subseteq> A \<and> sorted_wrt (\<lambda>x y. cmp x y \<le> 0) xs"

text \<open>The elements of a list that count as equal to a given one, in their order.\<close>

abbreviation same :: "'a \<Rightarrow> 'a list \<Rightarrow> 'a list" where
  "same z xs \<equiv> filter (\<lambda>y. cmp z y = 0) xs"

lemma set_merge: "set (merge cmp a b) = set a \<union> set b"
  by (induction a b rule: merge_induct) auto

lemma mset_merge: "mset (merge cmp a b) = mset a + mset b"
  by (induction a b rule: merge_induct) auto

lemma ordered_merge: "ordered a \<Longrightarrow> ordered b \<Longrightarrow> ordered (merge cmp a b)"
proof (induction a b rule: merge_induct)
  case (Cons_Cons x a y b)
  have A: "x \<in> A" "y \<in> A" "set a \<subseteq> A" "set b \<subseteq> A"
    using Cons_Cons.prems by auto
  show ?case
  proof (cases "cmp x y \<le> 0")
    case True
    have "cmp x u \<le> 0" if "u \<in> set b" for u
      using cmp_trans [of x y u] True A that Cons_Cons.prems by auto
    then show ?thesis
      using True Cons_Cons A by (auto simp: set_merge)
  next
    case False
    then have yx: "cmp y x \<le> 0"
      using cmp_sign [of y x] A by linarith
    have "cmp y u \<le> 0" if "u \<in> set a" for u
      using cmp_trans [of y x u] yx A that Cons_Cons.prems by auto
    then show ?thesis
      using False yx Cons_Cons A by (auto simp: set_merge)
  qed
qed auto

lemma same_merge: "ordered a \<Longrightarrow> ordered b \<Longrightarrow> z \<in> A \<Longrightarrow> same z (merge cmp a b) = same z a @ same z b"
proof (induction a b rule: merge_induct)
  case (Cons_Cons x a y b)
  have A: "x \<in> A" "y \<in> A" "set a \<subseteq> A" "set b \<subseteq> A"
    using Cons_Cons.prems by auto
  show ?case
  proof (cases "cmp x y \<le> 0 \<or> cmp z y \<noteq> 0")
    case True
    then show ?thesis
      using Cons_Cons by auto
  next
    case False
    have "cmp z u \<noteq> 0" if u: "u \<in> set (x # a)" for u
    proof
      assume "cmp z u = 0"
      then have "cmp u z \<le> 0"
        using cmp_flip [of z u] A u Cons_Cons.prems(3) by auto
      moreover have "cmp x u \<le> 0"
        using u Cons_Cons.prems(1) cmp_refl [OF A(1)] by auto
      ultimately have "cmp x z \<le> 0"
        using cmp_trans [of x u z] A u Cons_Cons.prems(3) by auto
      then show False
        using cmp_trans [of x z y] A Cons_Cons.prems(3) False by simp
    qed
    then have "same z (x # a) = []"
      by (simp add: filter_empty_conv)
    then show ?thesis
      using False Cons_Cons by auto
  qed
qed auto

end

subsection \<open>The partial lists\<close>

text \<open>The higher a level, the earlier in the list its nodes were.\<close>

abbreviation flat :: "'a list list \<Rightarrow> 'a list" where
  "flat part \<equiv> concat (rev part)"

lemma flat_level:
  assumes "l < length part" and "\<forall>i<l. part ! i = []"
  shows "flat (part[l := c]) = flat (part[l := []]) @ c" and "flat part = flat (part[l := []]) @ part ! l"
proof -
  have low: "concat (rev (take l part)) = []"
    using assms by (auto simp: in_set_conv_nth)
  show "flat (part[l := c]) = flat (part[l := []]) @ c"
    using assms(1) by (simp add: low upd_conv_take_nth_drop)
  show "flat part = flat (part[l := []]) @ part ! l"
    using assms(1) by (subst (1) id_take_nth_drop [OF assms(1)]) (simp add: low upd_conv_take_nth_drop)
qed

context comparator
begin

text \<open>The same nodes, those that count as equal in the same order.\<close>

definition alike :: "'a list \<Rightarrow> 'a list \<Rightarrow> bool" where
  "alike xs ys \<longleftrightarrow> mset xs = mset ys \<and> (\<forall>z\<in>A. same z xs = same z ys)"

lemma alike_refl [simp]: "alike xs xs"
  by (simp add: alike_def)

lemma alike_trans: "alike xs ys \<Longrightarrow> alike ys zs \<Longrightarrow> alike xs zs"
  by (simp add: alike_def)

lemma alike_append: "alike xs ys \<Longrightarrow> alike xs' ys' \<Longrightarrow> alike (xs @ xs') (ys @ ys')"
  by (simp add: alike_def)

lemma alike_merge: "ordered a \<Longrightarrow> ordered b \<Longrightarrow> alike (merge cmp a b) (a @ b)"
  by (simp add: alike_def mset_merge same_merge)

lemma alike_set: "alike xs ys \<Longrightarrow> set xs = set ys"
  by (auto simp: alike_def dest: mset_eq_setD)

lemma level_loop_eq:
  "lev < length part \<Longrightarrow> \<forall>p\<in>set part. ordered p \<Longrightarrow> last part = [] \<Longrightarrow> \<forall>i<lev. part ! i = [] \<Longrightarrow>
   ordered cur \<Longrightarrow> cur \<noteq> [] \<Longrightarrow>
   \<exists>part' lev' cur'. level_loop cmp part lev cur = Some (part', lev', cur') \<and> lev \<le> lev' \<and> lev' < length part \<and>
     length part' = length part \<and> (\<forall>p\<in>set part'. ordered p) \<and> (\<forall>i\<le>lev'. part' ! i = []) \<and>
     (\<forall>i. lev' < i \<longrightarrow> part' ! i = part ! i) \<and> ordered cur' \<and> cur' \<noteq> [] \<and>
     alike (flat part' @ cur') (flat part @ cur)"
proof (induction "length part - lev" arbitrary: part lev cur rule: less_induct)
  case less
  show ?case
  proof (cases "part ! lev = []")
    case True
    then show ?thesis
      using less.prems by (subst level_loop.simps) (auto simp: le_less)
  next
    case False
    let ?part = "part[lev := []]" and ?cur = "merge cmp (part ! lev) cur"
    have p: "ordered (part ! lev)"
      using less.prems(1,2) by simp
    have "part \<noteq> []"
      using less.prems(1) by auto
    then have lev: "lev + 1 < length part"
      using less.prems(1,3) False by (cases "lev = length part - 1") (auto simp: last_conv_nth)
    have last: "last ?part = []"
      using less.prems(3) lev \<open>part \<noteq> []\<close> by (simp add: last_conv_nth)
    have step: "level_loop cmp part lev cur = level_loop cmp ?part (lev + 1) ?cur"
      using False less.prems(1) by (subst level_loop.simps) simp
    have ne: "?cur \<noteq> []"
      using set_merge [of "part ! lev" cur] less.prems(6) by auto
    have ok: "\<forall>p\<in>set ?part. ordered p"
    proof
      fix p
      assume "p \<in> set ?part"
      then have "p = [] \<or> p \<in> set part"
        using set_update_subset_insert [of part lev "[]"] by blast
      then show "ordered p"
        using less.prems(2) by auto
    qed
    have empty: "\<forall>i<lev + 1. ?part ! i = []"
      using less.prems(1,4) by (auto simp: nth_list_update less_Suc_eq)
    have meas: "length ?part - (lev + 1) < length part - lev" "lev + 1 < length ?part"
      using lev by simp_all
    from less.hyps [OF meas(1) meas(2) ok last empty ordered_merge [OF p less.prems(5)] ne]
    obtain part' lev' cur' where r: "level_loop cmp ?part (lev + 1) ?cur = Some (part', lev', cur')" "lev + 1 \<le> lev'"
      "lev' < length ?part" "length part' = length ?part" "\<forall>p\<in>set part'. ordered p" "\<forall>i\<le>lev'. part' ! i = []"
      "\<forall>i. lev' < i \<longrightarrow> part' ! i = ?part ! i" "ordered cur'" "cur' \<noteq> []" "alike (flat part' @ cur') (flat ?part @ ?cur)"
      by blast
    have "alike (flat ?part @ ?cur) (flat ?part @ part ! lev @ cur)"
      using alike_append [OF alike_refl alike_merge [OF p less.prems(5)]] .
    then have "alike (flat part' @ cur') (flat part @ cur)"
      using alike_trans [OF r(10)] flat_level(2) [OF less.prems(1,4)] by simp
    moreover have "\<forall>i. lev' < i \<longrightarrow> part' ! i = part ! i"
      using r(2,7) by simp
    ultimately show ?thesis
      using step r by (intro exI [of _ part'] exI [of _ lev'] exI [of _ cur']) simp
  qed
qed

text \<open>What holds of the array of partial lists between two elements.\<close>

definition parts_ok :: "'a list list \<Rightarrow> nat \<Rightarrow> bool" where
  "parts_ok part max_lev \<longleftrightarrow>
     length part = 21 \<and> max_lev < 20 \<and> (\<forall>p\<in>set part. ordered p) \<and> (\<forall>i<21. max_lev < i \<longrightarrow> part ! i = [])"

lemma add_node_eq:
  assumes "parts_ok part max_lev" and "node \<in> A" and "max_lev = 0 \<or> part ! max_lev \<noteq> []"
  shows "\<exists>part' max_lev'. add_node cmp part max_lev node = Some (part', max_lev') \<and> parts_ok part' max_lev' \<and>
    part' ! max_lev' \<noteq> [] \<and> alike (flat part') (flat part @ [node])"
proof -
  have ok: "length part = 21" "max_lev < 20" "\<forall>p\<in>set part. ordered p" "\<forall>i<21. max_lev < i \<longrightarrow> part ! i = []"
    using assms(1) by (auto simp: parts_ok_def)
  then have "last part = []"
    by (subst last_conv_nth) auto
  then obtain part1 lev cur where r: "level_loop cmp part 0 [node] = Some (part1, lev, cur)" "lev < 21"
    "length part1 = 21" "\<forall>p\<in>set part1. ordered p" "\<forall>i\<le>lev. part1 ! i = []"
    "\<forall>i. lev < i \<longrightarrow> part1 ! i = part ! i" "ordered cur" "cur \<noteq> []" "alike (flat part1 @ cur) (flat part @ [node])"
    using level_loop_eq [of 0 part "[node]"] ok assms(2) by auto
  define lev' where "lev' = (if max_lev < lev \<and> 20 \<le> lev then lev - 1 else lev)"
  define max_lev' where "max_lev' = (if max_lev < lev then lev' else max_lev)"
  have add: "add_node cmp part max_lev node = Some (part1[lev' := cur], max_lev')"
    using r(1,3) by (simp add: add_node_def lev'_def max_lev'_def Let_def)
  have lev': "lev' \<le> lev" "lev' < 20" "lev' \<le> max_lev'" "max_lev' < 20"
    using r(2) ok(2) unfolding lev'_def max_lev'_def by auto
  have top: "part1 ! i = []" if "i < 21" "max_lev' < i" for i
  proof (cases "i \<le> lev")
    case True
    then show ?thesis
      using r(5) by simp
  next
    case False
    then have "max_lev < i"
      using that(2) unfolding max_lev'_def by (auto split: if_splits)
    then show ?thesis
      using False r(6) ok(4) that(1) by simp
  qed
  have "alike (flat (part1[lev' := cur])) (flat part @ [node])"
  proof -
    have "\<forall>i<lev'. part1 ! i = []" "part1 ! lev' = []" "lev' < length part1"
      using r(3,5) lev' by auto
    then show ?thesis
      using flat_level(1) [of lev' part1 cur] flat_level(2) [of lev' part1] r(9) by simp
  qed
  moreover have "parts_ok (part1[lev' := cur]) max_lev'"
    using r(3,4,7) lev' top set_update_subset_insert [of part1 lev' cur]
    by (auto simp: parts_ok_def nth_list_update)
  moreover have "part1[lev' := cur] ! max_lev' \<noteq> []"
  proof (cases "max_lev' = lev'")
    case True
    then show ?thesis
      using r(3,8) lev' by simp
  next
    case False
    then have m: "max_lev' = max_lev" "lev < max_lev" "lev' = lev"
      using lev' unfolding max_lev'_def lev'_def by (auto split: if_splits)
    then have "part1 ! max_lev = part ! max_lev"
      using r(6) by simp
    then show ?thesis
      using m assms(3) False by simp
  qed
  ultimately show ?thesis
    using add by blast
qed

lemma add_nodes_eq:
  "parts_ok part max_lev \<Longrightarrow> set nodes \<subseteq> A \<Longrightarrow> max_lev = 0 \<or> part ! max_lev \<noteq> [] \<Longrightarrow>
   \<exists>part' max_lev'. add_nodes cmp part max_lev nodes = Some (part', max_lev') \<and> parts_ok part' max_lev' \<and>
     (nodes \<noteq> [] \<longrightarrow> part' ! max_lev' \<noteq> []) \<and> alike (flat part') (flat part @ nodes)"
proof (induction nodes arbitrary: part max_lev)
  case Nil
  then show ?case
    by auto
next
  case (Cons node nodes)
  obtain part1 m1 where 1: "add_node cmp part max_lev node = Some (part1, m1)" "parts_ok part1 m1"
    "part1 ! m1 \<noteq> []" "alike (flat part1) (flat part @ [node])"
    using add_node_eq [of part max_lev node] Cons.prems by auto
  obtain part2 m2 where 2: "add_nodes cmp part1 m1 nodes = Some (part2, m2)" "parts_ok part2 m2"
    "nodes \<noteq> [] \<longrightarrow> part2 ! m2 \<noteq> []" "alike (flat part2) (flat part1 @ nodes)"
    using Cons.IH [of part1 m1] 1 Cons.prems by auto
  have "alike (flat part2) (flat part @ node # nodes)"
    using alike_trans [OF 2(4) alike_append [OF 1(4) alike_refl]] by simp
  moreover have "part2 ! m2 \<noteq> []"
    using 2(1,3) 1(3) by (cases nodes) auto
  ultimately show ?case
    using 1(1) 2(1,2) by simp
qed

lemma collect_parts_eq:
  assumes "\<forall>p\<in>set part. ordered p"
  shows "n \<le> length part \<Longrightarrow>
    ordered (collect_parts cmp part n) \<and> alike (collect_parts cmp part n) (flat (take n part))"
proof (induction n)
  case 0
  then show ?case
    by (simp add: collect_parts_def)
next
  case (Suc n)
  let ?acc = "collect_parts cmp part n"
  have IH: "ordered ?acc" "alike ?acc (flat (take n part))"
    using Suc by simp_all
  have p: "ordered (part ! n)"
    using assms Suc.prems by simp
  have c: "collect_parts cmp part (Suc n) = (if part ! n \<noteq> [] then merge cmp (part ! n) ?acc else ?acc)"
    by (simp add: collect_parts_def)
  have t: "flat (take (Suc n) part) = part ! n @ flat (take n part)"
    using Suc.prems by (simp add: take_Suc_conv_app_nth)
  show ?case
    using IH p ordered_merge [OF p IH(1)] alike_trans [OF alike_merge [OF p IH(1)] alike_append [OF alike_refl IH(2)]]
    unfolding c t by auto
qed

end

text \<open>The last merge: the order it produces and the backward links it writes.\<close>

fun back_links :: "'a \<Rightarrow> 'a list \<Rightarrow> ('a \<times> 'a) list" where
  "back_links tail [] = []"
| "back_links tail (x # xs) = (x, tail) # back_links x xs"

lemma restore_loop_eq: "restore_loop tail xs = (xs, back_links tail xs)"
  by (induction tail xs rule: back_links.induct) simp_all

lemma merge_back_loop_eq:
  "a \<noteq> [] \<or> b \<noteq> [] \<Longrightarrow> merge_back_loop cmp tail a b = Some (merge cmp a b, back_links tail (merge cmp a b))"
  by (induction cmp tail a b rule: merge_back_loop.induct) (auto simp: restore_loop_eq)

lemma back_links_zip: "back_links tail xs = zip xs (tail # xs)"
  by (induction tail xs rule: back_links.induct) simp_all

subsection \<open>Properties\<close>

text \<open>C18: For a comparison function that orders the nodes, \<open>list_sort\<close> returns, whatever the
  length of the list, with the same nodes in ascending order, nodes that compare as equal in the
  order they had (the sort is stable), and with backward links that are the inverse of the forward
  links.\<close>

theorem list_sort_stable:
  assumes "comparator cmp A" and "set nodes \<subseteq> A" and "nodes \<noteq> []"
  shows "\<exists>ord. list_sort cmp head nodes = Some (ord, zip ord (head # ord) @ [(head, last ord)]) \<and>
    mset ord = mset nodes \<and> sorted_wrt (\<lambda>x y. cmp x y \<le> 0) ord \<and>
    (\<forall>z\<in>A. filter (\<lambda>y. cmp z y = 0) ord = filter (\<lambda>y. cmp z y = 0) nodes)"
proof -
  have start: "comparator.parts_ok cmp A (replicate 21 []) 0"
    by (auto simp: comparator.parts_ok_def [OF assms(1)])
  obtain part m where r: "add_nodes cmp (replicate 21 []) 0 nodes = Some (part, m)" "comparator.parts_ok cmp A part m"
    "part ! m \<noteq> []" "comparator.alike cmp A (flat part) nodes"
    using comparator.add_nodes_eq [OF assms(1) start assms(2)] assms(3) by auto
  let ?acc = "collect_parts cmp part m"
  let ?ord = "merge cmp (part ! m) ?acc"
  have ok: "length part = 21" "m < 20" "\<forall>p\<in>set part. set p \<subseteq> A \<and> sorted_wrt (\<lambda>x y. cmp x y \<le> 0) p"
    "\<forall>i<21. m < i \<longrightarrow> part ! i = []"
    using r(2) unfolding comparator.parts_ok_def [OF assms(1)] by auto
  have acc: "set ?acc \<subseteq> A \<and> sorted_wrt (\<lambda>x y. cmp x y \<le> 0) ?acc" "comparator.alike cmp A ?acc (flat (take m part))"
    using comparator.collect_parts_eq [OF assms(1) ok(3), of m] ok(1,2) by auto
  have p: "set (part ! m) \<subseteq> A \<and> sorted_wrt (\<lambda>x y. cmp x y \<le> 0) (part ! m)"
    using ok by simp
  have "concat (rev (drop (Suc m) part)) = []"
    using ok(1,4) by (auto simp: in_set_conv_nth)
  then have "flat part = part ! m @ flat (take m part)"
    using ok(1,2) by (subst (1) id_take_nth_drop [of m]) simp_all
  then have "comparator.alike cmp A ?ord nodes"
    using comparator.alike_trans [OF assms(1) comparator.alike_trans [OF assms(1) comparator.alike_merge [OF assms(1) p acc(1)]] r(4)]
      comparator.alike_append [OF assms(1) comparator.alike_refl [OF assms(1)] acc(2), of "part ! m"] by simp
  moreover have "sorted_wrt (\<lambda>x y. cmp x y \<le> 0) ?ord"
    using comparator.ordered_merge [OF assms(1) p acc(1)] by simp
  moreover have "list_sort cmp head nodes = Some (?ord, zip ?ord (head # ?ord) @ [(head, last ?ord)])"
    using r(1,3) assms(3) merge_back_loop_eq [of "part ! m" ?acc cmp head]
    by (simp add: list_sort_def merge_and_restore_back_links_def back_links_zip)
  ultimately show ?thesis
    unfolding comparator.alike_def [OF assms(1)] by (intro exI [of _ ?ord]) simp
qed


definition cmp_key :: "nat \<times> nat \<Rightarrow> nat \<times> nat \<Rightarrow> int" where
  "cmp_key x y = int (fst x) - int (fst y)"

interpretation by_key: comparator cmp_key UNIV
  by unfold_locales (auto simp: cmp_key_def)

theorem list_sort_stable_witness:
  "\<exists>ord. list_sort cmp_key (0, 0) [(2, 1), (1, 2), (2, 3), (1, 4)] =
       Some (ord, zip ord ((0, 0) # ord) @ [((0, 0), last ord)]) \<and>
     filter (\<lambda>y. cmp_key (2, 0) y = 0) ord = [(2, 1), (2, 3)]"
proof -
  obtain ord where "list_sort cmp_key (0, 0) [(2, 1), (1, 2), (2, 3), (1, 4)] =
      Some (ord, zip ord ((0, 0) # ord) @ [((0, 0), last ord)])"
    and all: "\<forall>z\<in>UNIV. filter (\<lambda>y. cmp_key z y = 0) ord = filter (\<lambda>y. cmp_key z y = 0) [(2, 1), (1, 2), (2, 3), (1, 4)]"
    using list_sort_stable [OF by_key.comparator_axioms, of "[(2, 1), (1, 2), (2, 3), (1, 4)]" "(0, 0)"] by blast
  moreover have "filter (\<lambda>y. cmp_key (2, 0) y = 0) ord = [(2, 1), (2, 3)]"
    using bspec [OF all, of "(2, 0)"] by (simp add: cmp_key_def)
  ultimately show ?thesis
    by blast
qed

end
