(* ===== verification/Bitmap.thy ===== *)
theory Bitmap
  imports Kernel_Prelude
begin

text \<open>
  Bitmaps, \<open>lib/bitmap.c\<close>: a set of bit numbers below \<open>bits\<close> in an array of
  32-bit words. Each operation is shown to do on the words what its name says on the set of bit
  numbers. An access outside an array is \<open>None\<close>.
\<close>

subsection \<open>Words and masks\<close>

type_synonym bitmap = "u32 list"

definition BITS_TO_LONGS :: "nat \<Rightarrow> nat" where
  "BITS_TO_LONGS nr = (nr + 31) div 32"

definition BITMAP_LAST_WORD_MASK :: "nat \<Rightarrow> u32" where
  "BITMAP_LAST_WORD_MASK nbits = (if nbits mod 32 \<noteq> 0 then push_bit (nbits mod 32) 1 - 1 else NOT 0)"

definition BITMAP_FIRST_WORD_MASK :: "nat \<Rightarrow> u32" where
  "BITMAP_FIRST_WORD_MASK start = push_bit (start mod 32) (NOT 0)"

definition test_bit :: "nat \<Rightarrow> bitmap \<Rightarrow> bool option" where
  "test_bit nr addr = do { w \<leftarrow> arr_get addr (nr div 32); Some (bit w (nr mod 32)) }"

definition set_bit_at :: "nat \<Rightarrow> bitmap \<Rightarrow> bitmap option" where
  "set_bit_at nr addr =
     do { w \<leftarrow> arr_get addr (nr div 32); arr_set addr (nr div 32) (w OR push_bit (nr mod 32) 1) }"

definition bitmap_zero :: "bitmap \<Rightarrow> nat \<Rightarrow> bitmap option" where
  "bitmap_zero dst nbits = mem_write dst 0 (replicate (BITS_TO_LONGS nbits) 0)"

definition bitmap_fill :: "bitmap \<Rightarrow> nat \<Rightarrow> bitmap option" where
  "bitmap_fill dst nbits =
     (let nlongs = BITS_TO_LONGS nbits in
      if nlongs = 0 then None
      else do { dst \<leftarrow> mem_write dst 0 (replicate (nlongs - 1) (NOT 0));
                arr_set dst (nlongs - 1) (BITMAP_LAST_WORD_MASK nbits) })"

definition bitmap_copy :: "bitmap \<Rightarrow> bitmap \<Rightarrow> nat \<Rightarrow> bitmap option" where
  "bitmap_copy dst src nbits =
     do { ws \<leftarrow> mem_read src 0 (BITS_TO_LONGS nbits); mem_write dst 0 ws }"

subsection \<open>Tests\<close>

text \<open>The loops over the full words, which return as soon as a word (or a pair of words) decides.\<close>

function some_word :: "(u32 \<Rightarrow> bool) \<Rightarrow> bitmap \<Rightarrow> nat \<Rightarrow> nat \<Rightarrow> bool option" where
  "some_word P bm k lim =
     (if k < lim
      then do { w \<leftarrow> arr_get bm k; if P w then Some True else some_word P bm (k + 1) lim }
      else Some False)"
  by pat_completeness auto
termination
  by (relation "measure (\<lambda>(_, _, k, lim). lim - k)") auto

function some_word2 :: "(u32 \<Rightarrow> u32 \<Rightarrow> bool) \<Rightarrow> bitmap \<Rightarrow> bitmap \<Rightarrow> nat \<Rightarrow> nat \<Rightarrow> bool option" where
  "some_word2 P bm1 bm2 k lim =
     (if k < lim
      then do { v \<leftarrow> arr_get bm1 k; w \<leftarrow> arr_get bm2 k;
                if P v w then Some True else some_word2 P bm1 bm2 (k + 1) lim }
      else Some False)"
  by pat_completeness auto
termination
  by (relation "measure (\<lambda>(_, _, _, k, lim). lim - k)") auto

declare some_word.simps [simp del] some_word2.simps [simp del]

definition bitmap_empty :: "bitmap \<Rightarrow> nat \<Rightarrow> bool option" where
  "bitmap_empty bitmap bits =
     do { let lim = bits div 32;
          found \<leftarrow> some_word (\<lambda>w. w \<noteq> 0) bitmap 0 lim;
          if found then Some False
          else if bits mod 32 \<noteq> 0
          then do { w \<leftarrow> arr_get bitmap lim; Some (w AND BITMAP_LAST_WORD_MASK bits = 0) }
          else Some True }"

definition bitmap_full :: "bitmap \<Rightarrow> nat \<Rightarrow> bool option" where
  "bitmap_full bitmap bits =
     do { let lim = bits div 32;
          found \<leftarrow> some_word (\<lambda>w. NOT w \<noteq> 0) bitmap 0 lim;
          if found then Some False
          else if bits mod 32 \<noteq> 0
          then do { w \<leftarrow> arr_get bitmap lim; Some (NOT w AND BITMAP_LAST_WORD_MASK bits = 0) }
          else Some True }"

definition bitmap_equal :: "bitmap \<Rightarrow> bitmap \<Rightarrow> nat \<Rightarrow> bool option" where
  "bitmap_equal bitmap1 bitmap2 bits =
     do { let lim = bits div 32;
          found \<leftarrow> some_word2 (\<lambda>v w. v \<noteq> w) bitmap1 bitmap2 0 lim;
          if found then Some False
          else if bits mod 32 \<noteq> 0
          then do { v \<leftarrow> arr_get bitmap1 lim; w \<leftarrow> arr_get bitmap2 lim;
                    Some ((v XOR w) AND BITMAP_LAST_WORD_MASK bits = 0) }
          else Some True }"

definition bitmap_intersects :: "bitmap \<Rightarrow> bitmap \<Rightarrow> nat \<Rightarrow> bool option" where
  "bitmap_intersects bitmap1 bitmap2 bits =
     do { let lim = bits div 32;
          found \<leftarrow> some_word2 (\<lambda>v w. v AND w \<noteq> 0) bitmap1 bitmap2 0 lim;
          if found then Some True
          else if bits mod 32 \<noteq> 0
          then do { v \<leftarrow> arr_get bitmap1 lim; w \<leftarrow> arr_get bitmap2 lim;
                    Some ((v AND w) AND BITMAP_LAST_WORD_MASK bits \<noteq> 0) }
          else Some False }"

definition bitmap_subset :: "bitmap \<Rightarrow> bitmap \<Rightarrow> nat \<Rightarrow> bool option" where
  "bitmap_subset bitmap1 bitmap2 bits =
     do { let lim = bits div 32;
          found \<leftarrow> some_word2 (\<lambda>v w. v AND NOT w \<noteq> 0) bitmap1 bitmap2 0 lim;
          if found then Some False
          else if bits mod 32 \<noteq> 0
          then do { v \<leftarrow> arr_get bitmap1 lim; w \<leftarrow> arr_get bitmap2 lim;
                    Some ((v AND NOT w) AND BITMAP_LAST_WORD_MASK bits = 0) }
          else Some True }"

subsection \<open>Boolean operations\<close>

function fill_words :: "(u32 \<Rightarrow> u32 \<Rightarrow> u32) \<Rightarrow> bitmap \<Rightarrow> bitmap \<Rightarrow> bitmap \<Rightarrow> nat \<Rightarrow> nat \<Rightarrow> u32 \<Rightarrow> (bitmap \<times> u32) option" where
  "fill_words f dst bm1 bm2 k nr result =
     (if k < nr
      then do { v \<leftarrow> arr_get bm1 k; w \<leftarrow> arr_get bm2 k;
                dst \<leftarrow> arr_set dst k (f v w);
                fill_words f dst bm1 bm2 (k + 1) nr (result OR f v w) }
      else Some (dst, result))"
  by pat_completeness auto
termination
  by (relation "measure (\<lambda>(_, _, _, _, k, nr, _). nr - k)") auto

declare fill_words.simps [simp del]

definition bitmap_complement :: "bitmap \<Rightarrow> bitmap \<Rightarrow> nat \<Rightarrow> bitmap option" where
  "bitmap_complement dst src bits =
     do { let lim = bits div 32;
          (dst, _) \<leftarrow> fill_words (\<lambda>v _. NOT v) dst src src 0 lim 0;
          if bits mod 32 \<noteq> 0
          then do { w \<leftarrow> arr_get src lim; arr_set dst lim (NOT w AND BITMAP_LAST_WORD_MASK bits) }
          else Some dst }"

definition bitmap_and :: "bitmap \<Rightarrow> bitmap \<Rightarrow> bitmap \<Rightarrow> nat \<Rightarrow> (bitmap \<times> bool) option" where
  "bitmap_and dst bitmap1 bitmap2 bits =
     do { (dst, result) \<leftarrow> fill_words (\<lambda>v w. v AND w) dst bitmap1 bitmap2 0 (BITS_TO_LONGS bits) 0;
          Some (dst, result \<noteq> 0) }"

definition bitmap_or :: "bitmap \<Rightarrow> bitmap \<Rightarrow> bitmap \<Rightarrow> nat \<Rightarrow> bitmap option" where
  "bitmap_or dst bitmap1 bitmap2 bits =
     do { (dst, _) \<leftarrow> fill_words (\<lambda>v w. v OR w) dst bitmap1 bitmap2 0 (BITS_TO_LONGS bits) 0; Some dst }"

definition bitmap_xor :: "bitmap \<Rightarrow> bitmap \<Rightarrow> bitmap \<Rightarrow> nat \<Rightarrow> bitmap option" where
  "bitmap_xor dst bitmap1 bitmap2 bits =
     do { (dst, _) \<leftarrow> fill_words (\<lambda>v w. v XOR w) dst bitmap1 bitmap2 0 (BITS_TO_LONGS bits) 0; Some dst }"

definition bitmap_andnot :: "bitmap \<Rightarrow> bitmap \<Rightarrow> bitmap \<Rightarrow> nat \<Rightarrow> (bitmap \<times> bool) option" where
  "bitmap_andnot dst bitmap1 bitmap2 bits =
     do { (dst, result) \<leftarrow> fill_words (\<lambda>v w. v AND NOT w) dst bitmap1 bitmap2 0 (BITS_TO_LONGS bits) 0;
          Some (dst, result \<noteq> 0) }"

subsection \<open>Runs of bits\<close>

text \<open>
  The loop over the full words of a run, which \<open>bitmap_set\<close> and \<open>bitmap_clear\<close>
  share: it returns the array, the position and mask of the word that is left and the bits left.
  \<open>bits_to_set\<close> is always positive (the test makes the recursion well-founded).
\<close>

function run_loop :: "(u32 \<Rightarrow> u32 \<Rightarrow> u32) \<Rightarrow> bitmap \<Rightarrow> nat \<Rightarrow> int \<Rightarrow> int \<Rightarrow> u32 \<Rightarrow> (bitmap \<times> nat \<times> int \<times> u32) option" where
  "run_loop f bm p nr bits_to_set mask_to_set =
     (if 0 < bits_to_set \<and> 0 \<le> nr - bits_to_set
      then do { w \<leftarrow> arr_get bm p;
                bm \<leftarrow> arr_set bm p (f w mask_to_set);
                run_loop f bm (p + 1) (nr - bits_to_set) 32 (NOT 0) }
      else Some (bm, p, nr, mask_to_set))"
  by pat_completeness auto
termination
  by (relation "measure (\<lambda>(_, _, _, nr, _). nat nr)") auto

declare run_loop.simps [simp del]

definition bitmap_run :: "(u32 \<Rightarrow> u32 \<Rightarrow> u32) \<Rightarrow> bitmap \<Rightarrow> nat \<Rightarrow> nat \<Rightarrow> bitmap option" where
  "bitmap_run f bm start nr =
     do { let sz = start + nr;
          (bm, p, nr, mask) \<leftarrow> run_loop f bm (start div 32) (int nr) (32 - int (start mod 32))
             (BITMAP_FIRST_WORD_MASK start);
          if nr \<noteq> 0
          then do { w \<leftarrow> arr_get bm p; arr_set bm p (f w (mask AND BITMAP_LAST_WORD_MASK sz)) }
          else Some bm }"

definition bitmap_set :: "bitmap \<Rightarrow> nat \<Rightarrow> nat \<Rightarrow> bitmap option" where
  "bitmap_set bm start nr = bitmap_run (\<lambda>w mask. w OR mask) bm start nr"

definition bitmap_clear :: "bitmap \<Rightarrow> nat \<Rightarrow> nat \<Rightarrow> bitmap option" where
  "bitmap_clear bm start nr = bitmap_run (\<lambda>w mask. w AND NOT mask) bm start nr"

subsection \<open>The set of bits\<close>

definition bset :: "nat \<Rightarrow> bitmap \<Rightarrow> nat set" where
  "bset bits bm = {i. i < bits \<and> bit (bm ! (i div 32)) (i mod 32)}"

lemma BITS_TO_LONGS_eq: "BITS_TO_LONGS n = n div 32 + (if n mod 32 = 0 then 0 else 1)"
proof -
  have "n + 31 = n mod 32 + 31 + 32 * (n div 32)"
    by simp
  then have "BITS_TO_LONGS n = (n mod 32 + 31) div 32 + n div 32"
    unfolding BITS_TO_LONGS_def by (metis div_mult_self2 add.commute zero_neq_numeral)
  moreover have "(r + 31) div 32 = (if r = 0 then 0 else 1)" if "r < 32" for r :: nat
    using that by (auto intro: div_nat_eqI)
  ultimately show ?thesis
    by simp
qed

lemma word_index: "i < bits \<Longrightarrow> i div 32 < BITS_TO_LONGS bits"
  using div_le_mono [of "i + 32" "bits + 31" 32] by (simp add: BITS_TO_LONGS_def)

lemma bset_nth: "i < bits \<Longrightarrow> i \<in> bset bits bm \<longleftrightarrow> bit (bm ! (i div 32)) (i mod 32)"
  by (simp add: bset_def)

lemma finite_bset [simp]: "finite (bset bits bm)"
  by (rule finite_subset [of _ "{..<bits}"]) (auto simp: bset_def)

lemma bset_less: "i \<in> bset bits bm \<Longrightarrow> i < bits"
  by (simp add: bset_def)

text \<open>All bits: those of the full words and those of the last one.\<close>

lemma bit_pos: "j < 32 \<Longrightarrow> (k * 32 + j) div 32 = k \<and> (k * 32 + j) mod (32 :: nat) = j"
  by simp

lemma bit_pos_less:
  "k < n div 32 \<Longrightarrow> j < 32 \<Longrightarrow> k * 32 + j < (n :: nat)" "j < n mod 32 \<Longrightarrow> n div 32 * 32 + j < n"
proof -
  have n: "n div 32 * 32 + n mod 32 = n"
    by simp
  show "k * 32 + j < n" if "k < n div 32" "j < 32"
  proof -
    have "k * 32 + j < (k + 1) * 32"
      using that(2) by simp
    also have "\<dots> \<le> n div 32 * 32"
      using that(1) by (intro mult_le_mono1) simp
    also have "\<dots> \<le> n"
      by (rule div_times_less_eq_dividend)
    finally show ?thesis .
  qed
  show "n div 32 * 32 + j < n" if "j < n mod 32"
    using n that by (metis nat_add_left_cancel_less)
qed

lemma bit_pos_cases:
  assumes "i < (n :: nat)"
  obtains "i div 32 < n div 32" | "i div 32 = n div 32" "i mod 32 < n mod 32"
proof -
  have "i div 32 * 32 + i mod 32 < n div 32 * 32 + n mod 32" "i div 32 \<le> n div 32"
    using assms div_le_mono [of i n 32] by simp_all
  then show ?thesis
    using that by (metis le_neq_implies_less nat_add_left_cancel_less)
qed

lemma all_bits:
  "(\<forall>i<(bits :: nat). P (i div 32) (i mod 32)) \<longleftrightarrow>
   (\<forall>k<bits div 32. \<forall>j<32. P k j) \<and> (\<forall>j<bits mod 32. P (bits div 32) j)"
proof (intro iffI conjI allI impI)
  fix k j :: nat
  assume "\<forall>i<bits. P (i div 32) (i mod 32)" "k < bits div 32" "j < 32"
  then show "P k j"
    using bit_pos_less(1) bit_pos by metis
next
  fix j
  assume a: "\<forall>i<bits. P (i div 32) (i mod 32)" "j < bits mod 32"
  then have "j < 32"
    by (meson less_trans mod_less_divisor zero_less_numeral)
  then show "P (bits div 32) j"
    using a bit_pos_less(2) bit_pos by metis
next
  fix i
  assume a: "(\<forall>k<bits div 32. \<forall>j<32. P k j) \<and> (\<forall>j<bits mod 32. P (bits div 32) j)" "i < bits"
  from a(2) show "P (i div 32) (i mod 32)"
    by (rule bit_pos_cases) (use a(1) in auto)
qed

lemma bit_last_mask:
  "bits mod 32 \<noteq> 0 \<Longrightarrow> bit (BITMAP_LAST_WORD_MASK bits) j \<longleftrightarrow> j < bits mod 32"
proof -
  assume n: "bits mod 32 \<noteq> 0"
  have "push_bit (bits mod 32) 1 - 1 = (mask (bits mod 32) :: u32)"
    by (simp add: mask_eq_exp_minus_1 push_bit_eq_mult)
  then show ?thesis
    using n by (simp add: BITMAP_LAST_WORD_MASK_def bit_simps) (meson mod_less_divisor less_trans zero_less_numeral)
qed

lemma word_eq_0: "(w :: u32) = 0 \<longleftrightarrow> (\<forall>j<32. \<not> bit w j)"
  by (simp add: bit_eq_iff possible_bit_def)

lemma word_eq: "(v :: u32) = w \<longleftrightarrow> (\<forall>j<32. bit v j \<longleftrightarrow> bit w j)"
  by (simp add: bit_eq_iff possible_bit_def)

lemma masked_eq_0:
  "bits mod 32 \<noteq> 0 \<Longrightarrow> (w :: u32) AND BITMAP_LAST_WORD_MASK bits = 0 \<longleftrightarrow> (\<forall>j<bits mod 32. \<not> bit w j)"
  by (auto simp: word_eq_0 bit_simps bit_last_mask) (metis less_trans mod_less_divisor zero_less_numeral)

lemma some_word_eq: "lim \<le> length bm \<Longrightarrow> some_word P bm k lim = Some (\<exists>i<lim. k \<le> i \<and> P (bm ! i))"
proof (induction "lim - k" arbitrary: k)
  case 0
  then show ?case
    by (subst some_word.simps) auto
next
  case (Suc n)
  then have k: "k < lim" "n = lim - Suc k"
    by simp_all
  have "(\<exists>i<lim. k \<le> i \<and> P (bm ! i)) \<longleftrightarrow> P (bm ! k) \<or> (\<exists>i<lim. Suc k \<le> i \<and> P (bm ! i))"
    using k(1) by (auto simp: Suc_le_eq le_less)
  then show ?case
    using Suc.hyps(1) [OF k(2) Suc.prems] Suc.prems k(1) by (subst some_word.simps) simp
qed

lemma some_word2_eq:
  "lim \<le> length bm1 \<Longrightarrow> lim \<le> length bm2 \<Longrightarrow>
   some_word2 P bm1 bm2 k lim = Some (\<exists>i<lim. k \<le> i \<and> P (bm1 ! i) (bm2 ! i))"
proof (induction "lim - k" arbitrary: k)
  case 0
  then show ?case
    by (subst some_word2.simps) auto
next
  case (Suc n)
  then have k: "k < lim" "n = lim - Suc k"
    by simp_all
  have "(\<exists>i<lim. k \<le> i \<and> P (bm1 ! i) (bm2 ! i)) \<longleftrightarrow>
      P (bm1 ! k) (bm2 ! k) \<or> (\<exists>i<lim. Suc k \<le> i \<and> P (bm1 ! i) (bm2 ! i))"
    using k(1) by (auto simp: Suc_le_eq le_less)
  then show ?case
    using Suc.hyps(1) [OF k(2) Suc.prems] Suc.prems k(1) by (subst some_word2.simps) simp
qed

lemma longs_le: "BITS_TO_LONGS bits \<le> length bm \<Longrightarrow>
    bits div 32 \<le> length bm \<and> (bits mod 32 \<noteq> 0 \<longrightarrow> bits div 32 < length bm)"
  by (simp add: BITS_TO_LONGS_eq split: if_splits)

text \<open>A test of all bits by words.\<close>

lemma test_words:
  assumes "\<And>v w. P v w \<longleftrightarrow> (\<exists>j<32. Q (bit v j) (bit w j))"
    and "BITS_TO_LONGS bits \<le> length bm1" and "BITS_TO_LONGS bits \<le> length bm2"
    and "\<And>v w j. j < 32 \<Longrightarrow> bit (f v w) j \<longleftrightarrow> Q (bit v j) (bit w j)"
  shows "(\<exists>i<bits. Q (bit (bm1 ! (i div 32)) (i mod 32)) (bit (bm2 ! (i div 32)) (i mod 32))) \<longleftrightarrow>
    (\<exists>k<bits div 32. P (bm1 ! k) (bm2 ! k)) \<or>
    bits mod 32 \<noteq> 0 \<and> f (bm1 ! (bits div 32)) (bm2 ! (bits div 32)) AND BITMAP_LAST_WORD_MASK bits \<noteq> (0 :: u32)"
proof -
  have m: "(f v w AND BITMAP_LAST_WORD_MASK bits \<noteq> 0) \<longleftrightarrow> (\<exists>j<bits mod 32. Q (bit v j) (bit w j))" if "bits mod 32 \<noteq> 0" for v w
  proof -
    have "j < 32" if "j < bits mod 32" for j
      using that by (meson less_trans mod_less_divisor zero_less_numeral)
    then show ?thesis
      using masked_eq_0 [OF that, of "f v w"] assms(4) by blast
  qed
  have "(\<exists>i<bits. Q (bit (bm1 ! (i div 32)) (i mod 32)) (bit (bm2 ! (i div 32)) (i mod 32))) \<longleftrightarrow>
      (\<exists>k<bits div 32. \<exists>j<32. Q (bit (bm1 ! k) j) (bit (bm2 ! k) j)) \<or>
      (\<exists>j<bits mod 32. Q (bit (bm1 ! (bits div 32)) j) (bit (bm2 ! (bits div 32)) j))"
    using all_bits [of bits "\<lambda>k j. \<not> Q (bit (bm1 ! k) j) (bit (bm2 ! k) j)"] by blast
  then show ?thesis
    unfolding assms(1) using m by (cases "bits mod 32 = 0") simp_all
qed

lemma bitmap_empty_eq:
  assumes "BITS_TO_LONGS bits \<le> length bm"
  shows "bitmap_empty bm bits = Some (bset bits bm = {})"
proof -
  let ?A = "\<exists>k<bits div 32. bm ! k \<noteq> 0" and ?B = "bits mod 32 \<noteq> 0 \<and> bm ! (bits div 32) AND BITMAP_LAST_WORD_MASK bits \<noteq> 0"
  have "bitmap_empty bm bits = Some (\<not> (?A \<or> ?B))"
    using longs_le [OF assms] by (cases "bits mod 32 = 0") (auto simp: bitmap_empty_def some_word_eq Let_def)
  moreover have "(\<exists>i<bits. bit (bm ! (i div 32)) (i mod 32)) \<longleftrightarrow> ?A \<or> ?B"
    by (rule test_words [where Q = "\<lambda>a _. a" and f = "\<lambda>v _. v" and P = "\<lambda>v _. v \<noteq> 0"]) (use assms in \<open>auto simp: word_eq_0 bit_simps\<close>)
  moreover have "(bset bits bm = {}) \<longleftrightarrow> \<not> (\<exists>i<bits. bit (bm ! (i div 32)) (i mod 32))"
    by (auto simp: bset_def)
  ultimately show ?thesis
    by simp
qed

lemma bitmap_full_eq:
  assumes "BITS_TO_LONGS bits \<le> length bm"
  shows "bitmap_full bm bits = Some (bset bits bm = {..<bits})"
proof -
  let ?A = "\<exists>k<bits div 32. NOT (bm ! k) \<noteq> 0" and ?B = "bits mod 32 \<noteq> 0 \<and> NOT (bm ! (bits div 32)) AND BITMAP_LAST_WORD_MASK bits \<noteq> 0"
  have "bitmap_full bm bits = Some (\<not> (?A \<or> ?B))"
    using longs_le [OF assms] by (cases "bits mod 32 = 0") (auto simp: bitmap_full_def some_word_eq Let_def)
  moreover have "(\<exists>i<bits. \<not> bit (bm ! (i div 32)) (i mod 32)) \<longleftrightarrow> ?A \<or> ?B"
    by (rule test_words [where Q = "\<lambda>a _. \<not> a" and f = "\<lambda>v _. NOT v" and P = "\<lambda>v _. NOT v \<noteq> 0"]) (use assms in \<open>auto simp: word_eq_0 bit_simps\<close>)
  moreover have "(bset bits bm = {..<bits}) \<longleftrightarrow> \<not> (\<exists>i<bits. \<not> bit (bm ! (i div 32)) (i mod 32))"
    by (auto simp: bset_def)
  ultimately show ?thesis
    by simp
qed

lemma bitmap_equal_eq:
  assumes "BITS_TO_LONGS bits \<le> length bm1" and "BITS_TO_LONGS bits \<le> length bm2"
  shows "bitmap_equal bm1 bm2 bits = Some (bset bits bm1 = bset bits bm2)"
proof -
  let ?P = "\<lambda>v w. v \<noteq> w" and ?Q = "\<lambda>a b. a \<noteq> b" and ?f = "\<lambda>v w. v XOR w"
  let ?A = "\<exists>k<bits div 32. ?P (bm1 ! k) (bm2 ! k)"
    and ?B = "bits mod 32 \<noteq> 0 \<and> ?f (bm1 ! (bits div 32)) (bm2 ! (bits div 32)) AND BITMAP_LAST_WORD_MASK bits \<noteq> 0"
    and ?E = "\<exists>i<bits. ?Q (bit (bm1 ! (i div 32)) (i mod 32)) (bit (bm2 ! (i div 32)) (i mod 32))"
  have "bitmap_equal bm1 bm2 bits = Some (\<not> (?A \<or> ?B))"
    using longs_le [OF assms(1)] longs_le [OF assms(2)] by (cases "bits mod 32 = 0") (auto simp: bitmap_equal_def some_word2_eq Let_def)
  moreover have "?E \<longleftrightarrow> ?A \<or> ?B"
    by (rule test_words [where Q = ?Q and f = ?f and P = ?P]) (use assms in \<open>auto simp: word_eq bit_simps\<close>)
  moreover have "(bset bits bm1 = bset bits bm2) \<longleftrightarrow> \<not> ?E"
    by (auto simp: bset_def)
  ultimately show ?thesis
    by simp
qed

lemma bitmap_intersects_eq:
  assumes "BITS_TO_LONGS bits \<le> length bm1" and "BITS_TO_LONGS bits \<le> length bm2"
  shows "bitmap_intersects bm1 bm2 bits = Some (bset bits bm1 \<inter> bset bits bm2 \<noteq> {})"
proof -
  let ?P = "\<lambda>v w. v AND w \<noteq> 0" and ?Q = "\<lambda>a b. a \<and> b" and ?f = "\<lambda>v w. v AND w"
  let ?A = "\<exists>k<bits div 32. ?P (bm1 ! k) (bm2 ! k)"
    and ?B = "bits mod 32 \<noteq> 0 \<and> ?f (bm1 ! (bits div 32)) (bm2 ! (bits div 32)) AND BITMAP_LAST_WORD_MASK bits \<noteq> 0"
    and ?E = "\<exists>i<bits. ?Q (bit (bm1 ! (i div 32)) (i mod 32)) (bit (bm2 ! (i div 32)) (i mod 32))"
  have "bitmap_intersects bm1 bm2 bits = Some ((?A \<or> ?B))"
    using longs_le [OF assms(1)] longs_le [OF assms(2)] by (cases "bits mod 32 = 0") (auto simp: bitmap_intersects_def some_word2_eq Let_def)
  moreover have "?E \<longleftrightarrow> ?A \<or> ?B"
    by (rule test_words [where Q = ?Q and f = ?f and P = ?P]) (use assms in \<open>auto simp: word_eq_0 bit_simps\<close>)
  moreover have "(bset bits bm1 \<inter> bset bits bm2 \<noteq> {}) \<longleftrightarrow> ?E"
    by (auto simp: bset_def)
  ultimately show ?thesis
    by simp
qed

lemma bitmap_subset_eq:
  assumes "BITS_TO_LONGS bits \<le> length bm1" and "BITS_TO_LONGS bits \<le> length bm2"
  shows "bitmap_subset bm1 bm2 bits = Some (bset bits bm1 \<subseteq> bset bits bm2)"
proof -
  let ?P = "\<lambda>v w. v AND NOT w \<noteq> 0" and ?Q = "\<lambda>a b. a \<and> \<not> b" and ?f = "\<lambda>v w. v AND NOT w"
  let ?A = "\<exists>k<bits div 32. ?P (bm1 ! k) (bm2 ! k)"
    and ?B = "bits mod 32 \<noteq> 0 \<and> ?f (bm1 ! (bits div 32)) (bm2 ! (bits div 32)) AND BITMAP_LAST_WORD_MASK bits \<noteq> 0"
    and ?E = "\<exists>i<bits. ?Q (bit (bm1 ! (i div 32)) (i mod 32)) (bit (bm2 ! (i div 32)) (i mod 32))"
  have "bitmap_subset bm1 bm2 bits = Some (\<not> (?A \<or> ?B))"
    using longs_le [OF assms(1)] longs_le [OF assms(2)] by (cases "bits mod 32 = 0") (auto simp: bitmap_subset_def some_word2_eq Let_def)
  moreover have "?E \<longleftrightarrow> ?A \<or> ?B"
    by (rule test_words [where Q = ?Q and f = ?f and P = ?P]) (use assms in \<open>auto simp: word_eq_0 bit_simps\<close>)
  moreover have "(bset bits bm1 \<subseteq> bset bits bm2) \<longleftrightarrow> \<not> ?E"
    by (auto simp: bset_def)
  ultimately show ?thesis
    by simp
qed

subsection \<open>Boolean operations on the sets\<close>

lemma fill_words_ok:
  "nr \<le> length dst \<Longrightarrow> nr \<le> length bm1 \<Longrightarrow> nr \<le> length bm2 \<Longrightarrow>
   \<exists>dst' r'. fill_words f dst bm1 bm2 k nr r = Some (dst', r') \<and> length dst' = length dst \<and>
     (\<forall>i<length dst. dst' ! i = (if k \<le> i \<and> i < nr then f (bm1 ! i) (bm2 ! i) else dst ! i)) \<and>
     (r' \<noteq> 0 \<longleftrightarrow> r \<noteq> 0 \<or> (\<exists>i. k \<le> i \<and> i < nr \<and> f (bm1 ! i) (bm2 ! i) \<noteq> 0))"
proof (induction "nr - k" arbitrary: k dst r)
  case 0
  then show ?case
    by (subst fill_words.simps) auto
next
  case (Suc n)
  then have k: "k < nr" "n = nr - Suc k"
    by simp_all
  let ?v = "f (bm1 ! k) (bm2 ! k)"
  have "fill_words f dst bm1 bm2 k nr r = fill_words f (dst[k := ?v]) bm1 bm2 (Suc k) nr (r OR ?v)"
    using Suc.prems k(1) by (subst fill_words.simps) simp
  moreover obtain dst' r' where ih: "fill_words f (dst[k := ?v]) bm1 bm2 (Suc k) nr (r OR ?v) = Some (dst', r')"
      "length dst' = length dst"
      "\<forall>i<length dst. dst' ! i = (if Suc k \<le> i \<and> i < nr then f (bm1 ! i) (bm2 ! i) else dst[k := ?v] ! i)"
      "r' \<noteq> 0 \<longleftrightarrow> r OR ?v \<noteq> 0 \<or> (\<exists>i. Suc k \<le> i \<and> i < nr \<and> f (bm1 ! i) (bm2 ! i) \<noteq> 0)"
    using Suc.hyps(1) [OF k(2), of "dst[k := ?v]" "r OR ?v"] Suc.prems by auto
  moreover have "\<forall>i<length dst. dst' ! i = (if k \<le> i \<and> i < nr then f (bm1 ! i) (bm2 ! i) else dst ! i)"
    using ih(3) k(1) Suc.prems(1) by (auto simp: nth_list_update not_less_eq_eq dest: le_antisym)
  moreover have "r' \<noteq> 0 \<longleftrightarrow> r \<noteq> 0 \<or> (\<exists>i. k \<le> i \<and> i < nr \<and> f (bm1 ! i) (bm2 ! i) \<noteq> 0)"
    unfolding ih(4) or_eq_0_iff using k(1) by (metis Suc_leD Suc_leI le_neq_implies_less order_refl)
  ultimately show ?case
    by simp
qed

lemma fill_words_bset:
  assumes "bits = 32 * nr \<or> nr = BITS_TO_LONGS bits"
    and "nr \<le> length dst" "nr \<le> length bm1" "nr \<le> length bm2"
    and "\<And>v w j. j < 32 \<Longrightarrow> bit (f v w) j \<longleftrightarrow> Q (bit v j) (bit w j)"
  shows "\<exists>dst' r. fill_words f dst bm1 bm2 0 nr 0 = Some (dst', r) \<and> length dst' = length dst \<and>
    bset bits dst' = {i. i < bits \<and> Q (i \<in> bset bits bm1) (i \<in> bset bits bm2)} \<and>
    drop nr dst' = drop nr dst \<and>
    (r \<noteq> 0 \<longleftrightarrow> (\<exists>i<nr * 32. Q (bit (bm1 ! (i div 32)) (i mod 32)) (bit (bm2 ! (i div 32)) (i mod 32))))"
proof -
  obtain dst' r where f: "fill_words f dst bm1 bm2 0 nr 0 = Some (dst', r)" "length dst' = length dst"
      "\<forall>i<length dst. dst' ! i = (if i < nr then f (bm1 ! i) (bm2 ! i) else dst ! i)"
      "r \<noteq> 0 \<longleftrightarrow> (\<exists>i<nr. f (bm1 ! i) (bm2 ! i) \<noteq> 0)"
    using fill_words_ok [OF assms(2-4), of f 0 0] by auto
  have k: "i div 32 < nr" if "i < bits" for i
    using assms(1) that word_index [of i bits] by auto
  have "dst' ! (i div 32) = f (bm1 ! (i div 32)) (bm2 ! (i div 32))" if "i < bits" for i
    using f(3) k [OF that] assms(2) by simp
  then have "bset bits dst' = {i. i < bits \<and> Q (i \<in> bset bits bm1) (i \<in> bset bits bm2)}"
    using assms(5) by (auto simp: bset_def)
  moreover have "drop nr dst' = drop nr dst"
    using f(2,3) by (auto intro: nth_equalityI)
  moreover have "r \<noteq> 0 \<longleftrightarrow> (\<exists>i<nr * 32. Q (bit (bm1 ! (i div 32)) (i mod 32)) (bit (bm2 ! (i div 32)) (i mod 32)))"
  proof -
    have "r \<noteq> 0 \<longleftrightarrow> (\<exists>k<nr. \<exists>j<32. Q (bit (bm1 ! k) j) (bit (bm2 ! k) j))"
      unfolding f(4) using word_eq_0 [of "f _ _"] assms(5) by metis
    moreover have "(\<forall>i<nr * 32. \<not> Q (bit (bm1 ! (i div 32)) (i mod 32)) (bit (bm2 ! (i div 32)) (i mod 32))) \<longleftrightarrow>
        (\<forall>k<nr. \<forall>j<32. \<not> Q (bit (bm1 ! k) j) (bit (bm2 ! k) j))"
      using all_bits [of "nr * 32" "\<lambda>k j. \<not> Q (bit (bm1 ! k) j) (bit (bm2 ! k) j)"] by simp
    ultimately show ?thesis
      by blast
  qed
  ultimately show ?thesis
    using f(1,2) by simp
qed

lemma bitmap_or_eq:
  assumes "BITS_TO_LONGS bits \<le> length dst" "BITS_TO_LONGS bits \<le> length bm1" "BITS_TO_LONGS bits \<le> length bm2"
  shows "\<exists>dst'. bitmap_or dst bm1 bm2 bits = Some dst' \<and> length dst' = length dst \<and>
    bset bits dst' = bset bits bm1 \<union> bset bits bm2"
  using fill_words_bset [of bits "BITS_TO_LONGS bits", OF _ assms, of "\<lambda>v w. v OR w" "\<lambda>a b. a \<or> b"]
  by (auto simp: bitmap_or_def bit_simps dest: bset_less)

lemma bitmap_xor_eq:
  assumes "BITS_TO_LONGS bits \<le> length dst" "BITS_TO_LONGS bits \<le> length bm1" "BITS_TO_LONGS bits \<le> length bm2"
  shows "\<exists>dst'. bitmap_xor dst bm1 bm2 bits = Some dst' \<and> length dst' = length dst \<and>
    bset bits dst' = (bset bits bm1 - bset bits bm2) \<union> (bset bits bm2 - bset bits bm1)"
  using fill_words_bset [of bits "BITS_TO_LONGS bits", OF _ assms, of "\<lambda>v w. v XOR w" "\<lambda>a b. a \<noteq> b"]
  by (auto simp: bitmap_xor_def bit_simps dest: bset_less)

lemma bitmap_and_eq:
  assumes "BITS_TO_LONGS bits \<le> length dst" "BITS_TO_LONGS bits \<le> length bm1" "BITS_TO_LONGS bits \<le> length bm2"
  shows "\<exists>dst'. bitmap_and dst bm1 bm2 bits =
      Some (dst', bset (BITS_TO_LONGS bits * 32) bm1 \<inter> bset (BITS_TO_LONGS bits * 32) bm2 \<noteq> {}) \<and>
    length dst' = length dst \<and> bset bits dst' = bset bits bm1 \<inter> bset bits bm2"
proof -
  obtain dst' r where f: "fill_words (\<lambda>v w. v AND w) dst bm1 bm2 0 (BITS_TO_LONGS bits) 0 = Some (dst', r)" "length dst' = length dst"
      "bset bits dst' = {i. i < bits \<and> i \<in> bset bits bm1 \<and> i \<in> bset bits bm2}"
      "r \<noteq> 0 \<longleftrightarrow> (\<exists>i<BITS_TO_LONGS bits * 32. bit (bm1 ! (i div 32)) (i mod 32) \<and> bit (bm2 ! (i div 32)) (i mod 32))"
    using fill_words_bset [of bits "BITS_TO_LONGS bits", OF _ assms, of "\<lambda>v w. v AND w" "\<lambda>a b. a \<and> b"]
    by (auto simp: bit_simps)
  have "(r \<noteq> 0) = (bset (BITS_TO_LONGS bits * 32) bm1 \<inter> bset (BITS_TO_LONGS bits * 32) bm2 \<noteq> {})"
    unfolding f(4) by (auto simp: bset_def)
  then show ?thesis
    using f(1,2,3) by (auto simp: bitmap_and_def dest: bset_less)
qed

lemma bitmap_andnot_eq:
  assumes "BITS_TO_LONGS bits \<le> length dst" "BITS_TO_LONGS bits \<le> length bm1" "BITS_TO_LONGS bits \<le> length bm2"
  shows "\<exists>dst'. bitmap_andnot dst bm1 bm2 bits =
      Some (dst', bset (BITS_TO_LONGS bits * 32) bm1 - bset (BITS_TO_LONGS bits * 32) bm2 \<noteq> {}) \<and>
    length dst' = length dst \<and> bset bits dst' = bset bits bm1 - bset bits bm2"
proof -
  obtain dst' r where f: "fill_words (\<lambda>v w. v AND NOT w) dst bm1 bm2 0 (BITS_TO_LONGS bits) 0 = Some (dst', r)" "length dst' = length dst"
      "bset bits dst' = {i. i < bits \<and> i \<in> bset bits bm1 \<and> i \<notin> bset bits bm2}"
      "r \<noteq> 0 \<longleftrightarrow> (\<exists>i<BITS_TO_LONGS bits * 32. bit (bm1 ! (i div 32)) (i mod 32) \<and> \<not> bit (bm2 ! (i div 32)) (i mod 32))"
    using fill_words_bset [of bits "BITS_TO_LONGS bits", OF _ assms, of "\<lambda>v w. v AND NOT w" "\<lambda>a b. a \<and> \<not> b"]
    by (auto simp: bit_simps)
  have "(r \<noteq> 0) = (bset (BITS_TO_LONGS bits * 32) bm1 - bset (BITS_TO_LONGS bits * 32) bm2 \<noteq> {})"
    unfolding f(4) by (auto simp: bset_def)
  then show ?thesis
    using f(1,2,3) by (auto simp: bitmap_andnot_def dest: bset_less)
qed

lemma bitmap_complement_eq:
  assumes "BITS_TO_LONGS bits \<le> length dst" "BITS_TO_LONGS bits \<le> length src"
  shows "\<exists>dst'. bitmap_complement dst src bits = Some dst' \<and> length dst' = length dst \<and>
    bset bits dst' = {..<bits} - bset bits src"
proof -
  let ?l = "bits div 32"
  obtain dst1 r where f: "fill_words (\<lambda>v _. NOT v) dst src src 0 ?l 0 = Some (dst1, r)" "length dst1 = length dst"
      "bset (32 * ?l) dst1 = {i. i < 32 * ?l \<and> i \<notin> bset (32 * ?l) src}"
    using fill_words_bset [of "32 * ?l" ?l dst src src "\<lambda>v _. NOT v" "\<lambda>a _. \<not> a"]
      longs_le [OF assms(1)] longs_le [OF assms(2)] by (auto simp: bit_simps)
  have full: "bit (dst1 ! (i div 32)) (i mod 32) \<longleftrightarrow> \<not> bit (src ! (i div 32)) (i mod 32)" if "i div 32 < ?l" for i
  proof -
    have "i < 32 * ?l"
      using that by (metis mult.commute div_less_iff_less_mult zero_less_numeral)
    then show ?thesis
      using f(3) by (auto simp: bset_def set_eq_iff)
  qed
  show ?thesis
  proof (cases "bits mod 32 = 0")
    case True
    then have "32 * ?l = bits"
      by auto
    then show ?thesis
      using True f by (auto simp: bitmap_complement_def Let_def)
  next
    case False
    let ?m = "NOT (src ! ?l) AND BITMAP_LAST_WORD_MASK bits"
    have "bitmap_complement dst src bits = Some (dst1[?l := ?m])"
      using False f(1,2) longs_le [OF assms(1)] longs_le [OF assms(2)] by (simp add: bitmap_complement_def Let_def)
    moreover have "bit (dst1[?l := ?m] ! (i div 32)) (i mod 32) \<longleftrightarrow> \<not> bit (src ! (i div 32)) (i mod 32)" if "i < bits" for i
      using that
      by (rule bit_pos_cases) (use full False f(2) longs_le [OF assms(1)] in \<open>auto simp: bit_simps bit_last_mask\<close>)
    then have "bset bits (dst1[?l := ?m]) = {..<bits} - bset bits src"
      by (auto simp: bset_def)
    ultimately show ?thesis
      using f(2) by simp
  qed
qed

subsection \<open>Runs as intervals\<close>

lemma bit_first_mask: "j < 32 \<Longrightarrow> bit (BITMAP_FIRST_WORD_MASK start) j \<longleftrightarrow> start mod 32 \<le> j"
  by (auto simp: BITMAP_FIRST_WORD_MASK_def bit_simps)

lemma first_mask_aligned: "start mod 32 = 0 \<Longrightarrow> BITMAP_FIRST_WORD_MASK start = NOT 0"
  by (simp add: BITMAP_FIRST_WORD_MASK_def)

lemma next_word:
  assumes "b = 32 - s mod 32"
  shows "s + b = 32 * Suc (s div 32) \<and> (s + b) div 32 = Suc (s div 32) \<and> (s + b) mod (32 :: nat) = 0 \<and> 0 < b"
proof -
  have "s = 32 * q + r \<Longrightarrow> r < 32 \<Longrightarrow> b = 32 - r \<Longrightarrow> s + b = 32 * Suc q \<and> 0 < b" for q r
    by simp
  from this [of "s div 32" "s mod 32"] have "s + b = 32 * Suc (s div 32) \<and> 0 < b"
    using assms by simp
  then show ?thesis
    by simp
qed

lemma bitmap_run_step:
  assumes "b = 32 - start mod 32" and "b \<le> nr" and "start div 32 < length bm"
  shows "bitmap_run f bm start nr =
    bitmap_run f (bm[start div 32 := f (bm ! (start div 32)) (BITMAP_FIRST_WORD_MASK start)]) (start + b) (nr - b)"
proof -
  have b: "32 - int (start mod 32) = int b" "start + b + (nr - b) = start + nr"
    using assms(1,2) by (simp_all add: of_nat_diff)
  show ?thesis
    using assms(2,3) next_word [OF assms(1)]
    unfolding bitmap_run_def Let_def b
    by (subst run_loop.simps) (simp add: first_mask_aligned)
qed

definition bm_bit :: "bitmap \<Rightarrow> nat \<Rightarrow> bool" where
  "bm_bit bm i = bit (bm ! (i div 32)) (i mod 32)"

lemma bset_bm_bit: "bset bits bm = {i. i < bits \<and> bm_bit bm i}"
  by (simp add: bset_def bm_bit_def)

lemma bm_bit_update:
  "k < length bm \<Longrightarrow> bm_bit (bm[k := w]) i \<longleftrightarrow> (if i div 32 = k then bit w (i mod 32) else bm_bit bm i)"
  by (auto simp: bm_bit_def)

lemma bitmap_run_last:
  assumes "nr < 32 - start mod 32" and "start + nr \<le> 32 * length bm"
    and f: "\<And>w m j. j < 32 \<Longrightarrow> bit (f w m) j \<longleftrightarrow> (if bit m j then g (bit w j) else bit w j)"
  shows "\<exists>bm'. bitmap_run f bm start nr = Some bm' \<and> length bm' = length bm \<and>
    (\<forall>i<32 * length bm. bm_bit bm' i \<longleftrightarrow> (if start \<le> i \<and> i < start + nr then g (bm_bit bm i) else bm_bit bm i))"
proof -
  let ?p = "start div 32" and ?r = "start mod 32"
  have run: "run_loop f bm ?p (int nr) (32 - int ?r) (BITMAP_FIRST_WORD_MASK start) =
      Some (bm, ?p, int nr, BITMAP_FIRST_WORD_MASK start)"
  proof -
    have "\<not> 0 \<le> int nr - (32 - int ?r)"
      using assms(1) by linarith
    then show ?thesis
      by (subst run_loop.simps) (simp only: if_False simp_thms)
  qed
  show ?thesis
  proof (cases "nr = 0")
    case True
    then show ?thesis
      using run by (auto simp: bitmap_run_def)
  next
    case False
    let ?m = "BITMAP_FIRST_WORD_MASK start AND BITMAP_LAST_WORD_MASK (start + nr)"
    have s: "start = 32 * ?p + ?r" "?r < 32"
      by simp_all
    have p: "?p < length bm"
      using assms(2) False s by linarith
    have "bitmap_run f bm start nr = Some (bm[?p := f (bm ! ?p) ?m])"
      using False p run by (simp add: bitmap_run_def)
    moreover have e: "(start + nr) mod 32 = ?r + nr"
    proof -
      have "(32 * q + r + nr) mod 32 = r + nr" if "nr < 32 - r" for q r
        using that by (simp add: add.assoc)
      then show ?thesis
        using s(1) assms(1) by metis
    qed
    have m: "bit ?m j \<longleftrightarrow> ?r \<le> j \<and> j < ?r + nr" if "j < 32" for j
      using that False bit_first_mask [OF that] bit_last_mask [of "start + nr" j] e by (simp add: bit_simps)
    have i: "(start \<le> i \<and> i < start + nr) \<longleftrightarrow> i div 32 = ?p \<and> ?r \<le> i mod 32 \<and> i mod 32 < ?r + nr" for i
    proof -
      have "(32 * p + r \<le> 32 * k + j \<and> 32 * k + j < 32 * p + r + nr) \<longleftrightarrow> k = p \<and> r \<le> j \<and> j < r + nr"
        if "nr < 32 - r" "j < 32" for p r k j :: nat
        using that by (cases k p rule: linorder_cases) auto
      from this [of ?r "i mod 32" ?p "i div 32"] show ?thesis
        using assms(1) by simp
    qed
    have "bm_bit (bm[?p := f (bm ! ?p) ?m]) i \<longleftrightarrow> (if start \<le> i \<and> i < start + nr then g (bm_bit bm i) else bm_bit bm i)" for i
      unfolding bm_bit_update [OF p] i using m [of "i mod 32"] f [of "i mod 32"] by (simp add: bm_bit_def)
    ultimately show ?thesis
      by simp
  qed
qed

lemma bitmap_run_eq:
  assumes "start + nr \<le> 32 * length bm"
    and f: "\<And>w m j. j < 32 \<Longrightarrow> bit (f w m) j \<longleftrightarrow> (if bit m j then g (bit w j) else bit w j)"
  shows "\<exists>bm'. bitmap_run f bm start nr = Some bm' \<and> length bm' = length bm \<and>
    (\<forall>i<32 * length bm. bm_bit bm' i \<longleftrightarrow> (if start \<le> i \<and> i < start + nr then g (bm_bit bm i) else bm_bit bm i))"
  using assms(1)
proof (induction nr arbitrary: bm start rule: less_induct)
  case (less nr)
  define b where "b = 32 - start mod 32"
  let ?p = "start div 32" and ?r = "start mod 32"
  have s: "start = 32 * ?p + ?r" "?r < 32"
    by simp_all
  show ?case
  proof (cases "nr < b")
    case True
    then show ?thesis
      unfolding b_def by (rule bitmap_run_last [OF _ less.prems f])
  next
    case False
    then have b: "b \<le> nr" "0 < b" "start + b = 32 * Suc ?p"
      using next_word [OF b_def] by simp_all
    have p: "?p < length bm"
      using less.prems b(1,3) by simp
    let ?bm = "bm[?p := f (bm ! ?p) (BITMAP_FIRST_WORD_MASK start)]"
    obtain bm' where ih: "bitmap_run f ?bm (start + b) (nr - b) = Some bm'" "length bm' = length bm"
        "\<forall>i<32 * length bm. bm_bit bm' i \<longleftrightarrow>
          (if start + b \<le> i \<and> i < start + b + (nr - b) then g (bm_bit ?bm i) else bm_bit ?bm i)"
    proof -
      have "nr - b < nr" "start + b + (nr - b) \<le> 32 * length ?bm"
        using b(1,2) less.prems by simp_all
      from less.IH [OF this] show thesis
        using that by auto
    qed
    have "bm_bit bm' i \<longleftrightarrow> (if start \<le> i \<and> i < start + nr then g (bm_bit bm i) else bm_bit bm i)" if "i < 32 * length bm" for i
    proof -
      have "k = p \<and> r \<le> j \<longleftrightarrow> 32 * p + r \<le> 32 * k + j \<and> 32 * k + j < 32 * Suc p" if "j < 32" for p r k j :: nat
        using that by (cases k p rule: linorder_cases) auto
      from this [of "i mod 32" "i div 32" ?p ?r]
      have "i div 32 = ?p \<and> ?r \<le> i mod 32 \<longleftrightarrow> start \<le> i \<and> i < start + b"
        unfolding b(3) by simp
      then have "bm_bit ?bm i \<longleftrightarrow> (if start \<le> i \<and> i < start + b then g (bm_bit bm i) else bm_bit bm i)"
        unfolding bm_bit_update [OF p] using f [of "i mod 32"] bit_first_mask [of "i mod 32" start]
        by (auto simp: bm_bit_def)
      then show ?thesis
        using ih(3) that b(1) by auto
    qed
    then show ?thesis
      using bitmap_run_step [OF b_def b(1) p] ih by simp
  qed
qed

lemma bitmap_set_eq:
  assumes "start + nr \<le> 32 * length bm"
  shows "\<exists>bm'. bitmap_set bm start nr = Some bm' \<and> length bm' = length bm \<and>
    bset (32 * length bm) bm' = bset (32 * length bm) bm \<union> {start..<start + nr}"
proof -
  have "\<exists>bm'. bitmap_run (\<lambda>w mask. w OR mask) bm start nr = Some bm' \<and> length bm' = length bm \<and>
      (\<forall>i<32 * length bm. bm_bit bm' i \<longleftrightarrow> (if start \<le> i \<and> i < start + nr then True else bm_bit bm i))"
    by (rule bitmap_run_eq [OF assms]) (simp add: bit_simps)
  then show ?thesis
    using assms by (auto simp: bitmap_set_def bset_bm_bit split: if_splits)
qed

lemma bitmap_clear_eq:
  assumes "start + nr \<le> 32 * length bm"
  shows "\<exists>bm'. bitmap_clear bm start nr = Some bm' \<and> length bm' = length bm \<and>
    bset (32 * length bm) bm' = bset (32 * length bm) bm - {start..<start + nr}"
proof -
  have "\<exists>bm'. bitmap_run (\<lambda>w mask. w AND NOT mask) bm start nr = Some bm' \<and> length bm' = length bm \<and>
      (\<forall>i<32 * length bm. bm_bit bm' i \<longleftrightarrow> (if start \<le> i \<and> i < start + nr then False else bm_bit bm i))"
    by (rule bitmap_run_eq [OF assms]) (simp add: bit_simps)
  then show ?thesis
    using assms by (auto simp: bitmap_clear_def bset_bm_bit split: if_splits)
qed

subsection \<open>Single bits, clearing, filling and copying\<close>

lemma test_bit_eq: "nr < bits \<Longrightarrow> BITS_TO_LONGS bits \<le> length bm \<Longrightarrow> test_bit nr bm = Some (nr \<in> bset bits bm)"
  using word_index [of nr bits] by (simp add: test_bit_def bset_def)

lemma set_bit_at_eq:
  assumes "nr < bits" and "BITS_TO_LONGS bits \<le> length bm"
  shows "\<exists>bm'. set_bit_at nr bm = Some bm' \<and> length bm' = length bm \<and> bset bits bm' = insert nr (bset bits bm)"
proof -
  let ?k = "nr div 32"
  let ?w = "bm ! ?k OR push_bit (nr mod 32) 1"
  have k: "?k < length bm"
    using word_index [OF assms(1)] assms(2) by simp
  have "bit ?w j \<longleftrightarrow> bit (bm ! ?k) j \<or> j = nr mod 32" if "j < 32" for j
    using that by (auto simp: bit_simps bit_1_iff)
  then have "bm_bit (bm[?k := ?w]) i \<longleftrightarrow> bm_bit bm i \<or> i = nr" for i
    unfolding bm_bit_update [OF k] using div_mult_mod_eq [of i 32] div_mult_mod_eq [of nr 32]
    by (metis bm_bit_def mod_less_divisor zero_less_numeral)
  then show ?thesis
    using k assms(1) by (auto simp: set_bit_at_def bset_bm_bit)
qed

lemma bitmap_zero_eq:
  assumes "BITS_TO_LONGS bits \<le> length dst"
  shows "\<exists>dst'. bitmap_zero dst bits = Some dst' \<and> length dst' = length dst \<and> bset bits dst' = {}"
  using assms word_index [of _ bits] by (auto simp: bitmap_zero_def mem_write_def list_put_def bset_def nth_append)

lemma bitmap_fill_eq:
  assumes "BITS_TO_LONGS bits \<le> length dst" and "0 < bits"
  shows "\<exists>dst'. bitmap_fill dst bits = Some dst' \<and> length dst' = length dst \<and> bset bits dst' = {..<bits}"
proof -
  let ?n = "BITS_TO_LONGS bits"
  have n: "0 < ?n"
    using word_index [OF assms(2)] by simp
  define dst' where "dst' = (list_put dst 0 (replicate (?n - 1) (NOT 0)))[?n - 1 := BITMAP_LAST_WORD_MASK bits]"
  have len: "length dst' = length dst"
    using assms(1) by (simp add: dst'_def list_put_def)
  have "bitmap_fill dst bits = Some dst'"
    using assms(1) n by (simp add: bitmap_fill_def Let_def mem_write_def dst'_def list_put_def)
  moreover have "bm_bit dst' i" if "i < bits" for i
  proof (cases "i div 32 = ?n - 1")
    case True
    have "bit (BITMAP_LAST_WORD_MASK bits) (i mod 32)"
    proof (cases "bits mod 32 = 0")
      case False
      then have "i div 32 = bits div 32"
        using True by (simp add: BITS_TO_LONGS_eq)
      then show ?thesis
        using that False by (auto elim: bit_pos_cases simp: bit_last_mask)
    qed (simp add: BITMAP_LAST_WORD_MASK_def)
    then show ?thesis
      using True n assms(1) by (simp add: bm_bit_def dst'_def list_put_def)
  next
    case False
    then have "i div 32 < ?n - 1"
      using word_index [OF that] by linarith
    then show ?thesis
      by (simp add: bm_bit_def dst'_def list_put_def nth_append)
  qed
  ultimately show ?thesis
    using len by (auto simp: bset_bm_bit)
qed

lemma bitmap_copy_eq:
  assumes "BITS_TO_LONGS bits \<le> length dst" and "BITS_TO_LONGS bits \<le> length src"
  shows "\<exists>dst'. bitmap_copy dst src bits = Some dst' \<and> length dst' = length dst \<and> bset bits dst' = bset bits src"
  using assms word_index [of _ bits]
  by (auto simp: bitmap_copy_def mem_read_def mem_write_def list_put_def bset_def nth_append)

subsection \<open>Properties\<close>

text \<open>C30: The tests of bitmaps are exact. For bitmaps that have the words of \<open>bits\<close> bits,
  \<open>__bitmap_empty\<close>, \<open>__bitmap_full\<close>, \<open>__bitmap_equal\<close>, \<open>__bitmap_intersects\<close>
  and \<open>__bitmap_subset\<close> read only these words and decide emptiness, fullness, equality,
  intersection and inclusion of the sets of bit numbers below \<open>bits\<close>: the unused bits of the
  last word never matter.\<close>

theorem bitmap_tests_exact:
  assumes "BITS_TO_LONGS bits \<le> length bm1" and "BITS_TO_LONGS bits \<le> length bm2"
  shows "bitmap_empty bm1 bits = Some (bset bits bm1 = {}) \<and>
    bitmap_full bm1 bits = Some (bset bits bm1 = {..<bits}) \<and>
    bitmap_equal bm1 bm2 bits = Some (bset bits bm1 = bset bits bm2) \<and>
    bitmap_intersects bm1 bm2 bits = Some (bset bits bm1 \<inter> bset bits bm2 \<noteq> {}) \<and>
    bitmap_subset bm1 bm2 bits = Some (bset bits bm1 \<subseteq> bset bits bm2)"
  using assms by (simp add: bitmap_empty_eq bitmap_full_eq bitmap_equal_eq bitmap_intersects_eq bitmap_subset_eq)

theorem bitmap_tests_exact_witness:
  "bset 40 [0, 255] = bset 40 [0, 4095] \<and> bitmap_equal [0, 255] [0, 4095] 40 = Some True"
proof -
  have "bitmap_equal [0, 255] [0, 4095] 40 = Some True"
    by code_simp
  then show ?thesis
    using bitmap_tests_exact [of 40 "[0, 255]" "[0, 4095]"] by (simp add: BITS_TO_LONGS_def)
qed

text \<open>C31: The operations on bitmaps are the operations on sets. With a destination and sources that
  have the words of \<open>bits\<close> bits, \<open>__bitmap_complement\<close>, \<open>__bitmap_and\<close>,
  \<open>__bitmap_or\<close>, \<open>__bitmap_xor\<close> and \<open>__bitmap_andnot\<close> stay inside the
  arrays and leave in the destination the complement, intersection, union, symmetric difference and
  difference of the sets of bit numbers below \<open>bits\<close>.\<close>

theorem bitmap_operations:
  assumes "BITS_TO_LONGS bits \<le> length dst" "BITS_TO_LONGS bits \<le> length bm1" "BITS_TO_LONGS bits \<le> length bm2"
  shows "(\<exists>d. bitmap_complement dst bm1 bits = Some d \<and> bset bits d = {..<bits} - bset bits bm1) \<and>
    (\<exists>d r. bitmap_and dst bm1 bm2 bits = Some (d, r) \<and> bset bits d = bset bits bm1 \<inter> bset bits bm2) \<and>
    (\<exists>d. bitmap_or dst bm1 bm2 bits = Some d \<and> bset bits d = bset bits bm1 \<union> bset bits bm2) \<and>
    (\<exists>d. bitmap_xor dst bm1 bm2 bits = Some d \<and>
       bset bits d = (bset bits bm1 - bset bits bm2) \<union> (bset bits bm2 - bset bits bm1)) \<and>
    (\<exists>d r. bitmap_andnot dst bm1 bm2 bits = Some (d, r) \<and> bset bits d = bset bits bm1 - bset bits bm2)"
  using bitmap_complement_eq [OF assms(1,2)] bitmap_and_eq [OF assms] bitmap_or_eq [OF assms]
    bitmap_xor_eq [OF assms] bitmap_andnot_eq [OF assms] by blast

theorem bitmap_operations_witness:
  "\<exists>d r. bitmap_and [7, 7] [6, 1] [12, 3] 40 = Some (d, r) \<and> bset 40 d = bset 40 [6, 1] \<inter> bset 40 [12, 3]"
  using bitmap_operations [of 40 "[7, 7]" "[6, 1]" "[12, 3]"] by (simp add: BITS_TO_LONGS_def)

text \<open>The Boolean result of \<open>__bitmap_and\<close> is not that of the intersection. It is exact when
  the number of bits is a multiple of the word size, and otherwise the unused bits of the last words
  count too: with a common unused bit it is true for disjoint sets, on which
  \<open>__bitmap_intersects\<close> is false.\<close>

theorem bitmap_and_result:
  "(bits mod 32 = 0 \<longrightarrow> BITS_TO_LONGS bits \<le> length dst \<longrightarrow> BITS_TO_LONGS bits \<le> length bm1 \<longrightarrow> BITS_TO_LONGS bits \<le> length bm2 \<longrightarrow>
     (\<exists>d. bitmap_and dst bm1 bm2 bits = Some (d, bset bits bm1 \<inter> bset bits bm2 \<noteq> {}))) \<and>
   (\<exists>d. bitmap_and [0] [2] [2] 1 = Some (d, True)) \<and> bset 1 [2] \<inter> bset 1 [2] = {} \<and>
   bitmap_intersects [2] [2] 1 = Some False"
proof (intro conjI impI)
  assume a: "bits mod 32 = 0" "BITS_TO_LONGS bits \<le> length dst" "BITS_TO_LONGS bits \<le> length bm1" "BITS_TO_LONGS bits \<le> length bm2"
  then have "BITS_TO_LONGS bits * 32 = bits"
    by (auto simp: BITS_TO_LONGS_eq)
  then show "\<exists>d. bitmap_and dst bm1 bm2 bits = Some (d, bset bits bm1 \<inter> bset bits bm2 \<noteq> {})"
    using bitmap_and_eq [OF a(2-4)] by auto
next
  have "bitmap_and [0] [2] [2] 1 = Some ([2], True)"
    by code_simp
  then show "\<exists>d. bitmap_and [0] [2] [2] 1 = Some (d, True)"
    by simp
  show "bset 1 [2] \<inter> bset 1 [2] = {}"
    by (auto simp: bset_def)
  show "bitmap_intersects [2] [2] 1 = Some False"
    by code_simp
qed

theorem bitmap_and_result_witness:
  "\<exists>d. bitmap_and [0] [6] [12] 32 = Some (d, bset 32 [6] \<inter> bset 32 [12] \<noteq> {})"
  using bitmap_and_result [of 32 "[0]" "[6]" "[12]"] by (simp add: BITS_TO_LONGS_def)

text \<open>\<open>bitmap_set\<close> adds exactly the bits from \<open>start\<close> to \<open>start + nr - 1\<close>
  and \<open>bitmap_clear\<close> removes exactly these, for every run inside the array, whatever its
  position in the words.\<close>

theorem bitmap_set_clear_exact:
  assumes "start + nr \<le> 32 * length bm"
  shows "(\<exists>bm'. bitmap_set bm start nr = Some bm' \<and> length bm' = length bm \<and>
      bset (32 * length bm) bm' = bset (32 * length bm) bm \<union> {start..<start + nr}) \<and>
    (\<exists>bm'. bitmap_clear bm start nr = Some bm' \<and> length bm' = length bm \<and>
      bset (32 * length bm) bm' = bset (32 * length bm) bm - {start..<start + nr})"
  using bitmap_set_eq [OF assms] bitmap_clear_eq [OF assms] by blast

theorem bitmap_set_clear_exact_witness:
  "\<exists>bm'. bitmap_set [0, 0, 0] 30 40 = Some bm' \<and> bset 96 bm' = bset 96 [0, 0, 0] \<union> {30..<70}"
  using bitmap_set_clear_exact [of 30 40 "[0, 0, 0]"] by auto

end
