(* ===== verification/Bitmap_Region.thy ===== *)
theory Bitmap_Region
  imports Bitmap
begin

text \<open>
  Allocation of aligned power-of-two regions in a bitmap, the \<open>bitmap_*_region\<close> routines of
  \<open>lib/bitmap.c\<close>. Positions, orders and sizes are \<open>int\<close>s that are not negative, as natural
  numbers; a shift \<open>1 << order\<close> or a sum that leaves the type, which C leaves undefined, is \<open>None\<close>.
\<close>

subsection \<open>Operations\<close>

datatype reg_op = REG_OP_ISFREE | REG_OP_ALLOC | REG_OP_RELEASE

definition reg_mask :: "nat \<Rightarrow> nat \<Rightarrow> u32" where
  "reg_mask nbitsinlong offset =
     (let m = push_bit (nbitsinlong - 1) 1 in push_bit offset (m + (m - 1)))"

function isfree_loop :: "bitmap \<Rightarrow> nat \<Rightarrow> nat \<Rightarrow> nat \<Rightarrow> u32 \<Rightarrow> bool option" where
  "isfree_loop bm index i nlongs_reg m =
     (if i < nlongs_reg
      then do { w \<leftarrow> arr_get bm (index + i);
                if w AND m \<noteq> 0 then Some False else isfree_loop bm index (i + 1) nlongs_reg m }
      else Some True)"
  by pat_completeness auto
termination
  by (relation "measure (\<lambda>(_, _, i, n, _). n - i)") auto

function update_loop :: "(u32 \<Rightarrow> u32) \<Rightarrow> bitmap \<Rightarrow> nat \<Rightarrow> nat \<Rightarrow> nat \<Rightarrow> bitmap option" where
  "update_loop f bm index i nlongs_reg =
     (if i < nlongs_reg
      then do { w \<leftarrow> arr_get bm (index + i);
                bm \<leftarrow> arr_set bm (index + i) (f w);
                update_loop f bm index (i + 1) nlongs_reg }
      else Some bm)"
  by pat_completeness auto
termination
  by (relation "measure (\<lambda>(_, _, _, i, n). n - i)") auto

declare isfree_loop.simps [simp del] update_loop.simps [simp del]

text \<open>A sum of type \<open>int\<close>, and the size \<open>1 << order\<close> of a region.\<close>

definition int_sum :: "nat \<Rightarrow> nat option" where
  "int_sum n = (if int n < 2 ^ 31 then Some n else None)"

definition region_size :: "nat \<Rightarrow> nat option" where
  "region_size order = (if order < 31 then Some (2 ^ order) else None)"

text \<open>\<open>__reg_op\<close>: the bitmap and the value returned.\<close>

definition do_reg_op :: "bitmap \<Rightarrow> nat \<Rightarrow> nat \<Rightarrow> reg_op \<Rightarrow> (bitmap \<times> bool) option" where
  "do_reg_op bm pos order op =
     do { nbits_reg \<leftarrow> region_size order;
          let index = pos div 32;
          let offset = pos - index * 32;
          let nlongs_reg = BITS_TO_LONGS nbits_reg;
          let nbitsinlong = min nbits_reg 32;
          let m = reg_mask nbitsinlong offset;
          case op of
            REG_OP_ISFREE \<Rightarrow> do { free \<leftarrow> isfree_loop bm index 0 nlongs_reg m; Some (bm, free) }
          | REG_OP_ALLOC \<Rightarrow> do { bm \<leftarrow> update_loop (\<lambda>w. w OR m) bm index 0 nlongs_reg; Some (bm, False) }
          | REG_OP_RELEASE \<Rightarrow> do { bm \<leftarrow> update_loop (\<lambda>w. w AND NOT m) bm index 0 nlongs_reg; Some (bm, False) } }"

lemma int_sum_eq: "int_sum n = (if n < 2 ^ 31 then Some n else None)"
  by (simp add: int_sum_def)

lemma region_progress: "pos + 2 ^ order \<le> bits \<Longrightarrow> bits - (pos + 2 ^ order) < bits - (pos :: nat)"
  using zero_less_power [of "2 :: nat" order] by linarith

function find_free_loop :: "bitmap \<Rightarrow> nat \<Rightarrow> nat \<Rightarrow> nat \<Rightarrow> (bitmap \<times> int) option" where
  "find_free_loop bm bits order pos =
     do { nbits \<leftarrow> region_size order;
          stop \<leftarrow> int_sum (pos + nbits);
          if stop \<le> bits
          then do { (bm, free) \<leftarrow> do_reg_op bm pos order REG_OP_ISFREE;
                    if \<not> free then find_free_loop bm bits order stop
                    else do { (bm, _) \<leftarrow> do_reg_op bm pos order REG_OP_ALLOC; Some (bm, int pos) } }
          else Some (bm, - ENOMEM) }"
  by pat_completeness auto
termination
  by (relation "measure (\<lambda>(_, bits, order, pos). bits - pos)")
    (auto simp: region_size_def int_sum_eq intro: region_progress split: if_splits)

declare find_free_loop.simps [simp del]

definition bitmap_find_free_region :: "bitmap \<Rightarrow> nat \<Rightarrow> nat \<Rightarrow> (bitmap \<times> int) option" where
  "bitmap_find_free_region bm bits order = find_free_loop bm bits order 0"

definition bitmap_release_region :: "bitmap \<Rightarrow> nat \<Rightarrow> nat \<Rightarrow> bitmap option" where
  "bitmap_release_region bm pos order = do { (bm, _) \<leftarrow> do_reg_op bm pos order REG_OP_RELEASE; Some bm }"

definition bitmap_allocate_region :: "bitmap \<Rightarrow> nat \<Rightarrow> nat \<Rightarrow> (bitmap \<times> int) option" where
  "bitmap_allocate_region bm pos order =
     do { (bm, free) \<leftarrow> do_reg_op bm pos order REG_OP_ISFREE;
          if \<not> free then Some (bm, - EBUSY)
          else do { (bm, _) \<leftarrow> do_reg_op bm pos order REG_OP_ALLOC; Some (bm, 0) } }"

subsection \<open>Regions as sets\<close>

definition region :: "nat \<Rightarrow> nat \<Rightarrow> nat set" where
  "region pos order = {pos..<pos + 2 ^ order}"

text \<open>The bits of a region are those of its mask in the words it spans.\<close>

lemma bit_reg_mask:
  assumes "0 < n" "n + offset \<le> 32" "j < 32"
  shows "bit (reg_mask n offset) j \<longleftrightarrow> offset \<le> j \<and> j < offset + n"
proof -
  have "push_bit (n - 1) 1 + (push_bit (n - 1) 1 - 1) = 2 * 2 ^ (n - 1) - (1 :: u32)"
    by (simp add: push_bit_eq_mult)
  also have "\<dots> = mask n"
    using assms(1) by (simp add: mask_eq_exp_minus_1 flip: power_Suc)
  finally show ?thesis
    using assms(2,3) by (auto simp: reg_mask_def Let_def bit_simps)
qed

lemma longs_small: "order < 5 \<Longrightarrow> BITS_TO_LONGS (2 ^ order) = 1"
proof -
  assume "order < 5"
  then have "order \<in> {0, 1, 2, 3, 4}"
    by auto
  then show ?thesis
    by (auto simp: BITS_TO_LONGS_def)
qed

lemma longs_large: "\<not> order < 5 \<Longrightarrow> 2 ^ order = BITS_TO_LONGS (2 ^ order) * 32"
proof -
  assume "\<not> order < 5"
  then have "(2 :: nat) ^ order = 32 * 2 ^ (order - 5)"
    using power_add [of "2 :: nat" 5 "order - 5"] by simp
  then show ?thesis
    by (simp add: BITS_TO_LONGS_eq)
qed

lemma region_bits:
  assumes "2 ^ order dvd pos"
  shows "i \<in> region pos order \<longleftrightarrow>
    pos div 32 \<le> i div 32 \<and> i div 32 < pos div 32 + BITS_TO_LONGS (2 ^ order) \<and>
    bit (reg_mask (min (2 ^ order) 32) (pos - pos div 32 * 32)) (i mod 32)"
proof -
  let ?p = "pos div 32" and ?o = "pos mod 32" and ?k = "i div 32" and ?j = "i mod 32" and ?n = "BITS_TO_LONGS (2 ^ order)"
  have off: "pos - ?p * 32 = ?o"
    by (simp add: minus_div_mult_eq_mod)
  have i: "i = 32 * ?k + ?j" "?j < 32" and p: "pos = 32 * ?p + ?o" "?o < 32"
    by simp_all
  show ?thesis
  proof (cases "order < 5")
    case True
    then have "2 ^ order dvd (32 :: nat)"
      using le_imp_power_dvd [of order 5 "2 :: nat"] by simp
    then have n: "min (2 ^ order) 32 = (2 ^ order :: nat)" "BITS_TO_LONGS (2 ^ order) = 1"
      using longs_small [OF True] by (auto dest: dvd_imp_le)
    then have "2 ^ order dvd ?o"
      using assms \<open>2 ^ order dvd (32 :: nat)\<close> by (metis dvd_mod)
    then have o: "?o + 2 ^ order \<le> 32"
      using \<open>2 ^ order dvd (32 :: nat)\<close> p(2) dvd_imp_le [of "2 ^ order" "32 - ?o"] by (simp add: dvd_diff_nat)
    have "(32 * p + o' \<le> 32 * k + j \<and> 32 * k + j < 32 * p + o' + n) \<longleftrightarrow> p \<le> k \<and> k < p + 1 \<and> o' \<le> j \<and> j < o' + n"
      if "j < 32" "o' + n \<le> 32" "0 < n" for p o' k j n :: nat
      using that by (cases k p rule: linorder_cases) auto
    from this [of ?j ?o "2 ^ order" ?p ?k] show ?thesis
      unfolding off n region_def using bit_reg_mask [of "2 ^ order" ?o ?j] o by (simp add: add.commute)
  next
    case False
    then have n: "2 ^ order = ?n * 32"
      by (rule longs_large)
    then have "32 dvd pos"
      using assms by (metis dvd_mult_right)
    then have o: "?o = 0" "pos = ?p * 32"
      by (auto simp: dvd_eq_mod_eq_0)
    have "0 < ?n"
      using word_index [of 0 "2 ^ order"] by simp
    then have b: "min (2 ^ order) 32 = (32 :: nat)"
      using n by simp
    have "i \<in> region pos order \<longleftrightarrow> ?p * 32 \<le> i \<and> i < (?p + ?n) * 32"
      using o(2) n by (simp add: region_def add_mult_distrib)
    also have "\<dots> \<longleftrightarrow> ?p \<le> ?k \<and> ?k < ?p + ?n"
      by (simp add: less_eq_div_iff_mult_less_eq div_less_iff_less_mult)
    finally show ?thesis
      unfolding off b o(1) using bit_reg_mask [of 32 0 ?j] i(2) by simp
  qed
qed

lemma isfree_loop_eq:
  "index + n \<le> length bm \<Longrightarrow>
   isfree_loop bm index i n m = Some (\<forall>k. i \<le> k \<and> k < n \<longrightarrow> bm ! (index + k) AND m = 0)"
proof (induction "n - i" arbitrary: i)
  case 0
  then show ?case
    by (subst isfree_loop.simps) auto
next
  case (Suc d)
  then have i: "i < n" "d = n - Suc i"
    by simp_all
  have "(\<forall>k. i \<le> k \<and> k < n \<longrightarrow> P k) \<longleftrightarrow> P i \<and> (\<forall>k. Suc i \<le> k \<and> k < n \<longrightarrow> P k)" for P
    using i(1) by (metis Suc_leD Suc_leI le_neq_implies_less order_refl)
  then show ?case
    using Suc.hyps(1) [OF i(2) Suc.prems] Suc.prems i(1) by (subst isfree_loop.simps) simp
qed

lemma update_loop_eq:
  "index + n \<le> length bm \<Longrightarrow>
   \<exists>bm'. update_loop f bm index i n = Some bm' \<and> length bm' = length bm \<and>
     (\<forall>k<length bm. bm' ! k = (if index + i \<le> k \<and> k < index + n then f (bm ! k) else bm ! k))"
proof (induction "n - i" arbitrary: i bm)
  case 0
  then show ?case
    by (subst update_loop.simps) auto
next
  case (Suc d)
  then have i: "i < n" "d = n - Suc i"
    by simp_all
  let ?bm = "bm[index + i := f (bm ! (index + i))]"
  obtain bm' where bm': "update_loop f ?bm index (Suc i) n = Some bm'" "length bm' = length bm"
      "\<forall>k<length bm. bm' ! k = (if index + Suc i \<le> k \<and> k < index + n then f (?bm ! k) else ?bm ! k)"
    using Suc.hyps(1) [OF i(2), of ?bm] Suc.prems by auto
  have "bm' ! k = (if index + i \<le> k \<and> k < index + n then f (bm ! k) else bm ! k)" if "k < length bm" for k
    using bm'(3) that i(1) by (cases "k = index + i") auto
  moreover have "update_loop f bm index i n = update_loop f ?bm index (Suc i) n"
    using Suc.prems i(1) by (subst update_loop.simps) simp
  ultimately show ?case
    using bm'(1,2) by simp
qed

lemma region_words:
  assumes "pos + 2 ^ order \<le> 32 * length bm"
  shows "pos div 32 + BITS_TO_LONGS (2 ^ order) \<le> length bm"
proof (cases "order < 5")
  case True
  then have "BITS_TO_LONGS (2 ^ order) = 1"
    by (rule longs_small)
  moreover have "pos < length bm * 32"
    using assms zero_less_power [of "2 :: nat" order] by linarith
  ultimately show ?thesis
    using less_mult_imp_div_less by fastforce
next
  case False
  then have "(pos + BITS_TO_LONGS (2 ^ order) * 32) div 32 \<le> length bm"
    using assms longs_large [of order] div_le_mono [of _ "32 * length bm" 32] by fastforce
  then show ?thesis
    by simp
qed

lemma do_reg_op_isfree:
  assumes "2 ^ order dvd pos" and "pos + 2 ^ order \<le> 32 * length bm" and "order < 31"
  shows "do_reg_op bm pos order REG_OP_ISFREE = Some (bm, region pos order \<inter> bset (32 * length bm) bm = {})"
proof -
  let ?p = "pos div 32" and ?n = "BITS_TO_LONGS (2 ^ order)"
  let ?m = "reg_mask (min (2 ^ order) 32) (pos - ?p * 32)"
  have "(\<forall>k<?n. bm ! (?p + k) AND ?m = 0) \<longleftrightarrow> (\<forall>k j. k < ?n \<longrightarrow> j < 32 \<longrightarrow> \<not> (bit (bm ! (?p + k)) j \<and> bit ?m j))"
    by (auto simp: word_eq_0 bit_and_iff)
  also have "\<dots> \<longleftrightarrow> (\<forall>i. i \<in> region pos order \<longrightarrow> \<not> bm_bit bm i)"
  proof (intro iffI allI impI)
    fix i
    assume a: "\<forall>k j. k < ?n \<longrightarrow> j < 32 \<longrightarrow> \<not> (bit (bm ! (?p + k)) j \<and> bit ?m j)" "i \<in> region pos order"
    then have i: "?p \<le> i div 32" "i div 32 - ?p < ?n" "bit ?m (i mod 32)"
      using region_bits [OF assms(1), of i] by auto
    then show "\<not> bm_bit bm i"
      using a(1) [rule_format, OF i(2), of "i mod 32"] by (auto simp: bm_bit_def)
  next
    fix k j :: nat
    assume a: "\<forall>i. i \<in> region pos order \<longrightarrow> \<not> bm_bit bm i" "k < ?n" "j < 32"
    then show "\<not> (bit (bm ! (?p + k)) j \<and> bit ?m j)"
      using bit_pos [OF a(3), of "?p + k"] region_bits [OF assms(1), of "(?p + k) * 32 + j"]
      unfolding bm_bit_def by (metis le_add1 nat_add_left_cancel_less)
  qed
  also have "\<dots> \<longleftrightarrow> region pos order \<inter> bset (32 * length bm) bm = {}"
    using assms(2) by (auto simp: bset_bm_bit region_def)
  finally show ?thesis
    using isfree_loop_eq [OF region_words [OF assms(2)], of 0 ?m] assms(3) by (simp add: do_reg_op_def region_size_def)
qed

lemma region_update:
  assumes "2 ^ order dvd pos" and "pos + 2 ^ order \<le> 32 * length bm"
    and m: "m = reg_mask (min (2 ^ order) 32) (pos - pos div 32 * 32)"
    and f: "\<And>w j. j < 32 \<Longrightarrow> bit (f w) j \<longleftrightarrow> (if bit m j then b else bit w j)"
  shows "\<exists>bm'. update_loop f bm (pos div 32) 0 (BITS_TO_LONGS (2 ^ order)) = Some bm' \<and> length bm' = length bm \<and>
    (\<forall>i<32 * length bm. bm_bit bm' i \<longleftrightarrow> (if i \<in> region pos order then b else bm_bit bm i))"
proof -
  obtain bm' where bm': "update_loop f bm (pos div 32) 0 (BITS_TO_LONGS (2 ^ order)) = Some bm'" "length bm' = length bm"
      "\<forall>k<length bm. bm' ! k = (if pos div 32 \<le> k \<and> k < pos div 32 + BITS_TO_LONGS (2 ^ order) then f (bm ! k) else bm ! k)"
    using update_loop_eq [OF region_words [OF assms(2)], of f 0] by auto
  have "bm_bit bm' i \<longleftrightarrow> (if i \<in> region pos order then b else bm_bit bm i)" if "i < 32 * length bm" for i
    using bm'(3) [rule_format, of "i div 32"] that f [of "i mod 32"]
    unfolding region_bits [OF assms(1)] m [symmetric] bm_bit_def by (simp add: less_mult_imp_div_less mult.commute)
  then show ?thesis
    using bm'(1,2) by simp
qed

lemma do_reg_op_alloc:
  assumes "2 ^ order dvd pos" and "pos + 2 ^ order \<le> 32 * length bm" and "order < 31"
  shows "\<exists>bm'. do_reg_op bm pos order REG_OP_ALLOC = Some (bm', False) \<and> length bm' = length bm \<and>
    bset (32 * length bm) bm' = bset (32 * length bm) bm \<union> region pos order"
proof -
  let ?m = "reg_mask (min (2 ^ order) 32) (pos - pos div 32 * 32)"
  have "\<exists>bm'. update_loop (\<lambda>w. w OR ?m) bm (pos div 32) 0 (BITS_TO_LONGS (2 ^ order)) = Some bm' \<and> length bm' = length bm \<and>
      (\<forall>i<32 * length bm. bm_bit bm' i \<longleftrightarrow> (if i \<in> region pos order then True else bm_bit bm i))"
    by (rule region_update [OF assms(1,2) refl]) (simp add: bit_or_iff)
  moreover have "i < 32 * length bm" if "i \<in> region pos order" for i
    using assms(2) that by (simp add: region_def)
  ultimately show ?thesis
    using assms(3) by (auto simp: do_reg_op_def region_size_def bset_bm_bit split: if_splits)
qed

lemma do_reg_op_release:
  assumes "2 ^ order dvd pos" and "pos + 2 ^ order \<le> 32 * length bm" and "order < 31"
  shows "\<exists>bm'. do_reg_op bm pos order REG_OP_RELEASE = Some (bm', False) \<and> length bm' = length bm \<and>
    bset (32 * length bm) bm' = bset (32 * length bm) bm - region pos order"
proof -
  let ?m = "reg_mask (min (2 ^ order) 32) (pos - pos div 32 * 32)"
  have "\<exists>bm'. update_loop (\<lambda>w. w AND NOT ?m) bm (pos div 32) 0 (BITS_TO_LONGS (2 ^ order)) = Some bm' \<and> length bm' = length bm \<and>
      (\<forall>i<32 * length bm. bm_bit bm' i \<longleftrightarrow> (if i \<in> region pos order then False else bm_bit bm i))"
    by (rule region_update [OF assms(1,2) refl]) (simp add: bit_and_iff bit_not_iff)
  then show ?thesis
    using assms(3) by (auto simp: do_reg_op_def region_size_def bset_bm_bit split: if_splits)
qed

subsection \<open>The allocator\<close>

definition free_region :: "bitmap \<Rightarrow> nat \<Rightarrow> nat \<Rightarrow> nat \<Rightarrow> bool" where
  "free_region bm bits order pos \<longleftrightarrow> 2 ^ order dvd pos \<and> pos + 2 ^ order \<le> bits \<and>
     region pos order \<inter> bset (32 * length bm) bm = {}"

lemma find_free_loop_ok:
  assumes "bits \<le> 32 * length bm" and "order < 31" "bits + 2 ^ order < 2 ^ 31" and "2 ^ order dvd pos" "pos \<le> bits" and "\<forall>k<pos. \<not> free_region bm bits order k"
  shows "if \<exists>k. free_region bm bits order k
    then \<exists>bm' r. find_free_loop bm bits order pos = Some (bm', int r) \<and> length bm' = length bm \<and>
      free_region bm bits order r \<and> (\<forall>k<r. \<not> free_region bm bits order k) \<and>
      bset (32 * length bm) bm' = bset (32 * length bm) bm \<union> region r order
    else find_free_loop bm bits order pos = Some (bm, - ENOMEM)"
  using assms(4-)
proof (induction "bits - pos" arbitrary: pos rule: less_induct)
  case less
  have sizes: "region_size order = Some (2 ^ order)" "int_sum (pos + 2 ^ order) = Some (pos + 2 ^ order)"
    using assms(2,3) less.prems(2) by (simp_all add: region_size_def int_sum_eq)
  show ?case
  proof (cases "pos + 2 ^ order \<le> bits")
    case fits: True
    then have r: "2 ^ order dvd pos" "pos + 2 ^ order \<le> 32 * length bm" "order < 31"
      using less.prems(1) assms(1,2) by simp_all
    show ?thesis
    proof (cases "region pos order \<inter> bset (32 * length bm) bm = {}")
      case True
      then have free: "free_region bm bits order pos"
        using r fits by (simp add: free_region_def)
      obtain bm' where "do_reg_op bm pos order REG_OP_ALLOC = Some (bm', False)" "length bm' = length bm"
          "bset (32 * length bm) bm' = bset (32 * length bm) bm \<union> region pos order"
        using do_reg_op_alloc [OF r] by blast
      then have "find_free_loop bm bits order pos = Some (bm', int pos)" "length bm' = length bm"
          "bset (32 * length bm) bm' = bset (32 * length bm) bm \<union> region pos order"
        using fits True do_reg_op_isfree [OF r] sizes by (simp_all add: find_free_loop.simps [of bm])
      then show ?thesis
        using free less.prems(3) by auto
    next
      case False
      then have "find_free_loop bm bits order pos = find_free_loop bm bits order (pos + 2 ^ order)"
        using fits do_reg_op_isfree [OF r] sizes by (subst find_free_loop.simps) simp
      moreover have "\<forall>k<pos + 2 ^ order. \<not> free_region bm bits order k"
      proof (intro allI impI notI)
        fix k
        assume k: "k < pos + 2 ^ order" "free_region bm bits order k"
        then obtain q c where "k = 2 ^ order * q" "pos = 2 ^ order * c"
          using less.prems(1) k(2) unfolding free_region_def by (meson dvdE)
        then have "2 ^ order * q < 2 ^ order * (c + 1)"
          using k(1) by simp
        then have "q \<le> c"
          unfolding mult_less_cancel1 by simp
        then have "k \<le> pos"
          using \<open>k = _\<close> \<open>pos = _\<close> by simp
        then show False
          using k(2) less.prems(3) False by (auto simp: free_region_def le_less)
      qed
      ultimately show ?thesis
        using less.hyps [OF region_progress [OF fits]] less.prems(1) fits by simp
    qed
  next
    case False
    then have "\<not> free_region bm bits order k" for k
      using less.prems(3) by (cases "k < pos") (auto simp: free_region_def)
    then show ?thesis
      using False sizes by (simp add: find_free_loop.simps [of bm])
  qed
qed

lemma bitmap_allocate_region_eq:
  assumes "2 ^ order dvd pos" and "pos + 2 ^ order \<le> 32 * length bm" and "order < 31"
  shows "if region pos order \<inter> bset (32 * length bm) bm = {}
    then \<exists>bm'. bitmap_allocate_region bm pos order = Some (bm', 0) \<and> length bm' = length bm \<and>
      bset (32 * length bm) bm' = bset (32 * length bm) bm \<union> region pos order
    else bitmap_allocate_region bm pos order = Some (bm, - EBUSY)"
  using do_reg_op_isfree [OF assms] do_reg_op_alloc [OF assms] by (auto simp: bitmap_allocate_region_def)

lemma bitmap_release_region_eq:
  assumes "2 ^ order dvd pos" and "pos + 2 ^ order \<le> 32 * length bm" and "order < 31"
  shows "\<exists>bm'. bitmap_release_region bm pos order = Some bm' \<and> length bm' = length bm \<and>
    bset (32 * length bm) bm' = bset (32 * length bm) bm - region pos order"
  using do_reg_op_release [OF assms] by (auto simp: bitmap_release_region_def)

text \<open>
  Clients of the allocator: a run of calls on a bitmap, with the regions that are allocated. A region
  named by a call is aligned and inside the bitmap, only an allocated region is released, and the size of a
  region to search for is small enough for the sums of the search.
\<close>

datatype region_call = Find_Free nat | Allocate nat nat | Release nat nat

type_synonym regions = "bitmap \<times> (nat \<times> nat) set"

fun call_ok :: "nat \<Rightarrow> (nat \<times> nat) set \<Rightarrow> region_call \<Rightarrow> bool" where
  "call_ok bits live (Find_Free order) \<longleftrightarrow> order < 31 \<and> int_sum (bits + 2 ^ order) \<noteq> None"
| "call_ok bits live (Allocate pos order) \<longleftrightarrow> 2 ^ order dvd pos \<and> pos + 2 ^ order \<le> bits"
| "call_ok bits live (Release pos order) \<longleftrightarrow> (pos, order) \<in> live"

fun do_region_call :: "nat \<Rightarrow> region_call \<Rightarrow> regions \<Rightarrow> regions option" where
  "do_region_call bits (Find_Free order) (bm, live) =
     do { (bm, r) \<leftarrow> bitmap_find_free_region bm bits order;
          Some (bm, if r < 0 then live else insert (nat r, order) live) }"
| "do_region_call bits (Allocate pos order) (bm, live) =
     do { (bm, r) \<leftarrow> bitmap_allocate_region bm pos order;
          Some (bm, if r < 0 then live else insert (pos, order) live) }"
| "do_region_call bits (Release pos order) (bm, live) =
     do { bm \<leftarrow> bitmap_release_region bm pos order; Some (bm, live - {(pos, order)}) }"

definition region_exec :: "nat \<Rightarrow> region_call \<Rightarrow> regions \<Rightarrow> regions option" where
  "region_exec bits c s = (if call_ok bits (snd s) c then do_region_call bits c s else None)"

definition regions_inv :: "nat \<Rightarrow> regions \<Rightarrow> bool" where
  "regions_inv bits s = (case s of (bm, live) \<Rightarrow>
     bits \<le> 32 * length bm \<and> bits < 2 ^ 31 \<and>
     (\<forall>(p, n)\<in>live. 2 ^ n dvd p \<and> p + 2 ^ n \<le> bits) \<and>
     (\<forall>x\<in>live. \<forall>y\<in>live. x \<noteq> y \<longrightarrow> region (fst x) (snd x) \<inter> region (fst y) (snd y) = {}) \<and>
     bset (32 * length bm) bm = (\<Union>(p, n)\<in>live. region p n))"

lemma order_small: "p + 2 ^ n \<le> bits \<Longrightarrow> bits < 2 ^ 31 \<Longrightarrow> n < (31 :: nat)" for p bits :: nat
proof -
  assume "p + 2 ^ n \<le> bits" "bits < 2 ^ 31"
  then have "(2 :: nat) ^ n < 2 ^ 31"
    by linarith
  then show ?thesis
    by (simp only: power_strict_increasing_iff one_less_numeral_iff semiring_norm)
qed

lemma regions_inv_insert:
  assumes "regions_inv bits (bm, live)" and "2 ^ n dvd p" "p + 2 ^ n \<le> bits"
    and "region p n \<inter> bset (32 * length bm) bm = {}"
    and "length bm' = length bm" "bset (32 * length bm) bm' = bset (32 * length bm) bm \<union> region p n"
  shows "regions_inv bits (bm', insert (p, n) live)"
  using assms by (auto simp: regions_inv_def) blast+

lemma regions_inv_remove:
  assumes "regions_inv bits (bm, live)" and "(p, n) \<in> live"
    and "length bm' = length bm" "bset (32 * length bm) bm' = bset (32 * length bm) bm - region p n"
  shows "regions_inv bits (bm', live - {(p, n)})"
proof -
  have disj: "\<forall>x\<in>live. \<forall>y\<in>live. x \<noteq> y \<longrightarrow> region (fst x) (snd x) \<inter> region (fst y) (snd y) = {}"
    using assms(1) by (simp add: regions_inv_def)
  have set: "bset (32 * length bm) bm = (\<Union>(p, n)\<in>live. region p n)"
    using assms(1) by (simp add: regions_inv_def)
  have "(\<Union>(p, n)\<in>live. region p n) - region p n = (\<Union>(p, n)\<in>live - {(p, n)}. region p n)"
    using disj assms(2) by fastforce
  then have "bset (32 * length bm') bm' = (\<Union>(p, n)\<in>live - {(p, n)}. region p n)"
    unfolding assms(3,4) set .
  then show ?thesis
    using assms(1,3) disj by (simp add: regions_inv_def)
qed

text \<open>A call that keeps to the rules returns and keeps the invariant.\<close>

lemma do_region_call_ok:
  assumes inv: "regions_inv bits (bm, live)" and ok: "call_ok bits live c"
  shows "\<exists>t. do_region_call bits c (bm, live) = Some t \<and> regions_inv bits t"
proof (cases c)
  case (Find_Free order)
  have len: "bits \<le> 32 * length bm"
    using inv by (simp add: regions_inv_def)
  have order: "order < 31" "bits + 2 ^ order < 2 ^ 31"
    using ok Find_Free by (simp_all add: int_sum_eq split: if_splits)
  show ?thesis
  proof (cases "\<exists>k. free_region bm bits order k")
    case True
    then obtain bm' r where call: "find_free_loop bm bits order 0 = Some (bm', int r)" and
        r: "free_region bm bits order r" "length bm' = length bm"
          "bset (32 * length bm) bm' = bset (32 * length bm) bm \<union> region r order"
      using find_free_loop_ok [OF len order, of 0] by auto
    have "regions_inv bits (bm', insert (r, order) live)"
      using r by (intro regions_inv_insert [OF inv]) (simp_all add: free_region_def)
    then show ?thesis
      by (simp add: Find_Free bitmap_find_free_region_def call)
  next
    case False
    then have "find_free_loop bm bits order 0 = Some (bm, - ENOMEM)"
      using find_free_loop_ok [OF len order, of 0] by simp
    then show ?thesis
      using inv by (simp add: Find_Free bitmap_find_free_region_def)
  qed
next
  case (Allocate pos order)
  then have r: "2 ^ order dvd pos" "pos + 2 ^ order \<le> bits"
    using ok by simp_all
  then have "pos + 2 ^ order \<le> 32 * length bm" "order < 31"
    using inv order_small [of pos order bits] by (simp_all add: regions_inv_def)
  from bitmap_allocate_region_eq [OF r(1) this] show ?thesis
    using inv regions_inv_insert [OF inv r] by (auto simp: Allocate split: if_splits)
next
  case (Release pos order)
  then have live: "(pos, order) \<in> live"
    using ok by simp
  then have r: "2 ^ order dvd pos" "pos + 2 ^ order \<le> bits"
    using inv by (auto simp: regions_inv_def)
  then have "pos + 2 ^ order \<le> 32 * length bm" "order < 31"
    using inv order_small [of pos order bits] by (simp_all add: regions_inv_def)
  from bitmap_release_region_eq [OF r(1) this] show ?thesis
    using regions_inv_remove [OF inv live] by (auto simp: Release)
qed

interpretation regs: event_system "region_exec bits" "regions_inv bits" for bits
proof
  fix s e t
  assume "regions_inv bits s" and "region_exec bits e s = Some t"
  then show "regions_inv bits t"
    using do_region_call_ok [of bits "fst s" "snd s" e] by (auto simp: region_exec_def split: if_splits)
qed

subsection \<open>Properties\<close>

text \<open>C27: \<open>bitmap_find_free_region\<close> returns, for every order and size for which its sums fit an
  \<open>int\<close>. When some aligned region of the order is free, it returns the position of the first one and has set
  exactly its bits; otherwise it returns \<open>-ENOMEM\<close> and leaves the bitmap alone.\<close>

theorem bitmap_find_free_region_first:
  assumes "bits \<le> 32 * length bm" and "order < 31" and "bits + 2 ^ order < 2 ^ 31"
  shows "if \<exists>k. free_region bm bits order k
    then \<exists>bm' r. bitmap_find_free_region bm bits order = Some (bm', int r) \<and> length bm' = length bm \<and>
      free_region bm bits order r \<and> (\<forall>k<r. \<not> free_region bm bits order k) \<and>
      bset (32 * length bm) bm' = bset (32 * length bm) bm \<union> region r order
    else bitmap_find_free_region bm bits order = Some (bm, - ENOMEM)"
  using find_free_loop_ok [OF assms, of 0] unfolding bitmap_find_free_region_def by simp

theorem bitmap_find_free_region_first_witness:
  "bitmap_find_free_region [0x13] 32 2 = Some ([0xf13], 8) \<and> free_region [0x13] 32 2 8"
proof -
  have r: "bitmap_find_free_region [0x13] 32 2 = Some ([0xf13], 8)"
    by code_simp
  then show ?thesis
    using bitmap_find_free_region_first [of 32 "[0x13]" 2] by (auto split: if_splits)
qed

text \<open>C23: Regions never overlap. After any run of \<open>bitmap_find_free_region\<close>,
  \<open>bitmap_allocate_region\<close> and \<open>bitmap_release_region\<close> on a bitmap that was empty, where the
  calls keep to \<open>call_ok\<close> (the regions named are aligned and inside, only allocated ones are released, and
  orders are small enough for the sums of the search), the allocated regions are pairwise disjoint, the bits
  set are exactly theirs, and every such call returns.\<close>

theorem regions_disjoint:
  assumes "run_events (region_exec bits) es (replicate n 0, {}) = Some (bm, live)" and "bits \<le> 32 * n" and "bits < 2 ^ 31"
  shows "(\<forall>x\<in>live. \<forall>y\<in>live. x \<noteq> y \<longrightarrow> region (fst x) (snd x) \<inter> region (fst y) (snd y) = {}) \<and>
    bset (32 * length bm) bm = (\<Union>(p, n)\<in>live. region p n) \<and>
    (\<forall>c. call_ok bits live c \<longrightarrow> region_exec bits c (bm, live) \<noteq> None)"
proof -
  have "regions_inv bits (replicate n 0, {})"
    using assms(2,3) by (simp add: regions_inv_def bset_def less_mult_imp_div_less mult.commute)
  note inv = regs.run_inv [OF assms(1) this]
  have "region_exec bits c (bm, live) \<noteq> None" if "call_ok bits live c" for c
    using do_region_call_ok [OF inv that] that by (auto simp: region_exec_def)
  with inv show ?thesis
    unfolding regions_inv_def prod.case by blast
qed

theorem regions_disjoint_witness:
  "region 0 1 \<inter> region 4 2 = {} \<and> bset 32 [0xf3] = region 0 1 \<union> region 4 2"
proof -
  have "run_events (region_exec 32) [Find_Free 0, Find_Free 2, Release 0 0, Allocate 0 1] (replicate 1 0, {}) =
      Some ([0xf3], {(4, 2), (0, 1)})"
    by code_simp
  from regions_disjoint [OF this] show ?thesis
    by auto
qed

end
