(* ===== verification/Bitmap_Find.thy ===== *)
theory Bitmap_Find
  imports Bitmap
begin

text \<open>
  Searching bitmaps: the bit searches of \<open>lib/find_next_bit.c\<close> on the portable
  \<open>__ffs\<close> and \<open>ffz\<close>, and \<open>bitmap_find_next_zero_area\<close> of
  \<open>lib/bitmap.c\<close>. The searches are shown to return the next bit of the set (or of its
  complement) and the area search to return the first aligned free area.
\<close>

subsection \<open>Bit searches in a word\<close>

text \<open>\<open>__ffs\<close>: the index of the lowest set bit, by bisection.\<close>

definition ffs_word :: "u32 \<Rightarrow> nat" where
  "ffs_word word =
     (let (num, word) = if word AND 0xffff = 0 then (16, drop_bit 16 word) else (0, word);
          (num, word) = if word AND 0xff = 0 then (num + 8, drop_bit 8 word) else (num, word);
          (num, word) = if word AND 0xf = 0 then (num + 4, drop_bit 4 word) else (num, word);
          (num, word) = if word AND 0x3 = 0 then (num + 2, drop_bit 2 word) else (num, word)
      in if word AND 0x1 = 0 then num + 1 else num)"

definition ffz_word :: "u32 \<Rightarrow> nat" where
  "ffz_word x = ffs_word (NOT x)"

subsection \<open>Bit searches in a bitmap\<close>

text \<open>The loop over full words: the word that stops it (left), or what is left to search.\<close>

function scan_words :: "(u32 \<Rightarrow> bool) \<Rightarrow> bitmap \<Rightarrow> nat \<Rightarrow> nat \<Rightarrow> nat \<Rightarrow> (nat \<times> u32 + nat \<times> nat \<times> nat) option" where
  "scan_words stop addr p sz result =
     (if 32 \<le> sz
      then do { tmp \<leftarrow> arr_get addr p;
                if stop tmp then Some (Inl (result, tmp))
                else scan_words stop addr (p + 1) (sz - 32) (result + 32) }
      else Some (Inr (p, sz, result)))"
  by pat_completeness auto
termination
  by (relation "measure (\<lambda>(_, _, _, sz, _). sz)") auto

declare scan_words.simps [simp del]

definition found_first :: "u32 \<Rightarrow> nat \<Rightarrow> nat \<Rightarrow> nat" where
  "found_first tmp sz result =
     (let tmp = tmp AND drop_bit (32 - sz) (NOT 0) in
      if tmp = 0 then result + sz else result + ffs_word tmp)"

definition find_rest :: "bitmap \<Rightarrow> nat \<Rightarrow> nat \<Rightarrow> nat \<Rightarrow> nat option" where
  "find_rest addr p sz result =
     do { r \<leftarrow> scan_words (\<lambda>tmp. tmp \<noteq> 0) addr p sz result;
          case r of Inl (result, tmp) \<Rightarrow> Some (result + ffs_word tmp)
          | Inr (p, sz, result) \<Rightarrow>
              if sz = 0 then Some result
              else do { tmp \<leftarrow> arr_get addr p; Some (found_first tmp sz result) } }"

definition find_next_bit :: "bitmap \<Rightarrow> nat \<Rightarrow> nat \<Rightarrow> nat option" where
  "find_next_bit addr sz offset =
     (let p = offset div 32; result = offset div 32 * 32 in
      if sz \<le> offset then Some sz
      else let sz = sz - result; offset = offset mod 32 in
      if offset \<noteq> 0
      then do { tmp \<leftarrow> arr_get addr p;
                let tmp = tmp AND push_bit offset (NOT 0);
                if sz < 32 then Some (found_first tmp sz result)
                else if tmp \<noteq> 0 then Some (result + ffs_word tmp)
                else find_rest addr (p + 1) (sz - 32) (result + 32) }
      else find_rest addr p sz result)"

definition find_first_bit :: "bitmap \<Rightarrow> nat \<Rightarrow> nat option" where
  "find_first_bit addr sz = find_rest addr 0 sz 0"

definition found_first_zero :: "u32 \<Rightarrow> nat \<Rightarrow> nat \<Rightarrow> nat" where
  "found_first_zero tmp sz result =
     (let tmp = tmp OR push_bit sz (NOT 0) in
      if tmp = NOT 0 then result + sz else result + ffz_word tmp)"

definition find_rest_zero :: "bitmap \<Rightarrow> nat \<Rightarrow> nat \<Rightarrow> nat \<Rightarrow> nat option" where
  "find_rest_zero addr p sz result =
     do { r \<leftarrow> scan_words (\<lambda>tmp. NOT tmp \<noteq> 0) addr p sz result;
          case r of Inl (result, tmp) \<Rightarrow> Some (result + ffz_word tmp)
          | Inr (p, sz, result) \<Rightarrow>
              if sz = 0 then Some result
              else do { tmp \<leftarrow> arr_get addr p; Some (found_first_zero tmp sz result) } }"

definition find_next_zero_bit :: "bitmap \<Rightarrow> nat \<Rightarrow> nat \<Rightarrow> nat option" where
  "find_next_zero_bit addr sz offset =
     (let p = offset div 32; result = offset div 32 * 32 in
      if sz \<le> offset then Some sz
      else let sz = sz - result; offset = offset mod 32 in
      if offset \<noteq> 0
      then do { tmp \<leftarrow> arr_get addr p;
                let tmp = tmp OR drop_bit (32 - offset) (NOT 0);
                if sz < 32 then Some (found_first_zero tmp sz result)
                else if NOT tmp \<noteq> 0 then Some (result + ffz_word tmp)
                else find_rest_zero addr (p + 1) (sz - 32) (result + 32) }
      else find_rest_zero addr p sz result)"

definition find_first_zero_bit :: "bitmap \<Rightarrow> nat \<Rightarrow> nat option" where
  "find_first_zero_bit addr sz = find_rest_zero addr 0 sz 0"

subsection \<open>Free areas\<close>

definition align_mask_up :: "nat \<Rightarrow> u32 \<Rightarrow> nat" where
  "align_mask_up x a = unat ((of_nat x + a) AND NOT a)"

partial_function (option) bitmap_find_next_zero_area :: "bitmap \<Rightarrow> nat \<Rightarrow> nat \<Rightarrow> nat \<Rightarrow> u32 \<Rightarrow> nat option" where
  "bitmap_find_next_zero_area bm sz start nr align_mask =
     do { index \<leftarrow> find_next_zero_bit bm sz start;
          let index = align_mask_up index align_mask;
          let stop = (index + nr) mod 2 ^ 32;
          if sz < stop then Some stop
          else do { i \<leftarrow> find_next_bit bm stop index;
                    if i < stop then bitmap_find_next_zero_area bm sz ((i + 1) mod 2 ^ 32) nr align_mask
                    else Some index } }"

subsection \<open>The lowest bit\<close>

lemma ffs_step:
  assumes "\<exists>j<2 * n. bit (w :: u32) j"
    and "(num', w') = (if w AND mask n = 0 then (num + n, drop_bit n w) else (num, w))"
  shows "(\<exists>j<n. bit w' j) \<and> (\<exists>d. num' = num + d \<and> w' = drop_bit d w \<and> (\<forall>j<d. \<not> bit w j) \<and> d \<le> n)"
proof (cases "w AND mask n = 0")
  case True
  have none: "\<not> bit w j" if "j < n" for j
  proof -
    have "\<not> bit (w AND mask n) j"
      unfolding True by simp
    then show ?thesis
      using that by (auto simp: bit_and_iff bit_mask_iff dest: bit_imp_possible_bit)
  qed
  obtain j where j: "j < 2 * n" "bit w j"
    using assms(1) by blast
  then have "n \<le> j"
    using none by (meson not_le)
  then have "\<exists>j<n. bit (drop_bit n w) j"
    using j by (intro exI [of _ "j - n"]) (auto simp: bit_simps)
  then show ?thesis
    using assms(2) True none by auto
next
  case False
  then have "\<exists>j<n. bit w j"
    by (auto simp: bit_eq_iff bit_simps)
  then show ?thesis
    using assms(2) False by (auto intro: exI [of _ 0])
qed

lemma ffs_word_ok:
  assumes "word \<noteq> 0"
  shows "bit word (ffs_word word) \<and> (\<forall>j<ffs_word word. \<not> bit word j) \<and> ffs_word word < 32"
proof -
  have m: "0xffff = (mask 16 :: u32)" "0xff = (mask 8 :: u32)" "0xf = (mask 4 :: u32)" "0x3 = (mask 2 :: u32)"
    by (simp_all add: mask_eq_exp_minus_1)
  obtain n1 w1 where 1: "(n1, w1) = (if word AND mask 16 = 0 then (16, drop_bit 16 word) else (0 :: nat, word))"
    by (metis surj_pair)
  obtain n2 w2 where 2: "(n2, w2) = (if w1 AND mask 8 = 0 then (n1 + 8, drop_bit 8 w1) else (n1, w1))"
    by (metis surj_pair)
  obtain n3 w3 where 3: "(n3, w3) = (if w2 AND mask 4 = 0 then (n2 + 4, drop_bit 4 w2) else (n2, w2))"
    by (metis surj_pair)
  obtain n4 w4 where 4: "(n4, w4) = (if w3 AND mask 2 = 0 then (n3 + 2, drop_bit 2 w3) else (n3, w3))"
    by (metis surj_pair)
  have ffs: "ffs_word word = (if w4 AND 1 = 0 then n4 + 1 else n4)"
    unfolding ffs_word_def Let_def m by (simp only: 1 [symmetric] 2 [symmetric] 3 [symmetric] 4 [symmetric] prod.case)
  have "\<exists>j<2 * 16. bit word j"
    using assms by (auto simp: word_eq_0)
  note 1 = ffs_step [OF this, of n1 w1 0, unfolded add_0, OF 1]
  have "\<exists>j<2 * 8. bit w1 j"
    using conjunct1 [OF 1] by simp
  note 2 = ffs_step [OF this 2]
  have "\<exists>j<2 * 4. bit w2 j"
    using conjunct1 [OF 2] by simp
  note 3 = ffs_step [OF this 3]
  have "\<exists>j<2 * 2. bit w3 j"
    using conjunct1 [OF 3] by simp
  note 4 = ffs_step [OF this 4]
  obtain d1 d2 d3 d4 where d: "n1 = d1" "w1 = drop_bit d1 word" "\<forall>j<d1. \<not> bit word j" "d1 \<le> 16"
      "n2 = n1 + d2" "w2 = drop_bit d2 w1" "\<forall>j<d2. \<not> bit w1 j" "d2 \<le> 8"
      "n3 = n2 + d3" "w3 = drop_bit d3 w2" "\<forall>j<d3. \<not> bit w2 j" "d3 \<le> 4"
      "n4 = n3 + d4" "w4 = drop_bit d4 w3" "\<forall>j<d4. \<not> bit w3 j" "d4 \<le> 2"
    using 1 2 3 4 by auto
  have low: "\<forall>j<n + d. \<not> bit word j" if "\<forall>j<n. \<not> bit word j" "\<forall>j<d. \<not> bit (drop_bit n word) j" for n d
    using that by (auto simp: bit_simps) (metis add_diff_inverse_nat nat_add_left_cancel_less)
  have w: "w2 = drop_bit n2 word" "w3 = drop_bit n3 word" and w4: "w4 = drop_bit n4 word"
    using d by (simp_all add: add_ac)
  have "\<forall>j<n2. \<not> bit word j"
    using low [OF d(3), of d2] d(1,2,5,7) by simp
  then have "\<forall>j<n3. \<not> bit word j"
    using low [of n2 d3] d(9,11) w(1) by simp
  then have n4: "\<forall>j<n4. \<not> bit word j"
    using low [of n3 d4] d(13,15) w(2) by simp
  have "n4 \<le> 30"
    using d by linarith
  have w4_0: "w4 AND 1 = 0 \<longleftrightarrow> \<not> bit word n4"
    by (simp add: w4 and_one_eq mod_2_eq_odd bit_iff_odd_drop_bit)
  have "bit word n4 \<or> bit word (Suc n4)"
    using conjunct1 [OF 4] by (auto simp: w4 less_2_cases_iff bit_simps bit_iff_odd_drop_bit [of word n4])
  then show ?thesis
    using n4 \<open>n4 \<le> 30\<close> by (auto simp: ffs w4_0 less_Suc_eq)
qed

subsection \<open>The next element of a set\<close>

definition is_next :: "(nat \<Rightarrow> bool) \<Rightarrow> nat \<Rightarrow> nat \<Rightarrow> nat \<Rightarrow> bool" where
  "is_next Q lo hi r \<longleftrightarrow> lo \<le> r \<and> r \<le> hi \<and> (\<forall>i. lo \<le> i \<and> i < r \<longrightarrow> \<not> Q i) \<and> (r < hi \<longrightarrow> Q r)"

lemma is_next_join: "is_next Q a b b \<Longrightarrow> is_next Q b c r \<Longrightarrow> is_next Q a c r"
  unfolding is_next_def by (meson le_less_linear le_trans)

lemma is_next_extend: "is_next Q a b r \<Longrightarrow> r < b \<Longrightarrow> b \<le> c \<Longrightarrow> is_next Q a c r"
  unfolding is_next_def by (meson le_trans)

lemma is_next_unique: "is_next Q lo hi r \<Longrightarrow> is_next Q lo hi s \<Longrightarrow> r = s"
  unfolding is_next_def by (metis le_neq_implies_less linorder_neqE_nat order_less_le_trans)

lemma is_next_word:
  assumes "\<And>j. j < 32 \<Longrightarrow> bit tmp j \<longleftrightarrow> lo \<le> j \<and> j < n \<and> Q (b + j)" and "lo \<le> n" "n \<le> 32"
  shows "is_next Q (b + lo) (b + n) (if tmp = 0 then b + n else b + ffs_word tmp)"
proof (cases "tmp = 0")
  case True
  have "\<not> Q i" if "b + lo \<le> i" "i < b + n" for i
    using assms(1) [of "i - b"] assms(3) that True by auto
  then show ?thesis
    using True assms(2) by (simp add: is_next_def)
next
  case False
  have f: "bit tmp (ffs_word tmp)" "\<forall>j<ffs_word tmp. \<not> bit tmp j" "ffs_word tmp < 32"
    using ffs_word_ok [OF False] by simp_all
  have "\<not> Q i" if "b + lo \<le> i" "i < b + ffs_word tmp" for i
  proof -
    have "\<not> bit tmp (i - b)" "i - b < 32" "lo \<le> i - b" "i - b < n" "b + (i - b) = i"
      using f that assms(1) [OF f(3)] by auto
    then show ?thesis
      using assms(1) [of "i - b"] by simp
  qed
  then show ?thesis
    using False f assms(1) [of "ffs_word tmp"] by (simp add: is_next_def)
qed

subsection \<open>The searches are exact\<close>

lemma bm_bit_word: "j < 32 \<Longrightarrow> bm_bit bm (32 * p + j) \<longleftrightarrow> bit (bm ! p) j"
  by (simp add: bm_bit_def)

lemma bit_ones_right: "0 < n \<Longrightarrow> n \<le> 32 \<Longrightarrow> bit (drop_bit (32 - n) (NOT (0 :: u32))) j \<longleftrightarrow> j < n"
  by (auto simp: bit_simps)

lemma found_first_next:
  assumes "\<And>j. j < 32 \<Longrightarrow> bit tmp j \<longleftrightarrow> lo \<le> j \<and> Q (b + j)" and "lo \<le> sz" "0 < sz" "sz \<le> 32"
  shows "is_next Q (b + lo) (b + sz) (found_first tmp sz b)"
  unfolding found_first_def Let_def
  by (rule is_next_word) (use assms bit_ones_right [OF assms(3,4)] in \<open>auto simp: bit_and_iff\<close>)

lemma find_rest_next:
  "32 * p + sz \<le> 32 * length addr \<Longrightarrow>
   \<exists>r. find_rest addr p sz (32 * p) = Some r \<and> is_next (bm_bit addr) (32 * p) (32 * p + sz) r"
proof (induction sz arbitrary: p rule: less_induct)
  case (less sz)
  consider "sz = 0" | "0 < sz" "sz < 32" | "32 \<le> sz"
    by linarith
  then show ?case
  proof cases
    case 1
    then show ?thesis
      by (auto simp: find_rest_def scan_words.simps is_next_def)
  next
    case 2
    then have p: "p < length addr"
      using less.prems by simp
    have "is_next (bm_bit addr) (32 * p + 0) (32 * p + sz) (found_first (addr ! p) sz (32 * p))"
      using 2 by (intro found_first_next) (simp_all add: bm_bit_word)
    then show ?thesis
      using 2 p by (simp add: find_rest_def scan_words.simps)
  next
    case 3
    then have p: "p < length addr"
      using less.prems by simp
    have w: "is_next (bm_bit addr) (32 * p + 0) (32 * p + 32)
        (if addr ! p = 0 then 32 * p + 32 else 32 * p + ffs_word (addr ! p))"
      by (rule is_next_word) (simp_all add: bm_bit_word)
    show ?thesis
    proof (cases "addr ! p = 0")
      case True
      then have "find_rest addr p sz (32 * p) = find_rest addr (Suc p) (sz - 32) (32 * Suc p)"
        using 3 p unfolding find_rest_def by (subst scan_words.simps) (simp add: add.commute)
      moreover obtain r where "find_rest addr (Suc p) (sz - 32) (32 * Suc p) = Some r"
          "is_next (bm_bit addr) (32 * Suc p) (32 * Suc p + (sz - 32)) r"
        using less.IH [of "sz - 32" "Suc p"] less.prems 3 by auto
      ultimately show ?thesis
        using w True 3 is_next_join [of "bm_bit addr" "32 * p" "32 * p + 32"] by (auto simp: add_ac)
    next
      case False
      then have "find_rest addr p sz (32 * p) = Some (32 * p + ffs_word (addr ! p))"
        using 3 p unfolding find_rest_def by (subst scan_words.simps) simp
      then show ?thesis
        using w False 3 ffs_word_ok [OF False] is_next_extend [of "bm_bit addr" "32 * p" "32 * p + 32" _ "32 * p + sz"]
        by simp
    qed
  qed
qed

lemma find_next_bit_next:
  assumes "offset < sz" and "sz \<le> 32 * length addr"
  shows "\<exists>r. find_next_bit addr sz offset = Some r \<and> is_next (bm_bit addr) offset sz r"
proof -
  let ?p = "offset div 32" and ?o = "offset mod 32"
  have o: "offset = 32 * ?p + ?o" "?o < 32"
    by simp_all
  then have b: "32 * ?p \<le> offset"
    by linarith
  have p: "?p < length addr"
    using assms o by linarith
  have sz: "32 * ?p + (sz - 32 * ?p) = sz"
    using assms(1) b by simp
  let ?t = "addr ! ?p AND push_bit ?o (NOT 0)"
  have t: "bit ?t j \<longleftrightarrow> ?o \<le> j \<and> bm_bit addr (32 * ?p + j)" if "j < 32" for j
    using that by (auto simp: bit_and_iff bit_simps bm_bit_word)
  consider "?o = 0" | "?o \<noteq> 0" "sz - 32 * ?p < 32" | "?o \<noteq> 0" "32 \<le> sz - 32 * ?p"
    by linarith
  then show ?thesis
  proof cases
    case 1
    then show ?thesis
      using find_rest_next [of ?p "sz - 32 * ?p" addr] assms sz o
      by (auto simp: find_next_bit_def Let_def mult.commute)
  next
    case 2
    have "is_next (bm_bit addr) (32 * ?p + ?o) (32 * ?p + (sz - 32 * ?p)) (found_first ?t (sz - 32 * ?p) (32 * ?p))"
      using 2 o assms(1) by (intro found_first_next t) linarith+
    then show ?thesis
      using 2 p assms(1) sz o(1) by (simp add: find_next_bit_def Let_def mult.commute)
  next
    case 3
    have w: "is_next (bm_bit addr) (32 * ?p + ?o) (32 * ?p + 32) (if ?t = 0 then 32 * ?p + 32 else 32 * ?p + ffs_word ?t)"
      by (rule is_next_word) (use t o(2) in \<open>auto simp: less_imp_le\<close>)
    show ?thesis
    proof (cases "?t = 0")
      case True
      obtain r where r: "find_rest addr (Suc ?p) (sz - 32 * ?p - 32) (32 * Suc ?p) = Some r"
          "is_next (bm_bit addr) (32 * Suc ?p) sz r"
        using find_rest_next [of "Suc ?p" "sz - 32 * ?p - 32" addr] assms(2) 3(2) sz by auto
      moreover have "find_next_bit addr sz offset = find_rest addr (Suc ?p) (sz - 32 * ?p - 32) (32 * Suc ?p)"
        using True 3 p assms(1) by (simp add: find_next_bit_def Let_def mult.commute add.commute)
      ultimately show ?thesis
        using w True o(1) is_next_join [of "bm_bit addr" offset "32 * Suc ?p" sz r] by (simp add: add.commute)
    next
      case False
      then have "find_next_bit addr sz offset = Some (32 * ?p + ffs_word ?t)"
        using 3 p assms(1) by (simp add: find_next_bit_def Let_def mult.commute)
      moreover have "is_next (bm_bit addr) offset sz (32 * ?p + ffs_word ?t)"
        using w False o(1) 3(2) ffs_word_ok [OF False]
        by (intro is_next_extend [of "bm_bit addr" offset "32 * ?p + 32" _ sz]) simp_all
      ultimately show ?thesis
        by simp
    qed
  qed
qed

text \<open>A search for a zero bit is a search for a set bit in the complement.\<close>

lemma scan_words_NOT:
  "p + sz div 32 \<le> length addr \<Longrightarrow>
   scan_words (\<lambda>tmp. NOT tmp \<noteq> 0) addr p sz result =
   map_option (map_sum (apsnd (\<lambda>w. NOT w)) id) (scan_words (\<lambda>tmp. tmp \<noteq> 0) (map (\<lambda>w. NOT w) addr) p sz result)"
proof (induction sz arbitrary: p result rule: less_induct)
  case (less sz)
  show ?case
  proof (cases "32 \<le> sz")
    case True
    then have "0 < sz div 32" "(sz - 32) div 32 = sz div 32 - 1"
      by (simp_all add: div_greater_zero_iff le_div_geq)
    then show ?thesis
      using True less.IH [of "sz - 32" "Suc p" "result + 32"] less.prems
      by (simp add: scan_words.simps [of _ _ p sz result])
  qed (simp add: scan_words.simps)
qed

lemma not_ones:
  "0 < n \<Longrightarrow> n < 32 \<Longrightarrow> NOT (x OR drop_bit (32 - n) (NOT 0)) = NOT (x :: u32) AND push_bit n (NOT 0)"
  "0 < n \<Longrightarrow> n < 32 \<Longrightarrow> NOT (x OR push_bit n (NOT 0)) = NOT (x :: u32) AND drop_bit (32 - n) (NOT 0)"
  by (auto simp: word_eq bit_simps)

lemma found_first_zero_NOT: "0 < sz \<Longrightarrow> sz < 32 \<Longrightarrow> found_first_zero tmp sz result = found_first (NOT tmp) sz result"
proof -
  assume "0 < sz" "sz < 32"
  moreover have "t = NOT 0 \<longleftrightarrow> NOT t = 0" for t :: u32
    by (auto simp: word_eq bit_simps)
  ultimately show ?thesis
    unfolding found_first_zero_def found_first_def Let_def ffz_word_def using not_ones(2) [of sz tmp] by simp
qed

lemma scan_words_left:
  "scan_words stop addr p sz result = Some (Inr (p', sz', result')) \<Longrightarrow> sz' < 32 \<and> 32 * p' + sz' = 32 * p + sz"
proof (induction sz arbitrary: p result rule: less_induct)
  case (less sz)
  show ?case
  proof (cases "32 \<le> sz")
    case True
    then have "scan_words stop addr (p + 1) (sz - 32) (result + 32) = Some (Inr (p', sz', result'))"
      using less.prems by (subst (asm) scan_words.simps) (auto simp: bind_eq_Some_conv split: if_splits)
    then show ?thesis
      using less.IH [of "sz - 32" "p + 1" "result + 32"] True by simp
  qed (use less.prems in \<open>simp add: scan_words.simps\<close>)
qed

lemma find_rest_zero_NOT:
  assumes "32 * p + sz \<le> 32 * length addr"
  shows "find_rest_zero addr p sz result = find_rest (map (\<lambda>w. NOT w) addr) p sz result"
proof -
  have "32 * (sz div 32) \<le> sz"
    by simp
  then have "p + sz div 32 \<le> length addr"
    using assms by linarith
  note scan = scan_words_NOT [OF this, of result]
  have last: "p' < length addr \<and> found_first_zero (addr ! p') sz' r = found_first (NOT (addr ! p')) sz' r"
    if "scan_words (\<lambda>tmp. tmp \<noteq> 0) (map (\<lambda>w. NOT w) addr) p sz result = Some (Inr (p', sz', r))" "sz' \<noteq> 0" for p' sz' r
    using scan_words_left [OF that(1)] that(2) assms by (auto simp: found_first_zero_NOT)
  show ?thesis
  proof (cases "scan_words (\<lambda>tmp. tmp \<noteq> 0) (map (\<lambda>w. NOT w) addr) p sz result")
    case None
    then show ?thesis
      unfolding find_rest_zero_def find_rest_def scan by simp
  next
    case (Some x)
    show ?thesis
    proof (cases x)
      case (Inl y)
      then show ?thesis
        unfolding find_rest_zero_def find_rest_def scan Some by (simp add: ffz_word_def split: prod.split)
    next
      case (Inr y)
      obtain p' sz' r where y: "y = (p', sz', r)"
        by (cases y)
      then show ?thesis
        using last [of p' sz' r] unfolding find_rest_zero_def find_rest_def scan Some Inr y by simp
    qed
  qed
qed

lemma find_next_zero_bit_NOT:
  assumes "offset < sz" and "sz \<le> 32 * length addr"
  shows "find_next_zero_bit addr sz offset = find_next_bit (map (\<lambda>w. NOT w) addr) sz offset"
proof -
  let ?p = "offset div 32" and ?o = "offset mod 32"
  have o: "offset = 32 * ?p + ?o" "?o < 32"
    by simp_all
  have p: "?p < length addr" "32 * ?p < sz"
    using assms o by linarith+
  have rest: "find_rest_zero addr ?p (sz - 32 * ?p) r = find_rest (map (\<lambda>w. NOT w) addr) ?p (sz - 32 * ?p) r"
    "32 \<le> sz - 32 * ?p \<Longrightarrow>
      find_rest_zero addr (Suc ?p) (sz - 32 * ?p - 32) r = find_rest (map (\<lambda>w. NOT w) addr) (Suc ?p) (sz - 32 * ?p - 32) r" for r
    using assms(2) p(2) by (intro find_rest_zero_NOT; simp)+
  show ?thesis
  proof (cases "?o = 0")
    case True
    then show ?thesis
      using rest(1) assms(1) by (simp add: find_next_zero_bit_def find_next_bit_def Let_def mult.commute)
  next
    case False
    then have t: "NOT (addr ! ?p OR drop_bit (32 - ?o) (NOT 0)) = NOT (addr ! ?p) AND push_bit ?o (NOT 0)"
      using not_ones(1) [of ?o] o(2) by simp
    show ?thesis
      using False rest(2) assms(1) p t found_first_zero_NOT [of "sz - 32 * ?p"]
      by (simp add: find_next_zero_bit_def find_next_bit_def Let_def mult.commute ffz_word_def)
  qed
qed

lemma bm_bit_NOT: "i < 32 * length addr \<Longrightarrow> bm_bit (map (\<lambda>w. NOT w) addr) i \<longleftrightarrow> \<not> bm_bit addr i"
  by (simp add: bm_bit_def bit_simps less_mult_imp_div_less mult.commute)

lemma is_next_cong: "(\<And>i. i < hi \<Longrightarrow> P i \<longleftrightarrow> Q i) \<Longrightarrow> is_next P lo hi r \<Longrightarrow> is_next Q lo hi r"
  by (auto simp: is_next_def)

lemma find_next_zero_bit_next:
  assumes "offset < sz" and "sz \<le> 32 * length addr"
  shows "\<exists>r. find_next_zero_bit addr sz offset = Some r \<and> is_next (\<lambda>i. \<not> bm_bit addr i) offset sz r"
proof -
  obtain r where r: "find_next_bit (map (\<lambda>w. NOT w) addr) sz offset = Some r"
      "is_next (bm_bit (map (\<lambda>w. NOT w) addr)) offset sz r"
    using find_next_bit_next [OF assms(1), of "map (\<lambda>w. NOT w) addr"] assms(2) by auto
  have "is_next (\<lambda>i. \<not> bm_bit addr i) offset sz r"
    by (rule is_next_cong [OF _ r(2)]) (use assms(2) bm_bit_NOT [of _ addr] in simp)
  then show ?thesis
    using r(1) find_next_zero_bit_NOT [OF assms] by simp
qed

lemma longs_bits: "BITS_TO_LONGS bits \<le> length bm \<Longrightarrow> bits \<le> 32 * length bm"
proof -
  assume a: "BITS_TO_LONGS bits \<le> length bm"
  have "bits = 32 * (bits div 32) + bits mod 32" "bits mod 32 < 32"
    by simp_all
  then have "bits \<le> 32 * BITS_TO_LONGS bits"
    unfolding BITS_TO_LONGS_eq by (cases "bits mod 32 = 0") simp_all
  then show ?thesis
    using a by linarith
qed

subsection \<open>Aligned free areas\<close>

lemma unat_and_not_mask: "unat ((w :: u32) AND NOT (mask a)) = unat w div 2 ^ a * 2 ^ a"
proof -
  have "w AND NOT (mask a) = push_bit a (drop_bit a w)"
    by (auto simp: word_eq bit_simps)
  then have "unat (w AND NOT (mask a)) = take_bit 32 (push_bit a (drop_bit a (unat w)))"
    using unsigned_less [of w, where 'a = nat] by (simp add: unsigned_push_bit_eq unsigned_drop_bit_eq take_bit_nat_eq_self)
  also have "push_bit a (drop_bit a (unat w)) = unat w div 2 ^ a * 2 ^ a"
    by (simp add: push_bit_eq_mult drop_bit_eq_div)
  also have "take_bit 32 (unat w div 2 ^ a * 2 ^ a) = unat w div 2 ^ a * 2 ^ a"
    using le_less_trans [OF div_times_less_eq_dividend [of "unat w" "2 ^ a"] unsigned_less [of w, where 'a = nat]]
    by (intro take_bit_nat_eq_self) simp
  finally show ?thesis .
qed

definition free_area :: "bitmap \<Rightarrow> nat \<Rightarrow> nat \<Rightarrow> nat \<Rightarrow> nat \<Rightarrow> bool" where
  "free_area bm sz nr a k \<longleftrightarrow> 2 ^ a dvd k \<and> k + nr \<le> sz \<and> {k..<k + nr} \<inter> bset sz bm = {}"

lemma align_mask_up_eq:
  assumes "x + 2 ^ a \<le> 2 ^ 32"
  shows "2 ^ a dvd align_mask_up x (mask a) \<and> x \<le> align_mask_up x (mask a) \<and> align_mask_up x (mask a) < x + 2 ^ a \<and>
    (\<forall>k. 2 ^ a dvd k \<longrightarrow> x \<le> k \<longrightarrow> align_mask_up x (mask a) \<le> k)"
proof -
  have pos: "(0 :: nat) < 2 ^ a"
    by simp
  have "of_nat (2 ^ a - 1) = (mask a :: u32)"
    by (simp add: mask_eq_exp_minus_1 of_nat_diff)
  then have "(of_nat x :: u32) + mask a = of_nat (x + (2 ^ a - 1))"
    by (simp only: of_nat_add)
  then have "unat ((of_nat x :: u32) + mask a) = x + (2 ^ a - 1)"
    using assms pos by (simp only: unat_of_nat) (simp add: take_bit_nat_eq_self)
  then have u: "align_mask_up x (mask a) = (x + (2 ^ a - 1)) div 2 ^ a * 2 ^ a"
    unfolding align_mask_up_def unat_and_not_mask by simp
  have "(x + (2 ^ a - 1)) div 2 ^ a * 2 ^ a + (x + (2 ^ a - 1)) mod 2 ^ a = x + (2 ^ a - 1)"
    by (rule div_mult_mod_eq)
  moreover have "(x + (2 ^ a - 1)) mod 2 ^ a < 2 ^ a"
    by simp
  ultimately have lo: "x \<le> align_mask_up x (mask a)" and hi: "align_mask_up x (mask a) < x + 2 ^ a"
    unfolding u using pos by linarith+
  have "align_mask_up x (mask a) \<le> k" if k: "2 ^ a dvd k" "x \<le> k" for k
  proof (rule ccontr)
    assume "\<not> align_mask_up x (mask a) \<le> k"
    moreover obtain m where "k = m * 2 ^ a"
      using k(1) by (auto simp: mult.commute)
    ultimately have "m < (x + (2 ^ a - 1)) div 2 ^ a"
      unfolding u by simp
    then have "(m + 1) * 2 ^ a \<le> align_mask_up x (mask a)"
      unfolding u by (intro mult_le_mono1) simp
    then show False
      using hi k(2) \<open>k = m * 2 ^ a\<close> by simp
  qed
  then show ?thesis
    using lo hi u by simp
qed

lemma find_next_zero_bit_least:
  assumes "BITS_TO_LONGS sz \<le> length bm"
  shows "\<exists>r. find_next_zero_bit bm sz start = Some r \<and> r \<le> sz \<and> (start \<le> sz \<longrightarrow> start \<le> r) \<and>
    (\<forall>i. start \<le> i \<and> i < r \<longrightarrow> i \<in> bset sz bm) \<and> (r < sz \<longrightarrow> r \<notin> bset sz bm)"
proof (cases "start < sz")
  case True
  then show ?thesis
    using find_next_zero_bit_next [OF True longs_bits [OF assms]] by (auto simp: is_next_def bset_bm_bit)
qed (auto simp: find_next_zero_bit_def)

lemma find_next_bit_least:
  assumes "hi \<le> sz" and "BITS_TO_LONGS sz \<le> length bm"
  shows "\<exists>r. find_next_bit bm hi start = Some r \<and> r \<le> hi \<and> (start \<le> hi \<longrightarrow> start \<le> r) \<and>
    (\<forall>i. start \<le> i \<and> i < r \<longrightarrow> i \<notin> bset sz bm) \<and> (r < hi \<longrightarrow> r \<in> bset sz bm)"
proof (cases "start < hi")
  case True
  have "hi \<le> 32 * length bm"
    using longs_bits [OF assms(2)] assms(1) by simp
  from find_next_bit_next [OF True this] show ?thesis
    using assms(1) by (auto simp: is_next_def bset_bm_bit)
qed (auto simp: find_next_bit_def)

lemma bitmap_find_next_zero_area_ok:
  assumes "BITS_TO_LONGS sz \<le> length bm" and "0 < nr" and "sz + 2 ^ a + nr \<le> 2 ^ 32" and "start \<le> sz"
  shows "\<exists>r. bitmap_find_next_zero_area bm sz start nr (mask a) = Some r \<and>
    (r \<le> sz \<longrightarrow> free_area bm sz nr a r \<and> start \<le> r) \<and> (\<forall>k. start \<le> k \<and> free_area bm sz nr a k \<longrightarrow> r \<le> k)"
  using assms(4)
proof (induction "sz - start" arbitrary: start rule: less_induct)
  case less
  obtain z where z: "find_next_zero_bit bm sz start = Some z" "z \<le> sz" "start \<le> z"
      "\<forall>i. start \<le> i \<and> i < z \<longrightarrow> i \<in> bset sz bm"
    using find_next_zero_bit_least [OF assms(1), of start] less.prems by auto
  define index where "index = align_mask_up z (mask a)"
  have index: "2 ^ a dvd index" "z \<le> index" "index < z + 2 ^ a" "2 ^ a dvd k \<Longrightarrow> z \<le> k \<Longrightarrow> index \<le> k" for k
    using align_mask_up_eq [of z a] z(2) assms(3) by (auto simp: index_def)
  have wrap: "(index + nr) mod 2 ^ 32 = index + nr"
    using index(3) z(2) assms(3) by (intro mod_less) linarith
  have least: "index \<le> k" if "start \<le> k" "free_area bm sz nr a k" for k
  proof -
    have "k \<in> {k..<k + nr}"
      using assms(2) by simp
    then have "k \<notin> bset sz bm" "2 ^ a dvd k"
      using that(2) unfolding free_area_def by blast+
    then show ?thesis
      using z(4) that(1) index(4) by (meson not_le)
  qed
  show ?case
  proof (cases "sz < index + nr")
    case True
    then have "bitmap_find_next_zero_area bm sz start nr (mask a) = Some (index + nr)"
      using z(1) by (subst bitmap_find_next_zero_area.simps) (simp add: Let_def index_def [symmetric] wrap [simplified])
    moreover have "\<not> free_area bm sz nr a k" if "start \<le> k" for k
      using least [OF that] True by (auto simp: free_area_def)
    ultimately show ?thesis
      using True by auto
  next
    case False
    then obtain i where i: "find_next_bit bm (index + nr) index = Some i" "i \<le> index + nr" "index \<le> i"
        "\<forall>j. index \<le> j \<and> j < i \<longrightarrow> j \<notin> bset sz bm" "i < index + nr \<longrightarrow> i \<in> bset sz bm"
      using find_next_bit_least [OF _ assms(1), of "index + nr" index] by auto
    show ?thesis
    proof (cases "i < index + nr")
      case True
      have wrap': "(i + 1) mod 2 ^ 32 = i + 1"
        using True False assms(2,3) by (intro mod_less) linarith
      have "bitmap_find_next_zero_area bm sz start nr (mask a) = bitmap_find_next_zero_area bm sz (i + 1) nr (mask a)"
        using z(1) i(1) True False
        by (subst bitmap_find_next_zero_area.simps) (simp add: Let_def index_def [symmetric] wrap [simplified] wrap' [simplified])
      moreover have "i < k" if "start \<le> k" "free_area bm sz nr a k" for k
      proof (rule ccontr)
        assume "\<not> i < k"
        then have "i \<in> {k..<k + nr}"
          using least [OF that] True by auto
        then show False
          using that(2) i(5) True by (auto simp: free_area_def)
      qed
      moreover have "sz - (i + 1) < sz - start" "i + 1 \<le> sz" "start \<le> i + 1"
        using True False i(3) index(2) z(3) by linarith+
      ultimately show ?thesis
        using less.hyps [of "i + 1"] by (metis Suc_eq_plus1 Suc_leI le_trans)
    next
      case nofit: False
      then have "bitmap_find_next_zero_area bm sz start nr (mask a) = Some index"
        using z(1) i(1) False
        by (subst bitmap_find_next_zero_area.simps) (simp add: Let_def index_def [symmetric] wrap [simplified])
      moreover have "free_area bm sz nr a index"
        using i(2,4) nofit False index(1) by (auto simp: free_area_def)
      ultimately show ?thesis
        using least index(2) z(3) by auto
    qed
  qed
qed

subsection \<open>Properties\<close>

text \<open>C24: The bit searches are exact. On a bitmap that has the words of \<open>sz\<close> bits,
  \<open>find_next_bit\<close> and \<open>find_next_zero_bit\<close> stay inside the array and return the
  least bit number from \<open>offset\<close> on that is in the set (that is not in it), or
  \<open>sz\<close> when there is none; \<open>find_first_bit\<close> and \<open>find_first_zero_bit\<close>
  return the least from 0 on.\<close>

theorem find_bit_exact:
  assumes "BITS_TO_LONGS sz \<le> length bm" and "offset \<le> sz"
  shows "(\<exists>r. find_next_bit bm sz offset = Some r \<and> is_next (\<lambda>i. i \<in> bset sz bm) offset sz r) \<and>
    (\<exists>r. find_next_zero_bit bm sz offset = Some r \<and> is_next (\<lambda>i. i \<notin> bset sz bm) offset sz r) \<and>
    (\<exists>r. find_first_bit bm sz = Some r \<and> is_next (\<lambda>i. i \<in> bset sz bm) 0 sz r) \<and>
    (\<exists>r. find_first_zero_bit bm sz = Some r \<and> is_next (\<lambda>i. i \<notin> bset sz bm) 0 sz r)"
proof (intro conjI)
  have len: "sz \<le> 32 * length bm"
    using longs_bits [OF assms(1)] .
  have next_rest: "find_next_bit bm sz 0 = find_rest bm 0 sz 0" "find_next_zero_bit bm sz 0 = find_rest_zero bm 0 sz 0"
    by (auto simp: find_next_bit_def find_next_zero_bit_def find_rest_def find_rest_zero_def scan_words.simps)
  show "\<exists>r. find_next_bit bm sz offset = Some r \<and> is_next (\<lambda>i. i \<in> bset sz bm) offset sz r"
    and "\<exists>r. find_first_bit bm sz = Some r \<and> is_next (\<lambda>i. i \<in> bset sz bm) 0 sz r"
    using find_next_bit_least [OF order_refl assms(1), of offset] find_next_bit_least [OF order_refl assms(1), of 0] assms(2)
    by (auto simp: is_next_def find_first_bit_def next_rest)
  show "\<exists>r. find_next_zero_bit bm sz offset = Some r \<and> is_next (\<lambda>i. i \<notin> bset sz bm) offset sz r"
    and "\<exists>r. find_first_zero_bit bm sz = Some r \<and> is_next (\<lambda>i. i \<notin> bset sz bm) 0 sz r"
    using find_next_zero_bit_least [OF assms(1), of offset] find_next_zero_bit_least [OF assms(1), of 0] assms(2)
    by (auto simp: is_next_def find_first_zero_bit_def next_rest)
qed

theorem find_bit_exact_witness:
  "is_next (\<lambda>i. i \<in> bset 40 [1, 4]) 1 40 34 \<and> find_next_bit [1, 4] 40 1 = Some 34"
proof -
  have "find_next_bit [1, 4] 40 1 = Some 34"
    by code_simp
  then show ?thesis
    using find_bit_exact [of 40 "[1, 4]" 1] by (simp add: BITS_TO_LONGS_def)
qed

text \<open>C29: \<open>bitmap_find_next_zero_area\<close> returns, whatever the bitmap, when at least one bit is asked
  for, the alignment mask is that of a power of two, \<open>start\<close> is not above the size, and size, alignment
  and length together stay within \<open>2 ^ 32\<close>, so that no sum wraps around. It returns the first position
  from \<open>start\<close> on that is aligned and begins \<open>nr\<close> zero bits inside the bitmap, or, exactly
  when there is none, a number greater than the size.\<close>

theorem bitmap_find_next_zero_area_exact:
  assumes "BITS_TO_LONGS sz \<le> length bm" and "0 < nr" and "sz + 2 ^ a + nr \<le> 2 ^ 32" and "start \<le> sz"
  shows "\<exists>r. bitmap_find_next_zero_area bm sz start nr (mask a) = Some r \<and>
    (if \<exists>k\<ge>start. free_area bm sz nr a k
     then start \<le> r \<and> free_area bm sz nr a r \<and> (\<forall>k. start \<le> k \<and> free_area bm sz nr a k \<longrightarrow> r \<le> k)
     else sz < r)"
proof -
  obtain r where r: "bitmap_find_next_zero_area bm sz start nr (mask a) = Some r"
      "r \<le> sz \<longrightarrow> free_area bm sz nr a r \<and> start \<le> r" "\<forall>k. start \<le> k \<and> free_area bm sz nr a k \<longrightarrow> r \<le> k"
    using bitmap_find_next_zero_area_ok [OF assms] by blast
  have sz: "k \<le> sz" if "free_area bm sz nr a k" for k
    using that by (simp add: free_area_def)
  show ?thesis
  proof (cases "\<exists>k\<ge>start. free_area bm sz nr a k")
    case True
    then have "r \<le> sz"
      using r(3) sz le_trans by blast
    then show ?thesis
      using True r by simp
  next
    case False
    then have "sz < r"
      using r(2) by (meson not_le)
    then show ?thesis
      using False r(1) by auto
  qed
qed

theorem bitmap_find_next_zero_area_exact_witness:
  "bitmap_find_next_zero_area [1] 32 0 4 (mask 2) = Some 4 \<and> free_area [1] 32 4 2 4"
proof -
  have "find_next_zero_bit [1] 32 0 = Some 1" "align_mask_up 1 (mask 2) = 4" "find_next_bit [1] 8 4 = Some 8"
    by code_simp+
  then have r: "bitmap_find_next_zero_area [1] 32 0 4 (mask 2) = Some 4"
    by (subst bitmap_find_next_zero_area.simps) simp
  have "bset 32 [1] = {0}"
    by (auto simp: bset_def bit_1_iff)
  then have "free_area [1] 32 4 2 4"
    by (simp add: free_area_def)
  then show ?thesis
    using bitmap_find_next_zero_area_exact [of 32 "[1]" 4 2 0] r by (simp add: BITS_TO_LONGS_def)
qed

end
