(* ===== verification/Bitmap_Shift.thy ===== *)
theory Bitmap_Shift
  imports Bitmap_Find
begin

text \<open>
  Shifts of bitmaps, \<open>__bitmap_shift_right\<close> and \<open>__bitmap_shift_left\<close> of
  \<open>lib/bitmap.c\<close>. The flag \<open>same\<close> says that \<open>dst\<close> and \<open>src\<close> are
  the same array: then the words read are those of the destination as it is at that moment. In the
  expression \<open>upper << (BITS_PER_LONG - rem)\<close> (and in its counterpart) a shift by the word
  size is only applied to 0.
\<close>

subsection \<open>Operations\<close>

definition shr_word :: "bitmap \<Rightarrow> nat \<Rightarrow> nat \<Rightarrow> nat \<Rightarrow> nat \<Rightarrow> nat \<Rightarrow> u32 option" where
  "shr_word src off rem left lim k =
     do { let m = push_bit left 1 - 1;
          upper \<leftarrow> (if rem = 0 \<or> lim \<le> off + k + 1 then Some 0
                    else do { upper \<leftarrow> arr_get src (off + k + 1);
                              Some (if off + k + 1 = lim - 1 \<and> left \<noteq> 0 then upper AND m else upper) });
          lower \<leftarrow> arr_get src (off + k);
          let lower = (if left \<noteq> 0 \<and> off + k = lim - 1 then lower AND m else lower);
          let d = push_bit (32 - rem) upper OR drop_bit rem lower;
          Some (if left \<noteq> 0 \<and> k = lim - 1 then d AND m else d) }"

function shr_loop :: "bool \<Rightarrow> bitmap \<Rightarrow> bitmap \<Rightarrow> nat \<Rightarrow> nat \<Rightarrow> nat \<Rightarrow> nat \<Rightarrow> nat \<Rightarrow> bitmap option" where
  "shr_loop same dst src off rem left lim k =
     (if off + k < lim
      then do { d \<leftarrow> shr_word (if same then dst else src) off rem left lim k;
                dst \<leftarrow> arr_set dst k d;
                shr_loop same dst src off rem left lim (k + 1) }
      else Some dst)"
  by pat_completeness auto
termination
  by (relation "measure (\<lambda>(_, _, _, _, _, _, lim, k). lim - k)") auto

declare shr_loop.simps [simp del]

definition bitmap_shift_right :: "bool \<Rightarrow> bitmap \<Rightarrow> bitmap \<Rightarrow> nat \<Rightarrow> nat \<Rightarrow> bitmap option" where
  "bitmap_shift_right same dst src shift bits =
     (let lim = BITS_TO_LONGS bits; left = bits mod 32; off = shift div 32; rem = shift mod 32 in
      do { dst \<leftarrow> shr_loop same dst src off rem left lim 0;
           if off = 0 then Some dst
           else if lim < off then None
           else mem_write dst (lim - off) (replicate off 0) })"

definition shl_word :: "bitmap \<Rightarrow> nat \<Rightarrow> nat \<Rightarrow> nat \<Rightarrow> nat \<Rightarrow> nat \<Rightarrow> u32 option" where
  "shl_word src off rem left lim k =
     do { let m = push_bit left 1 - 1;
          lower \<leftarrow> (if rem \<noteq> 0 \<and> 0 < k then arr_get src (k - 1) else Some 0);
          upper \<leftarrow> arr_get src k;
          let upper = (if left \<noteq> 0 \<and> k = lim - 1 then upper AND m else upper);
          let d = drop_bit (32 - rem) lower OR push_bit rem upper;
          Some (if left \<noteq> 0 \<and> k + off = lim - 1 then d AND m else d) }"

text \<open>The loop from word \<open>k - 1\<close> down to 0.\<close>

primrec shl_loop :: "nat \<Rightarrow> bool \<Rightarrow> bitmap \<Rightarrow> bitmap \<Rightarrow> nat \<Rightarrow> nat \<Rightarrow> nat \<Rightarrow> nat \<Rightarrow> bitmap option" where
  "shl_loop 0 same dst src off rem left lim = Some dst"
| "shl_loop (Suc k) same dst src off rem left lim =
     do { d \<leftarrow> shl_word (if same then dst else src) off rem left lim k;
          dst \<leftarrow> arr_set dst (k + off) d;
          shl_loop k same dst src off rem left lim }"

definition bitmap_shift_left :: "bool \<Rightarrow> bitmap \<Rightarrow> bitmap \<Rightarrow> nat \<Rightarrow> nat \<Rightarrow> bitmap option" where
  "bitmap_shift_left same dst src shift bits =
     (let lim = BITS_TO_LONGS bits; left = bits mod 32; off = shift div 32; rem = shift mod 32 in
      do { dst \<leftarrow> shl_loop (lim - off) same dst src off rem left lim;
           if off = 0 then Some dst else mem_write dst 0 (replicate off 0) })"

subsection \<open>One word\<close>

lemma last_mask_eq: "bits mod 32 \<noteq> 0 \<Longrightarrow> push_bit (bits mod 32) 1 - 1 = BITMAP_LAST_WORD_MASK bits"
  by (simp add: BITMAP_LAST_WORD_MASK_def)

lemma valid_bit:
  assumes "q < BITS_TO_LONGS bits" and "j < 32"
  shows "32 * q + j < bits \<longleftrightarrow> (bits mod 32 \<noteq> 0 \<and> q = BITS_TO_LONGS bits - 1 \<longrightarrow> j < bits mod 32)"
proof -
  have "q < d + (if r = 0 then 0 else 1) \<Longrightarrow>
      32 * q + j < 32 * d + r \<longleftrightarrow> (r \<noteq> 0 \<and> q = d + (if r = 0 then 0 else 1) - 1 \<longrightarrow> j < r)" if "r < 32" for d r :: nat
    using assms(2) that by (cases "r = 0"; cases "q < d") auto
  from this [of "bits mod 32" "bits div 32"] show ?thesis
    using assms(1) unfolding BITS_TO_LONGS_eq by simp
qed

text \<open>A word of the source, with the bits beyond the end cut off.\<close>

lemma bit_cut:
  assumes "q < BITS_TO_LONGS bits" and "j < 32"
  shows "bit (if bits mod 32 \<noteq> 0 \<and> q = BITS_TO_LONGS bits - 1 then w AND (push_bit (bits mod 32) 1 - 1) else (w :: u32)) j \<longleftrightarrow>
    32 * q + j < bits \<and> bit w j"
proof (cases "bits mod 32 \<noteq> 0 \<and> q = BITS_TO_LONGS bits - 1")
  case True
  then show ?thesis
    unfolding if_P [OF True] last_mask_eq [OF conjunct1 [OF True]] bit_and_iff
    using valid_bit [OF assms] bit_last_mask [of bits j] by blast
next
  case False
  then show ?thesis
    unfolding if_not_P [OF False] using valid_bit [OF assms] by blast
qed

lemma bit_funnel:
  assumes "rem < 32" and "j < 32" and "rem = 0 \<Longrightarrow> upper = 0"
  shows "bit (push_bit (32 - rem) upper OR drop_bit rem (lower :: u32)) j \<longleftrightarrow>
    (if j + rem < 32 then bit lower (j + rem) else bit upper (j + rem - 32))"
proof -
  have "rem + j = j + rem" "j - (32 - rem) = j + rem - 32"
    using assms(1) by simp_all
  then show ?thesis
    using assms by (cases "rem = 0") (auto simp: bit_simps add.commute dest: bit_imp_le_length)
qed

lemma bm_bit_split:
  assumes "rem < 32" and "j < 32"
  shows "bm_bit bm (32 * q + (j + rem)) \<longleftrightarrow> (if j + rem < 32 then bit (bm ! q) (j + rem) else bit (bm ! Suc q) (j + rem - 32))"
proof (cases "j + rem < 32")
  case False
  then have "32 * q + (j + rem) = 32 * Suc q + (j + rem - 32)" "j + rem - 32 < 32"
    using assms by simp_all
  then show ?thesis
    using False bm_bit_word [of "j + rem - 32" bm "Suc q"] by simp
qed (simp add: bm_bit_word)

lemma shr_word_ok:
  assumes "lim = BITS_TO_LONGS bits" and "off + k < lim" and "lim \<le> length src" and "rem < 32"
  shows "\<exists>d. shr_word src off rem (bits mod 32) lim k = Some d \<and>
    (\<forall>j<32. bit d j \<longleftrightarrow> 32 * (off + k) + (j + rem) < bits \<and> bm_bit src (32 * (off + k) + (j + rem)))"
proof -
  let ?left = "bits mod 32" and ?m = "push_bit (bits mod 32) 1 - 1 :: u32"
  define cut where "cut q = (if ?left \<noteq> 0 \<and> q = lim - 1 then src ! q AND ?m else src ! q)" for q
  define upper where "upper = (if rem = 0 \<or> lim \<le> off + k + 1 then 0 else cut (off + k + 1))"
  define d where "d = push_bit (32 - rem) upper OR drop_bit rem (cut (off + k))"
  have cut: "bit (cut q) j \<longleftrightarrow> 32 * q + j < bits \<and> bit (src ! q) j" if "q < lim" "j < 32" for q j
    unfolding cut_def using bit_cut [of q bits j "src ! q"] that assms(1) by simp
  have upper: "bit upper j \<longleftrightarrow> 32 * Suc (off + k) + j < bits \<and> bit (src ! Suc (off + k)) j" if "rem \<noteq> 0" "j < 32" for j
  proof (cases "lim \<le> off + k + 1")
    case True
    have "\<not> 32 * Suc (off + k) + j < bits"
    proof
      assume "32 * Suc (off + k) + j < bits"
      then show False
        using word_index [of "32 * Suc (off + k) + j" bits] that(2) True assms(1) by simp
    qed
    then show ?thesis
      using True by (simp add: upper_def)
  next
    case False
    then show ?thesis
      using that cut [of "Suc (off + k)" j] by (simp add: upper_def)
  qed
  have bits: "bit d j \<longleftrightarrow> 32 * (off + k) + (j + rem) < bits \<and> bm_bit src (32 * (off + k) + (j + rem))" if "j < 32" for j
  proof -
    have "bit d j \<longleftrightarrow> (if j + rem < 32 then bit (cut (off + k)) (j + rem) else bit upper (j + rem - 32))"
      unfolding d_def by (rule bit_funnel) (use assms(4) that in \<open>auto simp: upper_def\<close>)
    moreover have "bit upper (j + rem - 32) \<longleftrightarrow> 32 * (off + k) + (j + rem) < bits \<and> bit (src ! Suc (off + k)) (j + rem - 32)"
      if "\<not> j + rem < 32"
      using upper [of "j + rem - 32"] that \<open>j < 32\<close> assms(4) by auto
    ultimately show ?thesis
      using cut [OF assms(2), of "j + rem"] unfolding bm_bit_split [OF assms(4) that] by auto
  qed
  have "k = lim - 1 \<Longrightarrow> off = 0"
    using assms(2) by simp
  then have fin: "bit (if ?left \<noteq> 0 \<and> k = lim - 1 then d AND ?m else d) j \<longleftrightarrow> bit d j" if "j < 32" for j
    using bit_cut [of k bits j d] bits [OF that] that assms(1,2) by auto
  have "shr_word src off rem ?left lim k = Some (if ?left \<noteq> 0 \<and> k = lim - 1 then d AND ?m else d)"
    using assms(2,3) unfolding shr_word_def Let_def d_def upper_def cut_def by (auto simp del: push_bit_of_1)
  then show ?thesis
    using fin bits by blast
qed

lemma shr_loop_ok:
  assumes "lim = BITS_TO_LONGS bits" and "rem < 32" and "lim \<le> length dst" and "\<not> same \<Longrightarrow> lim \<le> length src"
    and "\<And>q. off + k \<le> q \<Longrightarrow> q < lim \<Longrightarrow> (if same then dst else src) ! q = orig ! q"
  shows "\<exists>dst'. shr_loop same dst src off rem (bits mod 32) lim k = Some dst' \<and> length dst' = length dst \<and>
    (\<forall>q<k. dst' ! q = dst ! q) \<and>
    (\<forall>q j. k \<le> q \<longrightarrow> off + q < lim \<longrightarrow> j < 32 \<longrightarrow>
      (bit (dst' ! q) j \<longleftrightarrow> 32 * (off + q) + (j + rem) < bits \<and> bm_bit orig (32 * (off + q) + (j + rem))))"
  using assms(3-5)
proof (induction "lim - (off + k)" arbitrary: k dst)
  case 0
  then show ?case
    by (subst shr_loop.simps) auto
next
  case (Suc n)
  then have k: "off + k < lim" "n = lim - (off + Suc k)"
    by simp_all
  let ?src = "if same then dst else src"
  have src: "lim \<le> length ?src"
    using Suc.prems(1,2) by simp
  obtain d where d: "shr_word ?src off rem (bits mod 32) lim k = Some d"
      "\<forall>j<32. bit d j \<longleftrightarrow> 32 * (off + k) + (j + rem) < bits \<and> bm_bit ?src (32 * (off + k) + (j + rem))"
    using shr_word_ok [OF assms(1) k(1) src assms(2)] by blast
  have d_orig: "bit d j \<longleftrightarrow> 32 * (off + k) + (j + rem) < bits \<and> bm_bit orig (32 * (off + k) + (j + rem))" if "j < 32" for j
  proof -
    let ?i = "32 * (off + k) + (j + rem)"
    have "off + k \<le> ?i div 32"
      using div_le_mono [of "32 * (off + k)" ?i 32] by simp
    then have "?i < bits \<Longrightarrow> ?src ! (?i div 32) = orig ! (?i div 32)"
      using Suc.prems(3) word_index [of ?i bits] assms(1) by simp
    then show ?thesis
      using d(2) that unfolding bm_bit_def by metis
  qed
  have "shr_loop same dst src off rem (bits mod 32) lim k = shr_loop same (dst[k := d]) src off rem (bits mod 32) lim (Suc k)"
    using k(1) d(1) Suc.prems(1) by (subst shr_loop.simps) simp
  moreover have read: "(if same then dst[k := d] else src) ! q = orig ! q" if "off + Suc k \<le> q" "q < lim" for q
    using Suc.prems(3) [of q] that by (cases same) auto
  moreover obtain dst' where dst': "shr_loop same (dst[k := d]) src off rem (bits mod 32) lim (Suc k) = Some dst'"
      "length dst' = length dst" "\<forall>q<Suc k. dst' ! q = dst[k := d] ! q"
      "\<forall>q j. Suc k \<le> q \<longrightarrow> off + q < lim \<longrightarrow> j < 32 \<longrightarrow>
        (bit (dst' ! q) j \<longleftrightarrow> 32 * (off + q) + (j + rem) < bits \<and> bm_bit orig (32 * (off + q) + (j + rem)))"
    using Suc.hyps(1) [OF k(2), of "dst[k := d]"] Suc.prems(1,2) read by auto
  moreover have "\<forall>q<k. dst' ! q = dst ! q" "dst' ! k = d"
    using dst'(3) k(1) Suc.prems(1) by auto
  moreover have "bit (dst' ! q) j \<longleftrightarrow> 32 * (off + q) + (j + rem) < bits \<and> bm_bit orig (32 * (off + q) + (j + rem))"
    if "k \<le> q" "off + q < lim" "j < 32" for q j
    using dst'(4) \<open>dst' ! k = d\<close> d_orig that by (cases "q = k") auto
  ultimately show ?case
    by simp
qed

lemma list_put_nth:
  "off + length xs \<le> length bs \<Longrightarrow> i < length bs \<Longrightarrow>
   list_put bs off xs ! i = (if off \<le> i \<and> i < off + length xs then xs ! (i - off) else bs ! i)"
  by (auto simp: list_put_def nth_append min_def)

lemma bitmap_shift_right_ok:
  assumes "lim = BITS_TO_LONGS bits" and "lim \<le> length dst" "lim \<le> length src" and "same \<Longrightarrow> dst = src" and "shift div 32 \<le> lim"
  shows "\<exists>dst'. bitmap_shift_right same dst src shift bits = Some dst' \<and> length dst' = length dst \<and>
    bset bits dst' = {i. i + shift \<in> bset bits src}"
proof -
  let ?off = "shift div 32" and ?rem = "shift mod 32"
  have shift: "32 * (?off + q) + (j + ?rem) = 32 * q + j + shift" for q j
    by (simp add: algebra_simps)
  have "(if same then dst else src) = src"
    using assms(4) by simp
  then obtain dst1 where l: "shr_loop same dst src ?off ?rem (bits mod 32) lim 0 = Some dst1" "length dst1 = length dst"
      "\<forall>q j. ?off + q < lim \<longrightarrow> j < 32 \<longrightarrow> (bit (dst1 ! q) j \<longleftrightarrow> 32 * q + j + shift < bits \<and> bm_bit src (32 * q + j + shift))"
    using shr_loop_ok [OF assms(1), of ?rem dst same src ?off 0 src] assms(2,3) unfolding shift by auto
  define dst' where "dst' = (if ?off = 0 then dst1 else list_put dst1 (lim - ?off) (replicate ?off 0))"
  have run: "bitmap_shift_right same dst src shift bits = Some dst'"
    using l(1,2) assms(1,2,5) by (auto simp: bitmap_shift_right_def Let_def dst'_def mem_write_def)
  have len: "length dst' = length dst"
    using l(2) assms(2,5) by (simp add: dst'_def list_put_def)
  have "bm_bit dst' i \<longleftrightarrow> i + shift \<in> bset bits src" if "i < bits" for i
  proof -
    let ?q = "i div 32" and ?j = "i mod 32"
    have q: "?q < lim" "32 * ?q + ?j = i" "?j < 32"
      using word_index [OF that] assms(1) by simp_all
    show ?thesis
    proof (cases "?off + ?q < lim")
      case True
      then have "dst' ! ?q = dst1 ! ?q"
        using q(1) l(2) assms(2,5) by (auto simp: dst'_def list_put_nth)
      then show ?thesis
        using l(3) True q by (auto simp: bm_bit_def bset_def)
    next
      case False
      moreover have "?q - (lim - ?off) < ?off"
        using False q(1) assms(5) by linarith
      ultimately have "dst' ! ?q = 0"
        using q(1) l(2) assms(2,5) by (auto simp: dst'_def list_put_nth)
      moreover have "(i + 32 * ?off) div 32 \<le> (i + shift) div 32"
        by (intro div_le_mono) simp
      then have "lim \<le> (i + shift) div 32"
        using False by simp
      then have "\<not> i + shift < bits"
        using word_index [of "i + shift" bits] assms(1) by linarith
      ultimately show ?thesis
        by (simp add: bm_bit_def bset_def)
    qed
  qed
  then have "bset bits dst' = {i. i + shift \<in> bset bits src}"
    unfolding bset_bm_bit by auto
  then show ?thesis
    using run len by simp
qed

lemma bit_funnel_left:
  assumes "rem < 32" and "j < 32" and "rem = 0 \<Longrightarrow> lower = 0"
  shows "bit (drop_bit (32 - rem) lower OR push_bit rem (upper :: u32)) j \<longleftrightarrow>
    (if rem \<le> j then bit upper (j - rem) else bit lower (32 - rem + j))"
  using assms by (cases "rem = 0") (auto simp: bit_simps dest: bit_imp_le_length)

lemma bm_bit_split_left:
  assumes "rem < 32" and "j < 32" and "rem \<le> 32 * k + j"
  shows "bm_bit bm (32 * k + j - rem) \<longleftrightarrow> (if rem \<le> j then bit (bm ! k) (j - rem) else bit (bm ! (k - 1)) (32 - rem + j))"
proof (cases "rem \<le> j")
  case True
  then show ?thesis
    using assms bm_bit_word [of "j - rem" bm k] by simp
next
  case False
  then have "0 < k"
    using assms(3) by (cases k) simp_all
  then have "32 * k + j - rem = 32 * (k - 1) + (32 - rem + j)" "32 - rem + j < 32"
    using False assms(1) by (cases k; simp)+
  then show ?thesis
    using False bm_bit_word [of "32 - rem + j" bm "k - 1"] by simp
qed

lemma shl_word_ok:
  assumes "lim = BITS_TO_LONGS bits" and "k + off < lim" and "lim \<le> length src" and "rem < 32"
  shows "\<exists>d. shl_word src off rem (bits mod 32) lim k = Some d \<and>
    (\<forall>j<32. bit d j \<longleftrightarrow> 32 * (k + off) + j < bits \<and> rem \<le> 32 * k + j \<and> bm_bit src (32 * k + j - rem))"
proof -
  let ?left = "bits mod 32" and ?m = "push_bit (bits mod 32) 1 - 1 :: u32"
  define upper where "upper = (if ?left \<noteq> 0 \<and> k = lim - 1 then src ! k AND ?m else src ! k)"
  define lower where "lower = (if rem \<noteq> 0 \<and> 0 < k then src ! (k - 1) else 0)"
  define d where "d = drop_bit (32 - rem) lower OR push_bit rem upper"
  define d' where "d' = (if ?left \<noteq> 0 \<and> k + off = lim - 1 then d AND ?m else d)"
  have "k < lim"
    using assms(2) by simp
  have upper: "bit upper j \<longleftrightarrow> 32 * k + j < bits \<and> bit (src ! k) j" if "j < 32" for j
    unfolding upper_def using bit_cut [of k bits j "src ! k"] \<open>k < lim\<close> that assms(1) by simp
  have bits: "bit d' j \<longleftrightarrow> 32 * (k + off) + j < bits \<and> rem \<le> 32 * k + j \<and> bm_bit src (32 * k + j - rem)" if "j < 32" for j
  proof -
    have "bit d' j \<longleftrightarrow> 32 * (k + off) + j < bits \<and> bit d j"
      unfolding d'_def using bit_cut [of "k + off" bits j d] assms(1,2) that by simp
    moreover have "bit d j \<longleftrightarrow> (if rem \<le> j then bit upper (j - rem) else bit lower (32 - rem + j))"
      unfolding d_def by (rule bit_funnel_left) (use assms(4) that in \<open>auto simp: lower_def\<close>)
    moreover have "\<not> rem \<le> 32 * k + j" if "\<not> rem \<le> j" "k = 0"
      using that by simp
    moreover have "rem \<le> 32 * k + j" if "0 < k"
      using that assms(4) by linarith
    ultimately show ?thesis
      using upper [of "j - rem"] that bm_bit_split_left [OF assms(4) that, of k src]
      by (cases "k = 0"; cases "rem \<le> j") (auto simp: lower_def)
  qed
  have "shl_word src off rem ?left lim k = Some d'"
    using \<open>k < lim\<close> assms(3) unfolding shl_word_def Let_def d'_def d_def upper_def lower_def by (auto simp del: push_bit_of_1)
  then show ?thesis
    using bits by blast
qed

lemma shl_loop_ok:
  assumes "lim = BITS_TO_LONGS bits" and "rem < 32" and "lim \<le> length dst" and "\<not> same \<Longrightarrow> lim \<le> length src"
    and "k + off \<le> lim" and "\<And>q. q < k \<Longrightarrow> (if same then dst else src) ! q = orig ! q"
  shows "\<exists>dst'. shl_loop k same dst src off rem (bits mod 32) lim = Some dst' \<and> length dst' = length dst \<and>
    (\<forall>q\<ge>k + off. q < length dst \<longrightarrow> dst' ! q = dst ! q) \<and>
    (\<forall>q j. q < k \<longrightarrow> j < 32 \<longrightarrow>
      (bit (dst' ! (q + off)) j \<longleftrightarrow> 32 * (q + off) + j < bits \<and> rem \<le> 32 * q + j \<and> bm_bit orig (32 * q + j - rem)))"
  using assms(3-6)
proof (induction k arbitrary: dst)
  case (Suc k)
  let ?src = "if same then dst else src"
  have "lim \<le> length ?src" and k: "k + off < lim"
    using Suc.prems(1-3) by simp_all
  then obtain d where d: "shl_word ?src off rem (bits mod 32) lim k = Some d"
      "\<forall>j<32. bit d j \<longleftrightarrow> 32 * (k + off) + j < bits \<and> rem \<le> 32 * k + j \<and> bm_bit ?src (32 * k + j - rem)"
    using shl_word_ok [OF assms(1) _ _ assms(2), of k off ?src] by blast
  have d_orig: "bit d j \<longleftrightarrow> 32 * (k + off) + j < bits \<and> rem \<le> 32 * k + j \<and> bm_bit orig (32 * k + j - rem)" if "j < 32" for j
  proof -
    have "(32 * k + j - rem) div 32 \<le> (32 * k + j) div 32"
      by (intro div_le_mono) simp
    then have "?src ! ((32 * k + j - rem) div 32) = orig ! ((32 * k + j - rem) div 32)"
      using Suc.prems(4) that by simp
    then show ?thesis
      using d(2) that unfolding bm_bit_def by metis
  qed
  have read: "(if same then dst[k + off := d] else src) ! q = orig ! q" if "q < k" for q
    using Suc.prems(4) [of q] that by (cases same) auto
  obtain dst' where dst': "shl_loop k same (dst[k + off := d]) src off rem (bits mod 32) lim = Some dst'"
      "length dst' = length dst" "\<forall>q\<ge>k + off. q < length dst \<longrightarrow> dst' ! q = dst[k + off := d] ! q"
      "\<forall>q j. q < k \<longrightarrow> j < 32 \<longrightarrow>
        (bit (dst' ! (q + off)) j \<longleftrightarrow> 32 * (q + off) + j < bits \<and> rem \<le> 32 * q + j \<and> bm_bit orig (32 * q + j - rem))"
    using Suc.IH [of "dst[k + off := d]"] Suc.prems(1-3) read by auto
  have "dst' ! (k + off) = d"
    using dst'(3) k Suc.prems(1) by simp
  then have "bit (dst' ! (q + off)) j \<longleftrightarrow> 32 * (q + off) + j < bits \<and> rem \<le> 32 * q + j \<and> bm_bit orig (32 * q + j - rem)"
    if "q < Suc k" "j < 32" for q j
    using dst'(4) d_orig that by (cases "q = k") auto
  then show ?case
    using dst'(1-3) d(1) k Suc.prems(1) by simp
qed simp

lemma bitmap_shift_left_ok:
  assumes "lim = BITS_TO_LONGS bits" and "lim \<le> length dst" "lim \<le> length src" and "same \<Longrightarrow> dst = src" and "shift div 32 \<le> lim"
  shows "\<exists>dst'. bitmap_shift_left same dst src shift bits = Some dst' \<and> length dst' = length dst \<and>
    bset bits dst' = {i. i < bits \<and> shift \<le> i \<and> i - shift \<in> bset bits src}"
proof -
  let ?off = "shift div 32" and ?rem = "shift mod 32"
  have same: "(if same then dst else src) = src"
    using assms(4) by simp
  obtain dst1 where l: "shl_loop (lim - ?off) same dst src ?off ?rem (bits mod 32) lim = Some dst1" "length dst1 = length dst"
      "\<forall>q j. q < lim - ?off \<longrightarrow> j < 32 \<longrightarrow>
        (bit (dst1 ! (q + ?off)) j \<longleftrightarrow> 32 * (q + ?off) + j < bits \<and> ?rem \<le> 32 * q + j \<and> bm_bit src (32 * q + j - ?rem))"
    using shl_loop_ok [OF assms(1), of ?rem dst same src "lim - ?off" ?off src] assms(2,3,5) same by auto
  define dst' where "dst' = (if ?off = 0 then dst1 else list_put dst1 0 (replicate ?off 0))"
  have run: "bitmap_shift_left same dst src shift bits = Some dst'"
    using l(1,2) assms(1,2,5) by (auto simp: bitmap_shift_left_def Let_def dst'_def mem_write_def)
  have len: "length dst' = length dst"
    using l(2) assms(2,5) by (simp add: dst'_def list_put_def)
  have "bm_bit dst' i \<longleftrightarrow> shift \<le> i \<and> i - shift \<in> bset bits src" if "i < bits" for i
  proof -
    let ?q = "i div 32" and ?j = "i mod 32"
    have q: "?q < lim" "32 * ?q + ?j = i" "?j < 32" and s: "32 * ?off + ?rem = shift" "?rem < 32"
      using word_index [OF that] assms(1) by simp_all
    show ?thesis
    proof (cases "?off \<le> ?q")
      case True
      then obtain p where p: "?q = p + ?off"
        by (metis le_add_diff_inverse2)
      have "dst' ! ?q = dst1 ! ?q"
        using q(1) l(2) assms(2,5) True by (auto simp: dst'_def list_put_nth)
      then have "bm_bit dst' i \<longleftrightarrow> 32 * (p + ?off) + ?j < bits \<and> ?rem \<le> 32 * p + ?j \<and> bm_bit src (32 * p + ?j - ?rem)"
        using l(3) [rule_format, of p ?j] q(1) unfolding p bm_bit_def by auto
      moreover have "32 * (p + o') + j = i \<and> (r \<le> 32 * p + j \<longleftrightarrow> shift \<le> i) \<and> 32 * p + j - r = i - shift"
        if "32 * q + j = i" "32 * o' + r = shift" "q = p + o'" for q j o' r
        using that by auto
      from this [OF q(2) s(1) p] have "32 * (p + ?off) + ?j = i" "?rem \<le> 32 * p + ?j \<longleftrightarrow> shift \<le> i"
        "32 * p + ?j - ?rem = i - shift"
        by simp_all
      ultimately show ?thesis
        using that by (auto simp: bset_bm_bit)
    next
      case False
      then have "dst' ! ?q = 0"
        using q(1) l(2) assms(2,5) by (auto simp: dst'_def list_put_nth)
      moreover have "\<not> shift \<le> i"
        using False div_le_mono [of shift i 32] by blast
      ultimately show ?thesis
        by (simp add: bm_bit_def)
    qed
  qed
  then have "bset bits dst' = {i. i < bits \<and> shift \<le> i \<and> i - shift \<in> bset bits src}"
    unfolding bset_bm_bit by auto
  then show ?thesis
    using run len by simp
qed

subsection \<open>Properties\<close>

text \<open>C36: The shifts are exact, in place too, when the shift in words is at most the number of words of
  the bitmap. \<open>__bitmap_shift_right\<close> then leaves in the destination the set of all \<open>i\<close> such that
  bit \<open>i + shift\<close> was set, and \<open>__bitmap_shift_left\<close> the set of all \<open>i\<close> below the
  size such that bit \<open>i - shift\<close> was set, whatever the unused bits of the last word are, and
  also when the destination is the source.\<close>

theorem bitmap_shift_exact:
  assumes "BITS_TO_LONGS bits \<le> length dst" "BITS_TO_LONGS bits \<le> length src" and "same \<longrightarrow> dst = src"
    and "shift div 32 \<le> BITS_TO_LONGS bits"
  shows "(\<exists>d. bitmap_shift_right same dst src shift bits = Some d \<and> length d = length dst \<and>
      bset bits d = {i. i + shift \<in> bset bits src}) \<and>
    (\<exists>d. bitmap_shift_left same dst src shift bits = Some d \<and> length d = length dst \<and>
      bset bits d = {i. i < bits \<and> shift \<le> i \<and> i - shift \<in> bset bits src})"
  using bitmap_shift_right_ok [OF refl assms(1,2), of same shift] bitmap_shift_left_ok [OF refl assms(1,2), of same shift]
    assms(3,4) by blast

theorem bitmap_shift_exact_witness:
  "\<exists>d. bitmap_shift_left True [0xff, 0xffff] [0xff, 0xffff] 36 40 = Some d \<and>
     bset 40 d = {i. i < 40 \<and> 36 \<le> i \<and> i - 36 \<in> bset 40 [0xff, 0xffff]}"
  using bitmap_shift_exact [of 40 "[0xff, 0xffff]" "[0xff, 0xffff]" True 36] by (auto simp: BITS_TO_LONGS_def)

text \<open>A shift by at least a word more than the bitmap has leaves the array: the final
  \<open>memset\<close> of \<open>__bitmap_shift_right\<close> starts before the destination, and that of
  \<open>__bitmap_shift_left\<close> runs past the end of a destination that has just the words of the bitmap.\<close>

theorem bitmap_shift_too_far:
  assumes "BITS_TO_LONGS bits < shift div 32"
  shows "bitmap_shift_right same dst src shift bits = None \<and>
    (length dst = BITS_TO_LONGS bits \<longrightarrow> bitmap_shift_left same dst src shift bits = None)"
  using assms by (auto simp: bitmap_shift_right_def bitmap_shift_left_def Let_def mem_write_def bind_eq_None_conv)

theorem bitmap_shift_too_far_witness: "bitmap_shift_right False [0] [1] 64 32 = None"
  using bitmap_shift_too_far [of 32 64 False "[0]" "[1]"] by (simp add: BITS_TO_LONGS_def)

end
