(* ===== verification/Hweight.thy ===== *)
theory Hweight
  imports Kernel_Prelude
begin

text \<open>
  Population counts, \<open>lib/hweight.c\<close>: the sums of neighbouring fields of 1, 2, 4 and 8
  bits, shown to count the bits of a word.
\<close>

subsection \<open>The counts\<close>

text \<open>With a fast multiplier (\<open>ARCH_HAS_FAST_MULTIPLIER\<close>, defined for x86) and without.\<close>

definition sw_hweight32_mul :: "u32 \<Rightarrow> u32" where
  "sw_hweight32_mul w =
     (let w = w - (drop_bit 1 w AND 0x55555555);
          w = (w AND 0x33333333) + (drop_bit 2 w AND 0x33333333);
          w = (w + drop_bit 4 w) AND 0x0f0f0f0f
      in drop_bit 24 (w * 0x01010101))"

definition sw_hweight32 :: "u32 \<Rightarrow> u32" where
  "sw_hweight32 w =
     (let res = w - (drop_bit 1 w AND 0x55555555);
          res = (res AND 0x33333333) + (drop_bit 2 res AND 0x33333333);
          res = (res + drop_bit 4 res) AND 0x0F0F0F0F;
          res = res + drop_bit 8 res
      in (res + drop_bit 16 res) AND 0x000000FF)"

definition sw_hweight16 :: "u32 \<Rightarrow> u32" where
  "sw_hweight16 w =
     (let res = w - (drop_bit 1 w AND 0x5555);
          res = (res AND 0x3333) + (drop_bit 2 res AND 0x3333);
          res = (res + drop_bit 4 res) AND 0x0F0F
      in (res + drop_bit 8 res) AND 0x00FF)"

definition sw_hweight8 :: "u32 \<Rightarrow> u32" where
  "sw_hweight8 w =
     (let res = w - (drop_bit 1 w AND 0x55);
          res = (res AND 0x33) + (drop_bit 2 res AND 0x33)
      in (res + drop_bit 4 res) AND 0x0F)"

definition sw_hweight64 :: "u64 \<Rightarrow> u32" where
  "sw_hweight64 w = sw_hweight32 (ucast (drop_bit 32 w)) + sw_hweight32 (ucast w)"

subsection \<open>Words as lists of fields\<close>

text \<open>The word with the given fields of \<open>n\<close> bits, the lowest one first.\<close>

primrec fields :: "nat \<Rightarrow> u32 list \<Rightarrow> u32" where
  "fields n [] = 0"
| "fields n (a # as) = a + push_bit n (fields n as)"

text \<open>The mask of every other field.\<close>

primrec other_fields :: "nat \<Rightarrow> nat \<Rightarrow> u32" where
  "other_fields n 0 = 0"
| "other_fields n (Suc k) = mask n OR push_bit (2 * n) (other_fields n k)"

fun evens :: "'a list \<Rightarrow> 'a list" where
  "evens (a # b # xs) = a # evens xs"
| "evens xs = xs"

fun odds :: "'a list \<Rightarrow> 'a list" where
  "odds (a # b # xs) = b # odds xs"
| "odds xs = []"

definition small :: "nat \<Rightarrow> u32 \<Rightarrow> bool" where
  "small n a \<longleftrightarrow> (\<forall>j. bit a j \<longrightarrow> j < n)"

lemma add_push:
  assumes "small n a"
  shows "a + push_bit n x = a OR push_bit n x"
  by (rule disjunctive_add) (use assms in \<open>auto simp: small_def bit_push_bit_iff\<close>)

lemma bit_add_push:
  assumes "small n a"
  shows "bit (a + push_bit n x) j \<longleftrightarrow> (if j < n then bit a j else j < 32 \<and> bit x (j - n))"
  unfolding add_push [OF assms] using assms by (auto simp: small_def bit_or_iff bit_push_bit_iff possible_bit_def)

lemma small_fields: "\<forall>a\<in>set as. small n a \<Longrightarrow> small (n * length as) (fields n as)"
proof (induction as)
  case (Cons a as)
  then have "small n a" "small (n * length as) (fields n as)"
    by simp_all
  then show ?case
    by (fastforce simp: small_def bit_add_push split: if_splits)
qed (simp add: small_def)

lemma fields_drop:
  assumes "\<forall>a\<in>set (a # as). small n a" and "n * length (a # as) \<le> 32"
  shows "drop_bit n (fields n (a # as)) = fields n as"
proof (rule bit_word_eqI)
  fix j
  assume "j < LENGTH(32)"
  have "small n a" "small (n * length as) (fields n as)"
    using assms(1) small_fields [of as n] by simp_all
  then show "bit (drop_bit n (fields n (a # as))) j \<longleftrightarrow> bit (fields n as) j"
    using assms(2) by (auto simp: bit_drop_bit_eq bit_add_push small_def)
qed

lemma fields_even:
  "\<forall>a\<in>set as. small n a \<Longrightarrow> length as = 2 * k \<Longrightarrow> n * length as \<le> 32 \<Longrightarrow>
   fields n as AND other_fields n k = fields (2 * n) (evens as)"
proof (induction as arbitrary: k rule: evens.induct)
  case (1 a b xs)
  then obtain k' where k: "k = Suc k'"
    by (cases k) simp_all
  have s: "small n a" "small n b" "small (2 * n) a"
    using 1(2) by (auto simp: small_def)
  have ih: "fields n xs AND other_fields n k' = fields (2 * n) (evens xs)"
    by (rule 1(1)) (use 1(2-4) k in \<open>auto simp: algebra_simps\<close>)
  show ?case
  proof (rule bit_word_eqI)
    fix j
    assume j: "j < LENGTH(32)"
    have "bit (fields (2 * n) (evens (a # b # xs))) j \<longleftrightarrow> (if j < 2 * n then bit a j else bit (fields n xs AND other_fields n k') (j - 2 * n))"
      using j by (simp add: bit_add_push s ih)
    moreover have "bit (fields n (a # b # xs) AND other_fields n k) j \<longleftrightarrow>
        (if j < n then bit a j else j \<ge> 2 * n \<and> bit (fields n xs AND other_fields n k') (j - 2 * n))"
      using j k by (auto simp: bit_add_push s bit_simps mult_2)
    ultimately show "bit (fields n (a # b # xs) AND other_fields n k) j \<longleftrightarrow> bit (fields (2 * n) (evens (a # b # xs))) j"
      using s(1) by (auto simp: small_def)
  qed
qed simp_all

lemma fields_odd:
  "\<forall>a\<in>set as. small n a \<Longrightarrow> length as = 2 * k \<Longrightarrow> n * length as \<le> 32 \<Longrightarrow>
   drop_bit n (fields n as) AND other_fields n k = fields (2 * n) (odds as)"
proof (induction as arbitrary: k rule: odds.induct)
  case (1 a b xs)
  then obtain k' where k: "k = Suc k'"
    by (cases k) simp_all
  have s: "small n a" "small n b" "small (2 * n) b" and xs: "\<forall>a\<in>set xs. small n a" "n * length xs + 2 * n \<le> 32"
    using 1(2,4) by (auto simp: small_def algebra_simps)
  have ih: "drop_bit n (fields n xs) AND other_fields n k' = fields (2 * n) (odds xs)"
    by (rule 1(1)) (use 1(2-4) k in \<open>auto simp: algebra_simps\<close>)
  have d: "drop_bit n (fields n (a # b # xs)) = b + push_bit n (fields n xs)"
    using fields_drop [of a "b # xs" n] 1(2,4) by simp
  show ?case
  proof (rule bit_word_eqI)
    fix j
    assume j: "j < LENGTH(32)"
    have "bit (fields (2 * n) (odds (a # b # xs))) j \<longleftrightarrow>
        (if j < 2 * n then bit b j else bit (drop_bit n (fields n xs) AND other_fields n k') (j - 2 * n))"
      using j by (simp add: bit_add_push s ih)
    moreover have "bit (drop_bit n (fields n (a # b # xs)) AND other_fields n k) j \<longleftrightarrow>
        (if j < n then bit b j else j \<ge> 2 * n \<and> bit (drop_bit n (fields n xs) AND other_fields n k') (j - 2 * n))"
    proof -
      have "n + (j - 2 * n) = j - n" if "2 * n \<le> j"
        using that by simp
      then show ?thesis
        unfolding d using j k by (auto simp: bit_add_push s bit_simps mult_2)
    qed
    ultimately show "bit (drop_bit n (fields n (a # b # xs)) AND other_fields n k) j \<longleftrightarrow> bit (fields (2 * n) (odds (a # b # xs))) j"
      using s(2) by (auto simp: small_def)
  qed
qed simp_all

fun pair_sums :: "u32 list \<Rightarrow> u32 list" where
  "pair_sums (a # b # xs) = (a + b) # pair_sums xs"
| "pair_sums xs = xs"

lemma fields_evens_odds: "even (length as) \<Longrightarrow> fields n as = fields (2 * n) (evens as) + push_bit n (fields (2 * n) (odds as))"
  by (induction as rule: evens.induct) (simp_all add: push_bit_add mult_2 add_ac push_bit_push_bit)

lemma fields_pair_sums: "even (length as) \<Longrightarrow> fields n (evens as) + fields n (odds as) = fields n (pair_sums as)"
proof (induction as rule: evens.induct)
  case (1 a b xs)
  then have "fields n (pair_sums xs) = fields n (evens xs) + fields n (odds xs)"
    by simp
  then show ?case
    by (simp add: push_bit_add add_ac)
qed simp_all

fun neighbour_sums :: "u32 list \<Rightarrow> u32 list" where
  "neighbour_sums (a # b # xs) = (a + b) # neighbour_sums (b # xs)"
| "neighbour_sums xs = xs"

lemma fields_neighbours: "fields n as + fields n (tl as) = fields n (neighbour_sums as)"
proof (induction as rule: neighbour_sums.induct)
  case (1 a b xs)
  then show ?case
    by (simp add: push_bit_add [symmetric] add_ac)
qed simp_all

lemma evens_neighbours: "even (length as) \<Longrightarrow> evens (neighbour_sums as) = pair_sums as"
proof (induction as rule: pair_sums.induct)
  case (1 a b xs)
  then show ?case
    by (cases xs) simp_all
qed simp_all

subsection \<open>Bounds\<close>

definition up_to :: "nat \<Rightarrow> u32 list \<Rightarrow> bool" where
  "up_to c as \<longleftrightarrow> (\<forall>a\<in>set as. unat a \<le> c)"

lemma small_le: "unat a < 2 ^ n \<Longrightarrow> small n a"
proof -
  assume a: "unat a < 2 ^ n"
  have "bit (unat a) j \<Longrightarrow> j < n" for j
    using a by (metis bit_take_bit_iff take_bit_nat_eq_self)
  then show ?thesis
    by (simp add: small_def bit_unsigned_iff)
qed

lemma up_to_small: "up_to c as \<Longrightarrow> c < 2 ^ n \<Longrightarrow> \<forall>a\<in>set as. small n a"
  by (auto simp: up_to_def intro!: small_le)

lemma unat_add_le: "unat (a :: u32) \<le> c \<Longrightarrow> unat (b :: u32) \<le> d \<Longrightarrow> unat (a + b) \<le> c + d"
  using mod_less_eq_dividend [of "unat a + unat b" "2 ^ 32"] by (simp add: unat_word_ariths(1))

lemma up_to_pair_sums: "up_to c as \<Longrightarrow> up_to (2 * c) (pair_sums as)"
proof (induction as rule: pair_sums.induct)
  case (1 a b xs)
  then show ?case
    using unat_add_le [of a c b c] by (auto simp: up_to_def)
qed (auto simp: up_to_def)

lemma up_to_neighbours: "up_to c as \<Longrightarrow> up_to (2 * c) (neighbour_sums as)"
proof (induction as rule: neighbour_sums.induct)
  case (1 a b xs)
  then show ?case
    using unat_add_le [of a c b c] by (auto simp: up_to_def)
qed (auto simp: up_to_def)

lemma length_neighbour_sums [simp]: "length (neighbour_sums as) = length as"
  by (induction as rule: neighbour_sums.induct) simp_all

lemma length_pair_sums: "length as = 2 * k \<Longrightarrow> length (pair_sums as) = k"
  by (induction as arbitrary: k rule: pair_sums.induct) (auto simp: gr0_conv_Suc, presburger+)

lemma sum_pair_sums [simp]: "sum_list (pair_sums as) = sum_list as"
  by (induction as rule: pair_sums.induct) (simp_all add: add_ac)

subsection \<open>The steps\<close>

lemma step1:
  assumes "up_to 1 as" "length as = 2 * k" "k \<le> 16"
  shows "fields 1 as - (drop_bit 1 (fields 1 as) AND other_fields 1 k) = fields 2 (pair_sums as)"
proof -
  have odd: "drop_bit 1 (fields 1 as) AND other_fields 1 k = fields 2 (odds as)"
    using fields_odd [of as 1 k] up_to_small [OF assms(1), of 1] assms(2,3) by simp
  have "fields 1 as = fields 2 (evens as) + push_bit 1 (fields 2 (odds as))"
    using fields_evens_odds [of as 1] assms(2) by simp
  then have "fields 1 as - fields 2 (odds as) = fields 2 (evens as) + fields 2 (odds as)"
    by (simp add: push_bit_eq_mult)
  then show ?thesis
    unfolding odd using fields_pair_sums [of as 2] assms(2) by simp
qed

lemma step2:
  assumes "up_to 2 as" "length as = 2 * k" "k \<le> 8"
  shows "(fields 2 as AND other_fields 2 k) + (drop_bit 2 (fields 2 as) AND other_fields 2 k) = fields 4 (pair_sums as)"
  using fields_even [of as 2 k] fields_odd [of as 2 k] up_to_small [OF assms(1), of 2] fields_pair_sums [of as 4] assms(2,3)
  by simp

lemma drop_fields:
  assumes "up_to c as" "c < 2 ^ n" "n * length as \<le> 32"
  shows "drop_bit n (fields n as) = fields n (tl as)"
proof (cases as)
  case (Cons a xs)
  then show ?thesis
    using fields_drop [of a xs n] up_to_small [OF assms(1,2)] assms(3) by simp
qed simp

lemma step3:
  assumes "up_to 4 as" "length as = 2 * k" "k \<le> 4"
  shows "(fields 4 as + drop_bit 4 (fields 4 as)) AND other_fields 4 k = fields 8 (pair_sums as)"
proof -
  have "fields 4 as + drop_bit 4 (fields 4 as) = fields 4 (neighbour_sums as)"
    using drop_fields [OF assms(1), of 4] assms(2,3) fields_neighbours [of 4 as] by simp
  moreover have "\<forall>a\<in>set (neighbour_sums as). small 4 a"
    using up_to_small [OF up_to_neighbours [OF assms(1)], of 4] by simp
  ultimately show ?thesis
    using fields_even [of "neighbour_sums as" 4 k] assms(2,3) evens_neighbours [of as] by simp
qed

lemma fields_mask: "small n a \<Longrightarrow> fields n (a # as) AND mask n = a"
  by (rule bit_word_eqI) (auto simp: bit_simps bit_add_push small_def)

lemma list4: "length as = 4 \<Longrightarrow> \<exists>a b c d. as = [a, b, c, d]"
  by (auto simp: numeral_eq_Suc length_Suc_conv)

lemma step4:
  assumes "up_to 8 as" "length as = 4"
  shows "(let res = fields 8 as + drop_bit 8 (fields 8 as) in (res + drop_bit 16 res) AND mask 8) = sum_list as"
proof -
  obtain a b c d where as: "as = [a, b, c, d]"
    using list4 [OF assms(2)] by blast
  have n1: "fields 8 as + drop_bit 8 (fields 8 as) = fields 8 [a + b, b + c, c + d, d]" (is "?res = _")
    using drop_fields [OF assms(1), of 8] fields_neighbours [of 8 as] by (simp add: as)
  have u1: "up_to 16 [a + b, b + c, c + d, d]"
    using up_to_neighbours [OF assms(1)] by (simp add: as)
  have "drop_bit 16 ?res = drop_bit 8 (drop_bit 8 ?res)"
    by (simp add: drop_bit_drop_bit)
  also have "\<dots> = fields 8 [c + d, d]"
    unfolding n1 using u1 drop_fields [OF u1, of 8] drop_fields [of 16 "[b + c, c + d, d]" 8] by (simp add: up_to_def)
  finally have sum: "?res + drop_bit 16 ?res = fields 8 [a + b + (c + d), b + c + d, c + d, d]"
    unfolding n1 by (simp add: push_bit_add add_ac)
  have "unat (a + b + (c + d)) \<le> 32"
    using unat_add_le [of "a + b" 16 "c + d" 16] u1 by (simp add: up_to_def)
  then have "small 8 (a + b + (c + d))"
    by (intro small_le) simp
  then have "(?res + drop_bit 16 ?res) AND mask 8 = a + b + (c + d)"
    unfolding sum by (rule fields_mask)
  moreover have "sum_list as = a + b + (c + d)"
    by (simp add: as add_ac)
  ultimately show ?thesis
    unfolding Let_def by simp
qed

lemma step4_mul:
  assumes "up_to 8 as" "length as = 4"
  shows "drop_bit 24 (fields 8 as * 0x01010101) = sum_list as"
proof -
  obtain a b c d where as: "as = [a, b, c, d]"
    using list4 [OF assms(2)] by blast
  let ?s = "[a, a + b, a + b + c, a + b + c + d]"
  have z: "(4294967296 :: u32) = 0" "(1103806595072 :: u32) = 0" "(282578783305728 :: u32) = 0"
    by simp_all
  have mul: "fields 8 as * 0x01010101 = fields 8 ?s"
    by (simp add: as push_bit_eq_mult algebra_simps z)
  have "unat a \<le> 8" "unat (a + b) \<le> 16" "unat (a + b + c) \<le> 24" "unat (a + b + c + d) \<le> 32"
    using assms(1) unat_add_le [of a 8 b 8] unat_add_le [of "a + b" 16 c 8] unat_add_le [of "a + b + c" 24 d 8]
    by (simp_all add: as up_to_def)
  then have u: "up_to 32 ?s" "up_to 32 (tl ?s)" "up_to 32 (tl (tl ?s))"
    by (simp_all add: up_to_def)
  have "drop_bit 24 (fields 8 ?s) = drop_bit 8 (drop_bit 8 (drop_bit 8 (fields 8 ?s)))"
    by (simp add: drop_bit_drop_bit)
  also have "\<dots> = fields 8 [a + b + c + d]"
    using drop_fields [OF u(1), of 8] drop_fields [OF u(2), of 8] drop_fields [OF u(3), of 8] by simp
  finally show ?thesis
    unfolding mul by (simp add: as add_ac)
qed

subsection \<open>Counting bits\<close>

definition bit_fields :: "u32 \<Rightarrow> nat \<Rightarrow> u32 list" where
  "bit_fields w n = map (\<lambda>i. of_bool (bit w i)) [0..<n]"

lemma fields_bits: "(\<And>j. bit w j \<Longrightarrow> j < m + n) \<Longrightarrow> m + n \<le> 32 \<Longrightarrow>
    fields 1 (map (\<lambda>i. of_bool (bit w i)) [m..<m + n]) = drop_bit m w"
proof (induction n arbitrary: m)
  case 0
  then show ?case
    by (intro bit_word_eqI) (fastforce simp: bit_simps)
next
  case (Suc n)
  have "fields 1 (map (\<lambda>i. of_bool (bit w i)) [m..<m + Suc n]) =
      of_bool (bit w m) + push_bit 1 (fields 1 (map (\<lambda>i. of_bool (bit w i)) [Suc m..<Suc m + n]))"
    by (simp add: upt_rec)
  also have "\<dots> = of_bool (bit w m) + push_bit 1 (drop_bit (Suc m) w)"
    using Suc.IH [of "Suc m"] Suc.prems by simp
  also have "\<dots> = drop_bit m w"
  proof (rule bit_word_eqI)
    fix j
    assume "j < LENGTH(32)"
    have s: "small 1 (of_bool (bit w m))"
      by (auto simp: small_def bit_1_iff)
    show "bit (of_bool (bit w m) + push_bit 1 (drop_bit (Suc m) w)) j \<longleftrightarrow> bit (drop_bit m w) j"
      using \<open>j < LENGTH(32)\<close> unfolding bit_add_push [OF s] by (cases j) (auto simp: bit_simps bit_1_iff)
  qed
  finally show ?case .
qed

lemma fields_bit_fields: "(\<And>j. bit w j \<Longrightarrow> j < n) \<Longrightarrow> n \<le> 32 \<Longrightarrow> fields 1 (bit_fields w n) = w"
  using fields_bits [of w 0 n] by (simp add: bit_fields_def)

lemma up_to_bit_fields: "up_to 1 (bit_fields w n)"
  by (auto simp: up_to_def bit_fields_def)

lemma unat_sum_bit_fields:
  assumes "n \<le> 32"
  shows "unat (sum_list (bit_fields w n)) = card {i. i < n \<and> bit w i}"
proof -
  have "sum_list (bit_fields w n) = of_nat (card {i. i < n \<and> bit w i})"
  proof (induction n)
    case (Suc n)
    have "{i. i < Suc n \<and> bit w i} = (if bit w n then insert n {i. i < n \<and> bit w i} else {i. i < n \<and> bit w i})"
      by (auto simp: less_Suc_eq)
    then show ?case
      using Suc by (simp add: bit_fields_def)
  qed (simp add: bit_fields_def)
  moreover have "card {i. i < n \<and> bit w i} \<le> 32"
    using card_mono [of "{..<n}" "{i. i < n \<and> bit w i}"] assms by (simp add: subset_iff)
  ultimately show ?thesis
    by (simp add: unat_of_nat)
qed

text \<open>The first three steps, which all the counts share.\<close>

lemma steps:
  assumes "\<forall>j. bit w j \<longrightarrow> j < 8 * k" "k \<le> 4" and "as = bit_fields w (8 * k)"
    and "m1 = other_fields 1 (4 * k)" "m2 = other_fields 2 (2 * k)" "m3 = other_fields 4 k"
  shows "w - (drop_bit 1 w AND m1) = fields 2 (pair_sums as)"
    and "(fields 2 (pair_sums as) AND m2) + (drop_bit 2 (fields 2 (pair_sums as)) AND m2) =
      fields 4 (pair_sums (pair_sums as))"
    and "(fields 4 (pair_sums (pair_sums as)) + drop_bit 4 (fields 4 (pair_sums (pair_sums as)))) AND m3 =
      fields 8 (pair_sums (pair_sums (pair_sums as)))"
    and "up_to 8 (pair_sums (pair_sums (pair_sums as)))" and "length (pair_sums (pair_sums (pair_sums as))) = k"
proof -
  have "length as = 2 * (4 * k)"
    by (simp add: assms(3) bit_fields_def)
  then have l: "length as = 2 * (4 * k)" "length (pair_sums as) = 2 * (2 * k)" "length (pair_sums (pair_sums as)) = 2 * k"
    "length (pair_sums (pair_sums (pair_sums as))) = k"
    by (simp_all add: length_pair_sums)
  have u: "up_to 1 as" "up_to 2 (pair_sums as)" "up_to 4 (pair_sums (pair_sums as))" "up_to 8 (pair_sums (pair_sums (pair_sums as)))"
    using up_to_bit_fields [of w "8 * k"] up_to_pair_sums [of 1 as] up_to_pair_sums [of 2 "pair_sums as"]
      up_to_pair_sums [of 4 "pair_sums (pair_sums as)"] by (simp_all add: assms(3))
  have "fields 1 as = w"
    unfolding assms(3) by (rule fields_bit_fields) (use assms(1,2) in auto)
  then show "w - (drop_bit 1 w AND m1) = fields 2 (pair_sums as)"
    using step1 [OF u(1) l(1)] assms(2) unfolding assms(4) by simp
  show "(fields 2 (pair_sums as) AND m2) + (drop_bit 2 (fields 2 (pair_sums as)) AND m2) =
      fields 4 (pair_sums (pair_sums as))"
    unfolding assms(5) using step2 [OF u(2) l(2)] assms(2) by simp
  show "(fields 4 (pair_sums (pair_sums as)) + drop_bit 4 (fields 4 (pair_sums (pair_sums as)))) AND m3 =
      fields 8 (pair_sums (pair_sums (pair_sums as)))"
    unfolding assms(6) using step3 [OF u(3) l(3)] assms(2) by simp
  show "up_to 8 (pair_sums (pair_sums (pair_sums as)))" "length (pair_sums (pair_sums (pair_sums as))) = k"
    using u(4) l(4) .
qed

lemma masks:
  "0x55555555 = other_fields 1 (4 * 4)" "0x33333333 = other_fields 2 (2 * 4)" "0x0F0F0F0F = other_fields 4 4"
  "0x5555 = other_fields 1 (4 * 2)" "0x3333 = other_fields 2 (2 * 2)" "0x0F0F = other_fields 4 2"
  "0x55 = other_fields 1 (4 * 1)" "0x33 = other_fields 2 (2 * 1)" "0x0F = other_fields 4 1" "0xFF = (mask 8 :: u32)"
  by code_simp+

lemma sum_steps: "sum_list (pair_sums (pair_sums (pair_sums as))) = sum_list as"
  by simp

lemma sw_hweight32_sum: "sw_hweight32 w = sum_list (bit_fields w 32)" "sw_hweight32_mul w = sum_list (bit_fields w 32)"
proof -
  have w: "\<forall>j. bit w j \<longrightarrow> j < 8 * 4"
    using bit_imp_le_length [of w] by auto
  have as: "bit_fields w 32 = bit_fields w (8 * 4)"
    by simp
  note st = steps [OF w order_refl as masks(1-3)]
  show "sw_hweight32 w = sum_list (bit_fields w 32)"
    using step4 [OF st(4,5)] unfolding sw_hweight32_def Let_def st(1-3) masks(10) sum_steps .
  show "sw_hweight32_mul w = sum_list (bit_fields w 32)"
    using step4_mul [OF st(4,5)] unfolding sw_hweight32_mul_def Let_def st(1-3) sum_steps .
qed

lemma sw_hweight16_sum:
  assumes "\<And>j. bit w j \<Longrightarrow> j < 16"
  shows "sw_hweight16 w = sum_list (bit_fields w 16)"
proof -
  have w: "\<forall>j. bit w j \<longrightarrow> j < 8 * 2"
    using assms by simp
  have as: "bit_fields w 16 = bit_fields w (8 * 2)" and k: "(2 :: nat) \<le> 4"
    by simp_all
  note st = steps [OF w k as masks(4-6)]
  obtain a b where ab: "pair_sums (pair_sums (pair_sums (bit_fields w 16))) = [a, b]"
    using st(5) by (auto simp: numeral_2_eq_2 length_Suc_conv)
  have "unat (a + b) \<le> 16"
    using st(4) unat_add_le [of a 8 b 8] by (simp add: ab up_to_def)
  then have "fields 8 [a + b, b] AND mask 8 = a + b"
    by (intro fields_mask small_le) simp
  moreover have "fields 8 [a, b] + drop_bit 8 (fields 8 [a, b]) = fields 8 [a + b, b]"
    using drop_fields [OF st(4), of 8] fields_neighbours [of 8 "[a, b]"] by (simp add: ab)
  moreover have "sum_list (bit_fields w 16) = a + b"
    using sum_steps [of "bit_fields w 16"] by (simp add: ab)
  ultimately show ?thesis
    unfolding sw_hweight16_def Let_def st(1-3) masks(10) ab by (simp only:)
qed

lemma sw_hweight8_sum:
  assumes "\<And>j. bit w j \<Longrightarrow> j < 8"
  shows "sw_hweight8 w = sum_list (bit_fields w 8)"
proof -
  have w: "\<forall>j. bit w j \<longrightarrow> j < 8 * 1"
    using assms by simp
  have as: "bit_fields w 8 = bit_fields w (8 * 1)" and k: "(1 :: nat) \<le> 4"
    by simp_all
  note st = steps [OF w k as masks(7-9)]
  obtain a where a: "pair_sums (pair_sums (pair_sums (bit_fields w 8))) = [a]"
    using st(5) by (auto simp: length_Suc_conv)
  then show ?thesis
    unfolding sw_hweight8_def Let_def st(1-3) using sum_steps [of "bit_fields w 8"] by simp
qed

subsection \<open>Properties\<close>

text \<open>C34: The population counts count the bits that are set: \<open>__sw_hweight32\<close>, with and
  without the multiplication, for every word, \<open>__sw_hweight64\<close> for every 64-bit word,
  \<open>__sw_hweight16\<close> for every value of 16 bits and \<open>__sw_hweight8\<close> for every value of 8
  bits.\<close>

theorem hweight_counts_bits:
  "unat (sw_hweight32 w) = card {i. bit w i} \<and> sw_hweight32_mul w = sw_hweight32 w \<and>
   unat (sw_hweight64 v) = card {i. bit v i} \<and>
   (w < 0x10000 \<longrightarrow> unat (sw_hweight16 w) = card {i. bit w i}) \<and>
   (w < 0x100 \<longrightarrow> unat (sw_hweight8 w) = card {i. bit w i})"
proof (intro conjI impI)
  have h32: "unat (sw_hweight32 w) = card {i. bit w i}" for w
  proof -
    have "{i. i < 32 \<and> bit w i} = {i. bit w i}"
      using bit_imp_le_length [of w] by auto
    then show ?thesis
      using unat_sum_bit_fields [of 32 w] by (simp add: sw_hweight32_sum)
  qed
  then show "unat (sw_hweight32 w) = card {i. bit w i}" .
  show "sw_hweight32_mul w = sw_hweight32 w"
    by (simp add: sw_hweight32_sum)
  show "unat (sw_hweight16 w) = card {i. bit w i}" if "w < 0x10000"
  proof -
    have j: "bit w j \<Longrightarrow> j < 16" for j
      using small_le [of w 16] that by (simp add: small_def word_less_nat_alt)
    then have "{i. i < 16 \<and> bit w i} = {i. bit w i}"
      by auto
    then show ?thesis
      using unat_sum_bit_fields [of 16 w] sw_hweight16_sum [OF j] by simp
  qed
  show "unat (sw_hweight8 w) = card {i. bit w i}" if "w < 0x100"
  proof -
    have j: "bit w j \<Longrightarrow> j < 8" for j
      using small_le [of w 8] that by (simp add: small_def word_less_nat_alt)
    then have "{i. i < 8 \<and> bit w i} = {i. bit w i}"
      by auto
    then show ?thesis
      using unat_sum_bit_fields [of 8 w] sw_hweight8_sum [OF j] by simp
  qed
  show "unat (sw_hweight64 v) = card {i. bit v i}"
  proof -
    let ?hi = "ucast (drop_bit 32 v) :: u32" and ?lo = "ucast v :: u32"
    have f: "finite {i. bit x i}" "card {i. bit x i} \<le> 32" for x :: u32
      using card_mono [of "{..<32}" "{i. bit x i}"] bit_imp_le_length [of x] finite_subset [of "{i. bit x i}" "{..<32}"]
      by (auto simp: subset_iff)
    have "{i. bit v i} = {i. bit ?lo i} \<union> (\<lambda>i. 32 + i) ` {i. bit ?hi i}"
    proof (rule set_eqI)
      fix i
      have v: "bit v i \<Longrightarrow> i < 64"
        using bit_imp_le_length [of v i] by simp
      show "i \<in> {i. bit v i} \<longleftrightarrow> i \<in> {i. bit ?lo i} \<union> (\<lambda>i. 32 + i) ` {i. bit ?hi i}"
      proof (cases "i < 32")
        case True
        then show ?thesis
          by (auto simp: bit_simps)
      next
        case False
        then have "i = 32 + (i - 32)"
          by simp
        then show ?thesis
          using False v by (auto simp: bit_simps image_iff intro: exI [of _ "i - 32"])
      qed
    qed
    moreover have "{i. bit ?lo i} \<inter> (\<lambda>i. 32 + i) ` {i. bit ?hi i} = {}"
      by (auto dest: bit_imp_le_length)
    ultimately have "card {i. bit v i} = card {i. bit ?lo i} + card {i. bit ?hi i}"
      using f(1) by (simp add: card_Un_disjoint card_image)
    moreover have "unat (sw_hweight64 v) = card {i. bit ?hi i} + card {i. bit ?lo i}"
      using f(2) [of ?hi] f(2) [of ?lo] unfolding sw_hweight64_def unat_word_ariths h32 by simp
    ultimately show ?thesis
      by simp
  qed
qed

theorem hweight_counts_bits_witness: "unat (sw_hweight16 0x8421) = card {i. bit (0x8421 :: u32) i}"
  using hweight_counts_bits [of "0x8421" 0] by simp

end
