(* ===== verification/Bitmap_Map.thy ===== *)
theory Bitmap_Map
  imports Bitmap_Find Hweight
begin

text \<open>
  Weight and relative positions, the second part of \<open>lib/bitmap.c\<close>: the number of bits set,
  the ordinal of a bit among the set ones and back, and the remapping, translation and folding of
  bitmaps built on them. A failed \<open>BUG_ON\<close> and a division by zero are \<open>None\<close>, as are accesses
  outside an array. The flag \<open>same\<close> of the last operations says that destination and source are
  the same array.
\<close>

subsection \<open>Weight\<close>

definition hweight_long :: "u32 \<Rightarrow> nat" where
  "hweight_long w = unat (sw_hweight32_mul w)"

function weight_loop :: "bitmap \<Rightarrow> nat \<Rightarrow> nat \<Rightarrow> nat \<Rightarrow> nat option" where
  "weight_loop bm k lim w =
     (if k < lim then do { x \<leftarrow> arr_get bm k; weight_loop bm (k + 1) lim (w + hweight_long x) } else Some w)"
  by pat_completeness auto
termination
  by (relation "measure (\<lambda>(_, k, lim, _). lim - k)") auto

declare weight_loop.simps [simp del]

definition bitmap_weight :: "bitmap \<Rightarrow> nat \<Rightarrow> nat option" where
  "bitmap_weight bm bits =
     do { let lim = bits div 32;
          w \<leftarrow> weight_loop bm 0 lim 0;
          if bits mod 32 \<noteq> 0
          then do { x \<leftarrow> arr_get bm lim; Some (w + hweight_long (x AND BITMAP_LAST_WORD_MASK bits)) }
          else Some w }"

subsection \<open>Ordinals and positions\<close>

partial_function (option) pos_to_ord_loop :: "bitmap \<Rightarrow> nat \<Rightarrow> nat \<Rightarrow> nat \<Rightarrow> nat \<Rightarrow> int option" where
  "pos_to_ord_loop buf pos bits i ord =
     (if i < pos
      then do { i \<leftarrow> find_next_bit buf bits (i + 1); pos_to_ord_loop buf pos bits i (ord + 1) }
      else if i \<noteq> pos then None else Some (int ord))"

definition bitmap_pos_to_ord :: "bitmap \<Rightarrow> int \<Rightarrow> nat \<Rightarrow> int option" where
  "bitmap_pos_to_ord buf pos bits =
     (if pos < 0 \<or> int bits \<le> pos then Some (- 1)
      else do { b \<leftarrow> test_bit (nat pos) buf;
                if \<not> b then Some (- 1)
                else do { i \<leftarrow> find_first_bit buf bits; pos_to_ord_loop buf (nat pos) bits i 0 } })"

partial_function (option) ord_to_pos_loop :: "bitmap \<Rightarrow> nat \<Rightarrow> nat \<Rightarrow> nat \<Rightarrow> (nat \<times> nat) option" where
  "ord_to_pos_loop buf bits i ord =
     (if i < bits \<and> 0 < ord
      then do { i \<leftarrow> find_next_bit buf bits (i + 1); ord_to_pos_loop buf bits i (ord - 1) }
      else Some (i, ord))"

definition bitmap_ord_to_pos :: "bitmap \<Rightarrow> int \<Rightarrow> nat \<Rightarrow> nat option" where
  "bitmap_ord_to_pos buf ord bits =
     (if 0 \<le> ord \<and> ord < int bits
      then do { i \<leftarrow> find_first_bit buf bits;
                (i, ord) \<leftarrow> ord_to_pos_loop buf bits i (nat ord);
                Some (if i < bits \<and> ord = 0 then i else 0) }
      else Some 0)"

subsection \<open>Remapping, translation and folding\<close>

text \<open>\<open>for_each_set_bit\<close>, from position \<open>i\<close> on, with a body that updates a state.\<close>

partial_function (option) for_each_set_bit :: "(nat \<Rightarrow> 's \<Rightarrow> 's option) \<Rightarrow> bitmap \<Rightarrow> nat \<Rightarrow> nat \<Rightarrow> 's \<Rightarrow> 's option" where
  "for_each_set_bit body addr sz i s =
     (if i < sz
      then do { s \<leftarrow> body i s; i \<leftarrow> find_next_bit addr sz (i + 1); for_each_set_bit body addr sz i s }
      else Some s)"

definition bitmap_remap :: "bool \<Rightarrow> bitmap \<Rightarrow> bitmap \<Rightarrow> bitmap \<Rightarrow> bitmap \<Rightarrow> nat \<Rightarrow> bitmap option" where
  "bitmap_remap same dst src old new bits =
     (if same then Some dst
      else do { dst \<leftarrow> bitmap_zero dst bits;
                w \<leftarrow> bitmap_weight new bits;
                i \<leftarrow> find_first_bit src bits;
                for_each_set_bit
                  (\<lambda>oldbit dst. do { n \<leftarrow> bitmap_pos_to_ord old (int oldbit) bits;
                                     if n < 0 \<or> w = 0 then set_bit_at oldbit dst
                                     else do { p \<leftarrow> bitmap_ord_to_pos new (n mod int w) bits; set_bit_at p dst } })
                  src bits i dst })"

definition bitmap_bitremap :: "nat \<Rightarrow> bitmap \<Rightarrow> bitmap \<Rightarrow> nat \<Rightarrow> nat option" where
  "bitmap_bitremap oldbit old new bits =
     do { w \<leftarrow> bitmap_weight new bits;
          n \<leftarrow> bitmap_pos_to_ord old (int oldbit) bits;
          if n < 0 \<or> w = 0 then Some oldbit else bitmap_ord_to_pos new (n mod int w) bits }"

definition bitmap_onto :: "bool \<Rightarrow> bitmap \<Rightarrow> bitmap \<Rightarrow> bitmap \<Rightarrow> nat \<Rightarrow> bitmap option" where
  "bitmap_onto same dst orig relmap bits =
     (if same then Some dst
      else do { dst \<leftarrow> bitmap_zero dst bits;
                i \<leftarrow> find_first_bit relmap bits;
                (dst, _) \<leftarrow> for_each_set_bit
                  (\<lambda>n (dst, m). do { b \<leftarrow> test_bit m orig;
                                     dst \<leftarrow> (if b then set_bit_at n dst else Some dst);
                                     Some (dst, m + 1) })
                  relmap bits i (dst, 0);
                Some dst })"

definition bitmap_fold :: "bool \<Rightarrow> bitmap \<Rightarrow> bitmap \<Rightarrow> nat \<Rightarrow> nat \<Rightarrow> bitmap option" where
  "bitmap_fold same dst orig sz bits =
     (if same then Some dst
      else do { dst \<leftarrow> bitmap_zero dst bits;
                i \<leftarrow> find_first_bit orig bits;
                for_each_set_bit (\<lambda>oldbit dst. if sz = 0 then None else set_bit_at (oldbit mod sz) dst) orig bits i dst })"

subsection \<open>The weight is the number of bits\<close>

lemma hweight_long_eq: "hweight_long w = card {j. j < 32 \<and> bit w j}"
  by (simp add: hweight_long_def sw_hweight32_sum unat_sum_bit_fields)

lemma card_bset_add:
  assumes "r \<le> 32"
  shows "card (bset (32 * k + r) bm) = card (bset (32 * k) bm) + card {j. j < r \<and> bit (bm ! k) j}"
proof -
  have "bset (32 * k + r) bm = bset (32 * k) bm \<union> (\<lambda>j. 32 * k + j) ` {j. j < r \<and> bit (bm ! k) j}" (is "_ = _ \<union> ?B")
  proof (rule set_eqI)
    fix i
    have "i div 32 = k \<and> i mod 32 = i - 32 * k" if "32 * k \<le> i" "i < 32 * k + r"
      using div_nat_eqI [of 32 k i] that assms by (auto simp: minus_div_mult_eq_mod [symmetric])
    then show "i \<in> bset (32 * k + r) bm \<longleftrightarrow> i \<in> bset (32 * k) bm \<union> ?B"
      by (cases "i < 32 * k") (auto simp: bset_def image_iff intro!: exI [of _ "i - 32 * k"])
  qed
  moreover have "bset (32 * k) bm \<inter> ?B = {}"
    by (auto simp: bset_def)
  ultimately show ?thesis
    by (simp add: card_Un_disjoint card_image)
qed

lemma weight_loop_eq:
  "lim \<le> length bm \<Longrightarrow> k \<le> lim \<Longrightarrow>
   weight_loop bm k lim w = Some (w + card (bset (32 * lim) bm) - card (bset (32 * k) bm))"
proof (induction "lim - k" arbitrary: k w)
  case 0
  then show ?case
    by (subst weight_loop.simps) simp
next
  case (Suc n)
  have k: "k < lim"
    using Suc.hyps(2) by simp
  have c: "card (bset (32 * Suc k) bm) = card (bset (32 * k) bm) + hweight_long (bm ! k)"
    using card_bset_add [of 32 k bm] by (simp add: hweight_long_eq add.commute)
  have "card (bset (32 * Suc k) bm) \<le> card (bset (32 * lim) bm)"
    using Suc.hyps(2) by (intro card_mono) (auto simp: bset_def)
  moreover have "weight_loop bm k lim w = weight_loop bm (Suc k) lim (w + hweight_long (bm ! k))"
    using k Suc.prems by (subst weight_loop.simps) simp
  ultimately show ?case
    using Suc.hyps(1) [of "Suc k"] Suc.hyps(2) Suc.prems c by simp
qed

lemma bitmap_weight_eq:
  assumes "BITS_TO_LONGS bits \<le> length bm"
  shows "bitmap_weight bm bits = Some (card (bset bits bm))"
proof -
  let ?l = "bits div 32" and ?r = "bits mod 32"
  have l: "?l \<le> length bm" "?r \<noteq> 0 \<longrightarrow> ?l < length bm"
    using longs_le [OF assms] by simp_all
  have "card (bset (32 * ?l + ?r) bm) = card (bset (32 * ?l) bm) + card {j. j < ?r \<and> bit (bm ! ?l) j}"
    by (rule card_bset_add) (simp add: less_imp_le)
  moreover have "{j. j < 32 \<and> bit (bm ! ?l AND BITMAP_LAST_WORD_MASK bits) j} = {j. j < ?r \<and> bit (bm ! ?l) j}" if "?r \<noteq> 0"
  proof -
    have "j < 32" if "j < ?r" for j
      using that by (meson less_trans mod_less_divisor zero_less_numeral)
    then show ?thesis
      using that by (auto simp: bit_and_iff bit_last_mask)
  qed
  moreover have "weight_loop bm 0 ?l 0 = Some (card (bset (32 * ?l) bm))"
    using weight_loop_eq [OF l(1), of 0 0] by (simp add: bset_def)
  moreover have "32 * ?l = bits" if "?r = 0"
    using that by auto
  ultimately show ?thesis
    using l(2) by (cases "?r = 0") (simp_all add: bitmap_weight_def Let_def hweight_long_eq)
qed

subsection \<open>The bits in order\<close>

definition bits_list :: "nat \<Rightarrow> bitmap \<Rightarrow> nat list" where
  "bits_list bits bm = filter (bm_bit bm) [0..<bits]"

lemma set_bits_list [simp]: "set (bits_list bits bm) = bset bits bm"
  by (auto simp: bits_list_def bset_bm_bit)

lemma distinct_bits_list [simp]: "distinct (bits_list bits bm)"
  by (simp add: bits_list_def)

lemma length_bits_list: "length (bits_list bits bm) = card (bset bits bm)"
  using distinct_card [OF distinct_bits_list] by simp

lemma filter_skip:
  assumes "\<forall>j. lo \<le> j \<and> j < r \<longrightarrow> \<not> Q j" "lo \<le> r" "r \<le> hi"
  shows "filter Q [lo..<hi] = filter Q [r..<hi]"
proof -
  have "[lo..<hi] = [lo..<r] @ [r..<hi]"
    using assms(2,3) by (metis le_add_diff_inverse upt_add_eq_append)
  then show ?thesis
    using assms(1) by (auto simp: filter_empty_conv)
qed

lemma find_list:
  assumes "BITS_TO_LONGS bits \<le> length bm" "lo \<le> bits"
  shows "\<exists>r. find_next_bit bm bits lo = Some r \<and> lo \<le> r \<and> r \<le> bits \<and> (\<forall>j. lo \<le> j \<and> j < r \<longrightarrow> \<not> bm_bit bm j) \<and>
    (r < bits \<longrightarrow> bm_bit bm r)"
  using find_next_bit_least [OF order_refl assms(1), of lo] assms(2) by (fastforce simp: bset_bm_bit)

lemma find_first_next: "find_first_bit bm bits = find_next_bit bm bits 0"
  by (auto simp: find_first_bit_def find_next_bit_def find_rest_def scan_words.simps)

lemma pos_to_ord_loop_eq:
  assumes "BITS_TO_LONGS bits \<le> length bm" "pos < bits" "bm_bit bm pos"
  shows "bm_bit bm i \<Longrightarrow> i \<le> pos \<Longrightarrow>
    pos_to_ord_loop bm pos bits i ord = Some (int (ord + length (filter (bm_bit bm) [i..<pos])))"
proof (induction "pos - i" arbitrary: i ord rule: less_induct)
  case less
  show ?case
  proof (cases "i < pos")
    case True
    then obtain r where r: "find_next_bit bm bits (Suc i) = Some r" "Suc i \<le> r" "r \<le> bits"
        "\<forall>j. Suc i \<le> j \<and> j < r \<longrightarrow> \<not> bm_bit bm j" "r < bits \<longrightarrow> bm_bit bm r"
      using find_list [OF assms(1), of "Suc i"] assms(2) by auto
    have "r \<le> pos"
      using r(4) True assms(3) by (metis Suc_leI not_le)
    moreover have "filter (bm_bit bm) [i..<pos] = i # filter (bm_bit bm) [Suc i..<pos]"
      using True less.prems(1) by (simp add: upt_conv_Cons)
    moreover have "filter (bm_bit bm) [Suc i..<pos] = filter (bm_bit bm) [r..<pos]"
      by (rule filter_skip [OF r(4,2) \<open>r \<le> pos\<close>])
    moreover have "pos_to_ord_loop bm pos bits r (Suc ord) = Some (int (Suc ord + length (filter (bm_bit bm) [r..<pos])))"
      using less.hyps [of r "Suc ord"] r(2,5) \<open>r \<le> pos\<close> True assms(2) by simp
    ultimately show ?thesis
      using True r(1) by (subst pos_to_ord_loop.simps) simp
  next
    case False
    then show ?thesis
      using less.prems(2) by (subst pos_to_ord_loop.simps) simp
  qed
qed

definition ordinal :: "nat \<Rightarrow> bitmap \<Rightarrow> nat \<Rightarrow> nat" where
  "ordinal bits bm pos = length (filter (\<lambda>i. i < pos) (bits_list bits bm))"

lemma filter_below: "pos \<le> bits \<Longrightarrow> filter (\<lambda>i. i < pos) (bits_list bits bm) = filter (bm_bit bm) [0..<pos]"
proof -
  assume "pos \<le> bits"
  then have "[0..<bits] = [0..<pos] @ [pos..<bits]"
    by (metis le_add_diff_inverse upt_add_eq_append zero_le)
  then show ?thesis
    by (auto simp: bits_list_def filter_filter conj_commute intro: filter_cong)
qed

lemma bitmap_pos_to_ord_eq:
  assumes "BITS_TO_LONGS bits \<le> length bm"
  shows "bitmap_pos_to_ord bm (int pos) bits = Some (if pos \<in> bset bits bm then int (ordinal bits bm pos) else - 1)"
proof (cases "pos \<in> bset bits bm")
  case True
  then have pos: "pos < bits" "bm_bit bm pos"
    by (simp_all add: bset_bm_bit)
  obtain r where r: "find_next_bit bm bits 0 = Some r" "r \<le> bits" "\<forall>j. 0 \<le> j \<and> j < r \<longrightarrow> \<not> bm_bit bm j" "r < bits \<longrightarrow> bm_bit bm r"
    using find_list [OF assms, of 0] by auto
  have "r \<le> pos"
    using r(3) pos(2) by (metis not_le zero_le)
  then have "pos_to_ord_loop bm pos bits r 0 = Some (int (length (filter (bm_bit bm) [r..<pos])))"
    using pos_to_ord_loop_eq [OF assms pos, of r 0] r(4) pos(1) by simp
  moreover have "filter (bm_bit bm) [0..<pos] = filter (bm_bit bm) [r..<pos]"
    using r(3) \<open>r \<le> pos\<close> by (intro filter_skip) simp_all
  moreover have "ordinal bits bm pos = length (filter (bm_bit bm) [0..<pos])"
    using filter_below [of pos bits bm] pos(1) by (simp add: ordinal_def)
  ultimately show ?thesis
    using True pos(1) r(1) test_bit_eq [OF pos(1) assms] by (simp add: bitmap_pos_to_ord_def find_first_next)
next
  case False
  then show ?thesis
    using test_bit_eq [OF _ assms, of pos] by (simp add: bitmap_pos_to_ord_def)
qed

lemma ord_to_pos_loop_eq:
  assumes "BITS_TO_LONGS bits \<le> length bm"
  shows "i \<le> bits \<Longrightarrow> (i < bits \<longrightarrow> bm_bit bm i) \<Longrightarrow>
    ord_to_pos_loop bm bits i ord =
      Some (let xs = filter (bm_bit bm) [i..<bits] in if ord < length xs then (xs ! ord, 0) else (bits, ord - length xs))"
proof (induction "bits - i" arbitrary: i ord rule: less_induct)
  case less
  show ?case
  proof (cases "i < bits")
    case True
    then obtain r where r: "find_next_bit bm bits (Suc i) = Some r" "Suc i \<le> r" "r \<le> bits"
        "\<forall>j. Suc i \<le> j \<and> j < r \<longrightarrow> \<not> bm_bit bm j" "r < bits \<longrightarrow> bm_bit bm r"
      using find_list [OF assms, of "Suc i"] by auto
    have xs: "filter (bm_bit bm) [i..<bits] = i # filter (bm_bit bm) [r..<bits]"
      using True less.prems(2) filter_skip [OF r(4,2,3)] by (simp add: upt_conv_Cons)
    show ?thesis
    proof (cases ord)
      case 0
      then show ?thesis
        using True by (subst ord_to_pos_loop.simps) (simp add: xs)
    next
      case (Suc n)
      then show ?thesis
        using True r(1) less.hyps [of r n] r(2,3,5) by (subst ord_to_pos_loop.simps) (simp add: xs Let_def)
    qed
  next
    case False
    then show ?thesis
      using less.prems(1) by (subst ord_to_pos_loop.simps) simp
  qed
qed

lemma bitmap_ord_to_pos_eq:
  assumes "BITS_TO_LONGS bits \<le> length bm"
  shows "bitmap_ord_to_pos bm (int ord) bits = Some (if ord < card (bset bits bm) then bits_list bits bm ! ord else 0)"
proof -
  obtain r where r: "find_next_bit bm bits 0 = Some r" "r \<le> bits" "\<forall>j. 0 \<le> j \<and> j < r \<longrightarrow> \<not> bm_bit bm j" "r < bits \<longrightarrow> bm_bit bm r"
    using find_list [OF assms, of 0] by auto
  have xs: "filter (bm_bit bm) [r..<bits] = bits_list bits bm"
    unfolding bits_list_def using r(2,3) by (intro filter_skip [symmetric]) simp_all
  have "card (bset bits bm) \<le> bits"
    using card_mono [of "{..<bits}" "bset bits bm"] bset_less [of _ bits bm] by (auto simp: subset_iff)
  moreover have "bits_list bits bm ! ord < bits" if "ord < length (bits_list bits bm)"
    using nth_mem [OF that] bset_less by simp
  ultimately show ?thesis
    using ord_to_pos_loop_eq [OF assms r(2,4), of ord] r(1)
    by (auto simp: bitmap_ord_to_pos_def find_first_next xs Let_def length_bits_list)
qed

subsection \<open>Loops over the bits of a bitmap\<close>

primrec fold_opt :: "('a \<Rightarrow> 's \<Rightarrow> 's option) \<Rightarrow> 'a list \<Rightarrow> 's \<Rightarrow> 's option" where
  "fold_opt f [] s = Some s"
| "fold_opt f (x # xs) s = do { s \<leftarrow> f x s; fold_opt f xs s }"

lemma for_each_fold:
  assumes "BITS_TO_LONGS bits \<le> length bm"
  shows "i \<le> bits \<Longrightarrow> (i < bits \<longrightarrow> bm_bit bm i) \<Longrightarrow>
    for_each_set_bit body bm bits i s = fold_opt body (filter (bm_bit bm) [i..<bits]) s"
proof (induction "bits - i" arbitrary: i s rule: less_induct)
  case less
  show ?case
  proof (cases "i < bits")
    case True
    then obtain r where r: "find_next_bit bm bits (Suc i) = Some r" "Suc i \<le> r" "r \<le> bits"
        "\<forall>j. Suc i \<le> j \<and> j < r \<longrightarrow> \<not> bm_bit bm j" "r < bits \<longrightarrow> bm_bit bm r"
      using find_list [OF assms, of "Suc i"] by auto
    have "filter (bm_bit bm) [i..<bits] = i # filter (bm_bit bm) [r..<bits]"
      using True less.prems(2) filter_skip [OF r(4,2,3)] by (simp add: upt_conv_Cons)
    then show ?thesis
      using True r(1) less.hyps [of r] r(2,3,5) by (subst for_each_set_bit.simps) simp
  next
    case False
    then show ?thesis
      using less.prems(1) by (subst for_each_set_bit.simps) simp
  qed
qed

lemma for_each_all:
  assumes "BITS_TO_LONGS bits \<le> length bm"
  shows "(do { i \<leftarrow> find_first_bit bm bits; for_each_set_bit body bm bits i s }) = fold_opt body (bits_list bits bm) s"
proof -
  obtain r where r: "find_next_bit bm bits 0 = Some r" "r \<le> bits" "\<forall>j. 0 \<le> j \<and> j < r \<longrightarrow> \<not> bm_bit bm j" "r < bits \<longrightarrow> bm_bit bm r"
    using find_list [OF assms, of 0] by auto
  have "filter (bm_bit bm) [r..<bits] = bits_list bits bm"
    unfolding bits_list_def using r(2,3) by (intro filter_skip [symmetric]) simp_all
  then show ?thesis
    using for_each_fold [OF assms r(2,4)] r(1) by (simp add: find_first_next)
qed

text \<open>What the loops need of the array they fill: that inserting a number below the bound works.\<close>

locale bit_store =
  fixes insert_bit :: "nat \<Rightarrow> 's \<Rightarrow> 's option" and elems :: "'s \<Rightarrow> nat set" and inv :: "'s \<Rightarrow> bool" and bound :: nat
  assumes insert_ok: "inv s \<Longrightarrow> n < bound \<Longrightarrow> \<exists>s'. insert_bit n s = Some s' \<and> inv s' \<and> elems s' = insert n (elems s)"
begin

lemma fold_image:
  assumes "\<And>x s. x \<in> set xs \<Longrightarrow> h x < bound \<and> body x s = insert_bit (h x) s"
  shows "inv s \<Longrightarrow> \<exists>s'. fold_opt body xs s = Some s' \<and> inv s' \<and> elems s' = elems s \<union> h ` set xs"
  using assms
proof (induction xs arbitrary: s)
  case (Cons x xs)
  obtain s1 where s1: "insert_bit (h x) s = Some s1" "inv s1" "elems s1 = insert (h x) (elems s)"
    using insert_ok [OF Cons.prems(1)] Cons.prems(2) by force
  obtain s2 where "fold_opt body xs s1 = Some s2" "inv s2" "elems s2 = elems s1 \<union> h ` set xs"
    using Cons.IH [OF s1(2)] Cons.prems(2) by force
  then show ?case
    using s1 Cons.prems(2) by auto
qed simp

lemma fold_select:
  assumes "\<And>x. x \<in> set xs \<Longrightarrow> x < bound" and "\<And>i. i < length xs \<Longrightarrow> test (m + i) = Some (P (m + i))"
    and body: "\<And>n s m. body n (s, m) = do { b \<leftarrow> test m; s \<leftarrow> (if b then insert_bit n s else Some s); Some (s, m + 1) }"
  shows "inv s \<Longrightarrow> \<exists>s'. fold_opt body xs (s, m) = Some (s', m + length xs) \<and> inv s' \<and>
      elems s' = elems s \<union> {y. \<exists>i<length xs. y = xs ! i \<and> P (m + i)}"
  using assms(1,2)
proof (induction xs arbitrary: s m)
  case (Cons x xs)
  have "\<exists>s1. (if P m then insert_bit x s else Some s) = Some s1 \<and> inv s1 \<and>
      elems s1 = elems s \<union> (if P m then {x} else {})"
    using insert_ok [OF Cons.prems(1), of x] Cons.prems(1) Cons.prems(2) [of x] by (cases "P m") simp_all
  then obtain s1 where s1: "(if P m then insert_bit x s else Some s) = Some s1" "inv s1"
      "elems s1 = elems s \<union> (if P m then {x} else {})"
    by blast
  have tst: "test (Suc m + i) = Some (P (Suc m + i))" if "i < length xs" for i
    using Cons.prems(3) [of "Suc i"] that by simp
  have xs: "y < bound" if "y \<in> set xs" for y
    using Cons.prems(2) that by simp
  from Cons.IH [OF s1(2) xs tst] obtain s2 where s2: "fold_opt body xs (s1, Suc m) = Some (s2, Suc m + length xs)" "inv s2"
      "elems s2 = elems s1 \<union> {y. \<exists>i<length xs. y = xs ! i \<and> P (Suc m + i)}"
    by blast
  have "body x (s, m) = Some (s1, Suc m)"
    unfolding body using Cons.prems(3) [of 0] s1(1) by simp
  then have "fold_opt body (x # xs) (s, m) = Some (s2, m + length (x # xs))"
    using s2(1) by simp
  moreover have "elems s2 = elems s \<union> {y. \<exists>i<length (x # xs). y = (x # xs) ! i \<and> P (m + i)}"
    unfolding s2(3) s1(3) by (auto simp: Ex_less_Suc2)
  ultimately show ?case
    using s2(2) by simp
qed simp

end

interpretation marks: bit_store set_bit_at "bset bits" "\<lambda>bm. BITS_TO_LONGS bits \<le> length bm" bits for bits
proof
  fix bm :: bitmap and n
  assume "BITS_TO_LONGS bits \<le> length bm" "n < bits"
  then show "\<exists>bm'. set_bit_at n bm = Some bm' \<and> BITS_TO_LONGS bits \<le> length bm' \<and> bset bits bm' = insert n (bset bits bm)"
    using set_bit_at_eq [of n bits bm] by auto
qed

subsection \<open>The mappings\<close>

text \<open>The map from the bits of \<open>old\<close> to those of \<open>new\<close> that the comments describe.\<close>

definition remap_pos :: "nat \<Rightarrow> bitmap \<Rightarrow> bitmap \<Rightarrow> nat \<Rightarrow> nat" where
  "remap_pos bits old new i =
     (if i \<in> bset bits old \<and> bset bits new \<noteq> {}
      then bits_list bits new ! (ordinal bits old i mod card (bset bits new)) else i)"

lemma bitmap_bitremap_eq:
  assumes "BITS_TO_LONGS bits \<le> length old" "BITS_TO_LONGS bits \<le> length new"
  shows "bitmap_bitremap i old new bits = Some (remap_pos bits old new i)"
proof (cases "i \<in> bset bits old \<and> bset bits new \<noteq> {}")
  case True
  then have "0 < card (bset bits new)"
    by (simp add: card_gt_0_iff)
  then show ?thesis
    using True bitmap_ord_to_pos_eq [OF assms(2), of "ordinal bits old i mod card (bset bits new)"]
    by (simp add: bitmap_bitremap_def bitmap_weight_eq [OF assms(2)] bitmap_pos_to_ord_eq [OF assms(1)] remap_pos_def zmod_int)
next
  case False
  then show ?thesis
    by (auto simp: bitmap_bitremap_def bitmap_weight_eq [OF assms(2)] bitmap_pos_to_ord_eq [OF assms(1)] remap_pos_def)
qed

lemma remap_pos_less: "i < bits \<Longrightarrow> remap_pos bits old new i < bits"
proof (cases "i \<in> bset bits old \<and> bset bits new \<noteq> {}")
  case True
  then have "ordinal bits old i mod card (bset bits new) < length (bits_list bits new)"
    by (simp add: length_bits_list card_gt_0_iff)
  from nth_mem [OF this] show ?thesis
    using True bset_less [of _ bits new] by (simp add: remap_pos_def)
qed (auto simp: remap_pos_def)

lemma bitmap_remap_eq:
  assumes "BITS_TO_LONGS bits \<le> length dst" "BITS_TO_LONGS bits \<le> length src"
    "BITS_TO_LONGS bits \<le> length old" "BITS_TO_LONGS bits \<le> length new"
  shows "\<exists>dst'. bitmap_remap False dst src old new bits = Some dst' \<and> bset bits dst' = remap_pos bits old new ` bset bits src"
proof -
  obtain dst1 where d: "bitmap_zero dst bits = Some dst1" "BITS_TO_LONGS bits \<le> length dst1" "bset bits dst1 = {}"
    using bitmap_zero_eq [OF assms(1)] assms(1) by auto
  let ?body = "\<lambda>oldbit dst. do { n \<leftarrow> bitmap_pos_to_ord old (int oldbit) bits;
     if n < 0 \<or> card (bset bits new) = 0 then set_bit_at oldbit dst
     else do { p \<leftarrow> bitmap_ord_to_pos new (n mod int (card (bset bits new))) bits; set_bit_at p dst } }"
  have body: "remap_pos bits old new x < bits \<and> ?body x s = set_bit_at (remap_pos bits old new x) s"
    if "x \<in> set (bits_list bits src)" for x s
  proof -
    have "x < bits"
      using that bset_less by simp
    moreover have "?body x s = do { p \<leftarrow> bitmap_bitremap x old new bits; set_bit_at p s }"
      by (simp add: bitmap_bitremap_def bitmap_weight_eq [OF assms(4)] bitmap_pos_to_ord_eq [OF assms(3)])
    ultimately show ?thesis
      using bitmap_bitremap_eq [OF assms(3,4), of x] by (simp add: remap_pos_less)
  qed
  have "bitmap_remap False dst src old new bits = fold_opt ?body (bits_list bits src) dst1"
    using for_each_all [OF assms(2), of ?body dst1] d(1) bitmap_weight_eq [OF assms(4)]
    by (simp add: bitmap_remap_def)
  then show ?thesis
    using marks.fold_image [of "bits_list bits src" "remap_pos bits old new" bits ?body dst1] body d(2,3) by auto
qed

lemma bitmap_fold_eq:
  assumes "BITS_TO_LONGS bits \<le> length dst" "BITS_TO_LONGS bits \<le> length orig" and "0 < sz"
  shows "\<exists>dst'. bitmap_fold False dst orig sz bits = Some dst' \<and> bset bits dst' = (\<lambda>i. i mod sz) ` bset bits orig"
proof -
  obtain dst1 where d: "bitmap_zero dst bits = Some dst1" "BITS_TO_LONGS bits \<le> length dst1" "bset bits dst1 = {}"
    using bitmap_zero_eq [OF assms(1)] assms(1) by auto
  let ?body = "\<lambda>oldbit dst. if sz = 0 then None else set_bit_at (oldbit mod sz) dst"
  have "bitmap_fold False dst orig sz bits = fold_opt ?body (bits_list bits orig) dst1"
    using for_each_all [OF assms(2), of ?body dst1] d(1) by (simp add: bitmap_fold_def)
  moreover have "x mod sz < bits \<and> ?body x s = set_bit_at (x mod sz) s" if "x \<in> set (bits_list bits orig)" for x s
    using that assms(3) bset_less by (auto intro: le_less_trans [OF mod_less_eq_dividend])
  ultimately show ?thesis
    using marks.fold_image [of "bits_list bits orig" "\<lambda>i. i mod sz" bits ?body dst1] d(2,3) by auto
qed

lemma bitmap_onto_eq:
  assumes "BITS_TO_LONGS bits \<le> length dst" "BITS_TO_LONGS bits \<le> length orig" "BITS_TO_LONGS bits \<le> length relmap"
  shows "\<exists>dst'. bitmap_onto False dst orig relmap bits = Some dst' \<and>
    bset bits dst' = {y. \<exists>m<card (bset bits relmap). y = bits_list bits relmap ! m \<and> m \<in> bset bits orig}"
proof -
  obtain dst1 where d: "bitmap_zero dst bits = Some dst1" "BITS_TO_LONGS bits \<le> length dst1" "bset bits dst1 = {}"
    using bitmap_zero_eq [OF assms(1)] assms(1) by auto
  let ?body = "\<lambda>n (dst, m). do { b \<leftarrow> test_bit m orig; dst \<leftarrow> (if b then set_bit_at n dst else Some dst); Some (dst, m + 1) }"
  have "card (bset bits relmap) \<le> bits"
    using card_mono [of "{..<bits}" "bset bits relmap"] bset_less [of _ bits relmap] by (auto simp: subset_iff)
  then have tst: "test_bit (0 + i) orig = Some (0 + i \<in> bset bits orig)" if "i < length (bits_list bits relmap)" for i
    using test_bit_eq [OF _ assms(2), of i] that by (simp add: length_bits_list)
  have xs: "x < bits" if "x \<in> set (bits_list bits relmap)" for x
    using that bset_less by simp
  have "\<exists>dst2. fold_opt ?body (bits_list bits relmap) (dst1, 0) = Some (dst2, 0 + length (bits_list bits relmap)) \<and>
      BITS_TO_LONGS bits \<le> length dst2 \<and>
      bset bits dst2 = bset bits dst1 \<union> {y. \<exists>i<length (bits_list bits relmap). y = bits_list bits relmap ! i \<and> 0 + i \<in> bset bits orig}"
    by (rule marks.fold_select [where test = "\<lambda>m. test_bit m orig"]) (use xs tst d(2) in simp_all)
  then obtain dst2 where d2: "fold_opt ?body (bits_list bits relmap) (dst1, 0) = Some (dst2, card (bset bits relmap))"
      "bset bits dst2 = {y. \<exists>m<card (bset bits relmap). y = bits_list bits relmap ! m \<and> m \<in> bset bits orig}"
    unfolding length_bits_list d(3) by auto
  have "bitmap_onto False dst orig relmap bits =
      do { (d, _) \<leftarrow> (do { i \<leftarrow> find_first_bit relmap bits; for_each_set_bit ?body relmap bits i (dst1, 0) }); Some d }"
    using d(1) by (simp add: bitmap_onto_def)
  then show ?thesis
    unfolding for_each_all [OF assms(3)] d2(1) using d2(2) by simp
qed

subsection \<open>Ordinals and positions are inverse\<close>

lemma ordinal_less: "pos \<in> bset bits bm \<Longrightarrow> ordinal bits bm pos < card (bset bits bm)"
  unfolding ordinal_def length_bits_list [symmetric]
  by (rule length_filter_less [of pos]) simp_all

lemma nth_ordinal:
  assumes "pos \<in> bset bits bm"
  shows "bits_list bits bm ! ordinal bits bm pos = pos"
proof -
  have pos: "pos < bits" "bm_bit bm pos"
    using assms by (simp_all add: bset_bm_bit)
  have "[0..<bits] = [0..<pos] @ pos # [Suc pos..<bits]"
    using pos(1) by (metis le_add_diff_inverse less_imp_le upt_add_eq_append upt_conv_Cons zero_le)
  then have "bits_list bits bm = filter (bm_bit bm) [0..<pos] @ pos # filter (bm_bit bm) [Suc pos..<bits]"
    using pos(2) by (simp add: bits_list_def)
  moreover have "ordinal bits bm pos = length (filter (bm_bit bm) [0..<pos])"
    using filter_below [of pos bits bm] pos(1) by (simp add: ordinal_def)
  ultimately show ?thesis
    by simp
qed

lemma ordinal_nth:
  assumes "n < card (bset bits bm)"
  shows "bits_list bits bm ! n \<in> bset bits bm \<and> ordinal bits bm (bits_list bits bm ! n) = n"
proof -
  have n: "n < length (bits_list bits bm)"
    using assms by (simp add: length_bits_list)
  then have m: "bits_list bits bm ! n \<in> bset bits bm"
    using nth_mem by fastforce
  then have "ordinal bits bm (bits_list bits bm ! n) < length (bits_list bits bm)"
    using ordinal_less by (simp add: length_bits_list)
  then show ?thesis
    using nth_ordinal [OF m] n m nth_eq_iff_index_eq [OF distinct_bits_list] by blast
qed

text \<open>
  Where a comment of the code says something else: a position that is not set is mapped to -1, not 0 (the
  example in the comment of \<open>bitmap_pos_to_ord\<close>), and \<open>bitmap_onto\<close> takes the position in
  \<open>relmap\<close>, not in \<open>orig\<close> (the loop in the comment there).
\<close>

lemma bitmap_pos_to_ord_unset:
  "BITS_TO_LONGS bits \<le> length bm \<Longrightarrow> pos \<notin> bset bits bm \<Longrightarrow> bitmap_pos_to_ord bm (int pos) bits = Some (- 1)"
  by (simp add: bitmap_pos_to_ord_eq)

lemma bitmap_onto_relmap:
  assumes "BITS_TO_LONGS bits \<le> length dst" "BITS_TO_LONGS bits \<le> length orig" "BITS_TO_LONGS bits \<le> length relmap"
  shows "\<exists>d. bitmap_onto False dst orig relmap bits = Some d \<and>
    bset bits d = {y. \<exists>m<card (bset bits relmap). y = bits_list bits relmap ! m \<and> m \<in> bset bits orig}"
  using bitmap_onto_eq [OF assms] by blast

subsection \<open>Properties\<close>

text \<open>C25: \<open>bitmap_pos_to_ord\<close> and \<open>bitmap_ord_to_pos\<close> are inverse to each other, on a
  bitmap of any contents: their loops end, the assertion of the first never fails, a set bit gets an
  ordinal below the weight that leads back to it, and an ordinal below the weight gets a set bit that leads
  back to it.\<close>

theorem ord_pos_inverse:
  assumes "BITS_TO_LONGS bits \<le> length bm"
  shows "\<exists>w. bitmap_weight bm bits = Some w \<and> w = card (bset bits bm) \<and>
    (\<forall>pos\<in>bset bits bm. \<exists>n<w. bitmap_pos_to_ord bm (int pos) bits = Some (int n) \<and> bitmap_ord_to_pos bm (int n) bits = Some pos) \<and>
    (\<forall>n<w. \<exists>pos\<in>bset bits bm. bitmap_ord_to_pos bm (int n) bits = Some pos \<and> bitmap_pos_to_ord bm (int pos) bits = Some (int n))"
  unfolding bitmap_weight_eq [OF assms] bitmap_pos_to_ord_eq [OF assms] bitmap_ord_to_pos_eq [OF assms]
  using ordinal_less [of _ bits bm] nth_ordinal [of _ bits bm] ordinal_nth [of _ bits bm] by auto

theorem ord_pos_inverse_witness:
  "bitmap_weight [0xf0] 32 = Some 4 \<and>
   (\<exists>pos\<in>bset 32 [0xf0]. bitmap_ord_to_pos [0xf0] 3 32 = Some pos \<and> bitmap_pos_to_ord [0xf0] (int pos) 32 = Some 3)"
proof -
  have w: "bitmap_weight [0xf0] 32 = Some 4"
    by code_simp
  then have "\<forall>n<4. \<exists>pos\<in>bset 32 [0xf0]. bitmap_ord_to_pos [0xf0] (int n) 32 = Some pos \<and> bitmap_pos_to_ord [0xf0] (int pos) 32 = Some (int n)"
    using ord_pos_inverse [of 32 "[0xf0]"] by (simp add: BITS_TO_LONGS_def)
  from this [rule_format, of 3] show ?thesis
    using w by simp
qed

text \<open>C35: What the mappings compute. \<open>bitmap_remap\<close> moves every bit that is set in
  \<open>old\<close> to the bit of \<open>new\<close> with the same ordinal (modulo the weight of \<open>new\<close>) and keeps
  the others, \<open>bitmap_bitremap\<close> does this to one position, and \<open>bitmap_fold\<close> with a size above
  zero leaves the remainders of the bits of \<open>orig\<close>. The bitmaps are different arrays.\<close>

theorem bitmap_mappings:
  assumes "BITS_TO_LONGS bits \<le> length dst" "BITS_TO_LONGS bits \<le> length src"
    "BITS_TO_LONGS bits \<le> length old" "BITS_TO_LONGS bits \<le> length new" and "0 < sz"
  shows "(\<exists>d. bitmap_remap False dst src old new bits = Some d \<and> bset bits d = remap_pos bits old new ` bset bits src) \<and>
    (\<forall>i. bitmap_bitremap i old new bits = Some (remap_pos bits old new i)) \<and>
    (\<exists>d. bitmap_fold False dst src sz bits = Some d \<and> bset bits d = (\<lambda>i. i mod sz) ` bset bits src)"
  using bitmap_remap_eq [OF assms(1-4)] bitmap_bitremap_eq [OF assms(3,4)] bitmap_fold_eq [OF assms(1,2,5)] by blast

theorem bitmap_mappings_witness:
  "bitmap_bitremap 5 [0xf0] [0xf000] 32 = Some (remap_pos 32 [0xf0] [0xf000] 5)"
  using bitmap_mappings [of 32 "[0]" "[0]" "[0xf0]" "[0xf000]" 1] by (simp add: BITS_TO_LONGS_def)

end
