(* ===== verification/Time_Conv.thy ===== *)
theory Time_Conv
  imports Kernel_Prelude
begin

text \<open>
  Calendar time: \<open>time_to_tm\<close> of \<open>kernel/time/timeconv.c\<close>, which splits a number of seconds
  into the fields of a date, and \<open>mktime\<close> of \<open>kernel/time.c\<close>, which computes the seconds
  of a date. The first computes with signed 32-bit numbers: an operation that overflows, which C leaves
  undefined, is \<open>None\<close>. The second computes with unsigned words, which wrap around.
\<close>

subsection \<open>From seconds to a date\<close>

text \<open>The division of C, which truncates, for a positive divisor.\<close>

definition c_div :: "int \<Rightarrow> int \<Rightarrow> int" where
  "c_div a b = (if 0 \<le> a then a div b else - (- a div b))"

definition c_mod :: "int \<Rightarrow> int \<Rightarrow> int" where
  "c_mod a b = a - c_div a b * b"

definition isleap :: "int \<Rightarrow> bool" where
  "isleap year \<longleftrightarrow> c_mod year 4 = 0 \<and> (c_mod year 100 \<noteq> 0 \<or> c_mod year 400 = 0)"

definition math_div :: "int \<Rightarrow> int \<Rightarrow> int" where
  "math_div a b = c_div a b - (if c_mod a b < 0 then 1 else 0)"

definition leaps_between :: "int \<Rightarrow> int \<Rightarrow> int option" where
  "leaps_between y1 y2 =
     do { p1 \<leftarrow> s32 (y1 - 1);
          let leaps1 = math_div p1 4 - math_div p1 100 + math_div p1 400;
          p2 \<leftarrow> s32 (y2 - 1);
          let leaps2 = math_div p2 4 - math_div p2 100 + math_div p2 400;
          s32 (leaps2 - leaps1) }"

definition mon_yday :: "bool \<Rightarrow> int list" where
  "mon_yday leap =
     (if leap then [0, 31, 60, 91, 121, 152, 182, 213, 244, 274, 305, 335, 366]
      else [0, 31, 59, 90, 120, 151, 181, 212, 243, 273, 304, 334, 365])"

record tm =
  tm_sec :: int
  tm_min :: int
  tm_hour :: int
  tm_mday :: int
  tm_mon :: int
  tm_year :: int
  tm_wday :: int
  tm_yday :: int

function below_loop :: "int \<Rightarrow> int \<Rightarrow> (int \<times> int) option" where
  "below_loop rem days =
     (if rem < 0 then do { rem \<leftarrow> s32 (rem + 86400); days \<leftarrow> s32 (days - 1); below_loop rem days } else Some (rem, days))"
  by pat_completeness auto
termination
  by (relation "measure (\<lambda>(rem, _). nat (- rem))") (auto simp: s32_def split: if_splits)

function above_loop :: "int \<Rightarrow> int \<Rightarrow> (int \<times> int) option" where
  "above_loop rem days =
     (if 86400 \<le> rem then do { rem \<leftarrow> s32 (rem - 86400); days \<leftarrow> s32 (days + 1); above_loop rem days } else Some (rem, days))"
  by pat_completeness auto
termination
  by (relation "measure (\<lambda>(rem, _). nat rem)") (auto simp: s32_def split: if_splits)

partial_function (option) year_loop :: "int \<Rightarrow> int \<Rightarrow> (int \<times> int) option" where
  "year_loop days y =
     (if days < 0 \<or> (if isleap y then 366 else 365) \<le> days
      then do { yg \<leftarrow> s32 (y + math_div days 365);
                leaps \<leftarrow> leaps_between y yg;
                past \<leftarrow> s32 ((yg - y) * 365 + leaps);
                days \<leftarrow> s32 (days - past);
                year_loop days yg }
      else Some (days, y))"

text \<open>The search for the month, from the given one down; \<open>None\<close> is a read before the table.\<close>

fun month_loop :: "int list \<Rightarrow> int \<Rightarrow> nat \<Rightarrow> nat option" where
  "month_loop ip days 0 = (if days < ip ! 0 then None else Some 0)"
| "month_loop ip days (Suc y) = (if days < ip ! Suc y then month_loop ip days y else Some (Suc y))"

definition time_to_tm :: "u32 \<Rightarrow> u32 \<Rightarrow> tm option" where
  "time_to_tm totalsecs offset =
     do { let days = c_div (sint totalsecs) 86400;
          let rem = c_mod (sint totalsecs) 86400;
          rem \<leftarrow> s32 (rem + sint offset);
          (rem, days) \<leftarrow> below_loop rem days;
          (rem, days) \<leftarrow> above_loop rem days;
          let hour = c_div rem 3600;
          let rem = c_mod rem 3600;
          w \<leftarrow> s32 (4 + days);
          let wday = c_mod w 7;
          (yday, y) \<leftarrow> year_loop days 1970;
          year \<leftarrow> s32 (y - 1900);
          let ip = mon_yday (isleap y);
          m \<leftarrow> month_loop ip yday 11;
          Some \<lparr>tm_sec = c_mod rem 60, tm_min = c_div rem 60, tm_hour = hour, tm_mday = yday - ip ! m + 1,
                tm_mon = int m, tm_year = year, tm_wday = (if wday < 0 then wday + 7 else wday), tm_yday = yday\<rparr> }"

subsection \<open>From a date to seconds\<close>

definition mktime :: "u32 \<Rightarrow> u32 \<Rightarrow> u32 \<Rightarrow> u32 \<Rightarrow> u32 \<Rightarrow> u32 \<Rightarrow> u32" where
  "mktime year0 mon0 day hour minute sec =
     (let mon = mon0 - 2;
          (mon, year) = (if 0 \<ge> sint mon then (mon + 12, year0 - 1) else (mon, year0))
      in (((year div 4 - year div 100 + year div 400 + 367 * mon div 12 + day + year * 365 - 719499) * 24 + hour) * 60 + minute) * 60 + sec)"

subsection \<open>The calendar\<close>

lemma c_mod_eq: "c_mod a b = (if 0 \<le> a then a mod b else - (- a mod b))"
proof -
  have "- a div b * b + - a mod b = - a"
    by (rule div_mult_mod_eq)
  then have "a + - a div b * b = - (- a mod b)"
    by linarith
  then show ?thesis
    by (simp add: c_mod_def c_div_def minus_div_mult_eq_mod)
qed

lemma math_div_eq: "0 < b \<Longrightarrow> math_div a b = a div b"
proof (cases "0 \<le> a")
  case True
  moreover assume "0 < b"
  ultimately show ?thesis
    by (simp add: math_div_def c_div_def c_mod_eq not_less)
next
  case False
  assume b: "0 < b"
  have "math_div a b = - (- a div b) - (if 0 < - a mod b then 1 else 0)"
    using False by (simp add: math_div_def c_div_def c_mod_eq)
  also have "\<dots> = a div b"
  proof (cases "a mod b = 0")
    case True
    then show ?thesis
      using b by (simp add: zdiv_zminus1_eq_if zmod_zminus1_eq_if)
  next
    case False
    then show ?thesis
      using b pos_mod_bound [OF b, of a] by (simp add: zdiv_zminus1_eq_if zmod_zminus1_eq_if)
  qed
  finally show ?thesis .
qed

lemma c_mod_eq_0: "c_mod a b = 0 \<longleftrightarrow> b dvd a"
  by (simp add: c_mod_eq flip: dvd_eq_mod_eq_0)

lemma isleap_eq: "isleap y \<longleftrightarrow> 4 dvd y \<and> (\<not> 100 dvd y \<or> 400 dvd y)"
  by (simp add: isleap_def c_mod_eq_0)

definition leaps_before :: "int \<Rightarrow> int" where
  "leaps_before y = (y - 1) div 4 - (y - 1) div 100 + (y - 1) div 400"

lemma s32_SomeI: "- 2147483648 \<le> x \<Longrightarrow> x < 2147483648 \<Longrightarrow> s32 x = Some x"
  by (simp add: s32_def)

lemma leaps_between_eq:
  assumes "- 1000000 \<le> y1" "y1 \<le> 1000000" "- 1000000 \<le> y2" "y2 \<le> 1000000"
  shows "leaps_between y1 y2 = Some (leaps_before y2 - leaps_before y1)"
proof -
  have bound: "- 2000000 \<le> leaps_before y" "leaps_before y \<le> 2000000" if "- 1000000 \<le> y" "y \<le> 1000000" for y
    using that unfolding leaps_before_def by linarith+
  have "s32 (y1 - 1) = Some (y1 - 1)" "s32 (y2 - 1) = Some (y2 - 1)"
    using assms by (simp_all add: s32_SomeI)
  moreover have "s32 (leaps_before y2 - leaps_before y1) = Some (leaps_before y2 - leaps_before y1)"
    using bound [OF assms(1,2)] bound [OF assms(3,4)] by (intro s32_SomeI) linarith+
  ultimately show ?thesis
    by (simp add: leaps_between_def math_div_eq leaps_before_def)
qed

lemma div_Suc: "0 \<le> r \<Longrightarrow> r < b \<Longrightarrow> (b * q + (r + 1)) div b = q + (if b dvd b * q + (r + 1) then 1 else 0)" for b q r :: int
proof (cases "r + 1 = b")
  case True
  assume "0 \<le> r" "r < b"
  then have "b * (q + 1) div b = q + 1" "b dvd b * (q + 1)"
    by simp_all
  moreover have "b * q + (r + 1) = b * (q + 1)"
    unfolding True by (simp add: algebra_simps)
  ultimately show ?thesis
    by (simp only: if_True)
next
  case False
  assume r: "0 \<le> r" "r < b"
  then have "(b * q + (r + 1)) div b = q" "(b * q + (r + 1)) mod b = r + 1"
    using int_div_pos_eq [OF refl, of "r + 1" b q] int_mod_pos_eq [OF refl, of "r + 1" b q] False by auto
  then show ?thesis
    unfolding dvd_eq_mod_eq_0 using r by simp
qed

lemma div_step: "0 < b \<Longrightarrow> y div b = (y - 1) div b + (if b dvd y then 1 else 0)" for b y :: int
proof -
  assume b: "0 < b"
  have "b * ((y - 1) div b) + ((y - 1) mod b + 1) = y"
    using mult_div_mod_eq [of b "y - 1"] by linarith
  then show ?thesis
    using div_Suc [of "(y - 1) mod b" b "(y - 1) div b"] pos_mod_sign [OF b] pos_mod_bound [OF b] by (simp only:)
qed

lemma leaps_step: "leaps_before (y + 1) = leaps_before y + (if isleap y then 1 else 0)"
proof -
  have sum: "a' - b' + c' = a - b + c + (if p \<and> (\<not> q \<or> r) then 1 else 0)"
    if "a' = a + (if p then 1 else 0)" "b' = b + (if q then 1 else 0)" "c' = c + (if r then 1 else 0)" "q \<longrightarrow> p" "r \<longrightarrow> q"
    for a b c a' b' c' :: int and p q r
    using that by (cases p; cases q; cases r) simp_all
  have "leaps_before (y + 1) = y div 4 - y div 100 + y div 400"
    unfolding leaps_before_def add_diff_cancel_right' ..
  also have "\<dots> = (y - 1) div 4 - (y - 1) div 100 + (y - 1) div 400 + (if 4 dvd y \<and> (\<not> 100 dvd y \<or> 400 dvd y) then 1 else 0)"
  proof (rule sum)
    have "(4 :: int) dvd 100" "(100 :: int) dvd 400"
      by simp_all
    then show "100 dvd y \<longrightarrow> 4 dvd y" "400 dvd y \<longrightarrow> 100 dvd y"
      by (blast intro: dvd_trans)+
  qed (rule div_step, simp)+
  finally show ?thesis
    unfolding isleap_eq leaps_before_def [of y] .
qed

lemma leaps_mono: "0 \<le> k \<Longrightarrow> leaps_before y \<le> leaps_before (y + k) \<and> leaps_before (y + k) \<le> leaps_before y + k"
proof (induction k rule: int_ge_induct)
  case (step k)
  have "leaps_before (y + (k + 1)) = leaps_before (y + k) + (if isleap (y + k) then 1 else 0)"
    using leaps_step [of "y + k"] by (simp add: add.assoc)
  then show ?case
    using step by simp
qed simp

text \<open>Days from 1 January 1970 to the first day of a year.\<close>

definition year_start :: "int \<Rightarrow> int" where
  "year_start y = 365 * (y - 1970) + (leaps_before y - leaps_before 1970)"

lemma year_start_next: "year_start (y + 1) = year_start y + (if isleap y then 366 else 365)"
  using leaps_step [of y] by (simp add: year_start_def algebra_simps)

lemma year_guess: "days - ((yg - y) * 365 + (leaps_before yg - leaps_before y)) = year_start y + days - year_start yg"
  by (simp add: year_start_def algebra_simps)

lemma year_start_1970 [simp]: "year_start 1970 = 0"
  by (simp add: year_start_def)

lemma year_start_mono: "0 \<le> k \<Longrightarrow> year_start y + 365 * k \<le> year_start (y + k)"
  using leaps_mono [of k y] by (simp add: year_start_def algebra_simps)

lemma year_bound: "365 * \<bar>y - 1970\<bar> \<le> \<bar>year_start y\<bar>"
  using year_start_mono [of "y - 1970" 1970] year_start_mono [of "1970 - y" y] by (cases "1970 \<le> y") simp_all

lemma scale: "365 * n \<le> m \<Longrightarrow> n \<le> m div 365" for n m :: int
  by linarith

subsection \<open>The loops\<close>

declare below_loop.simps [simp del] above_loop.simps [simp del]

lemma below_loop_eq:
  "- 2147483648 \<le> rem \<Longrightarrow> rem < 2147483648 \<Longrightarrow> \<bar>days * 86400 + rem\<bar> \<le> 8589934592 \<Longrightarrow>
   \<exists>k. below_loop rem days = Some (rem + 86400 * k, days - k) \<and> 0 \<le> rem + 86400 * k \<and> rem + 86400 * k < 2147483648"
proof (induction rem days rule: below_loop.induct)
  case (1 rem days)
  show ?case
  proof (cases "rem < 0")
    case True
    have ok: "s32 (rem + 86400) = Some (rem + 86400)" "s32 (days - 1) = Some (days - 1)"
      using 1(2-4) True by (intro s32_SomeI; linarith)+
    have "\<bar>(days - 1) * 86400 + (rem + 86400)\<bar> \<le> 8589934592"
      using 1(4) by simp
    then obtain k where "below_loop (rem + 86400) (days - 1) = Some (rem + 86400 + 86400 * k, days - 1 - k)"
        "0 \<le> rem + 86400 + 86400 * k" "rem + 86400 + 86400 * k < 2147483648"
      using 1(1) [OF True ok] 1(2) True by auto
    then show ?thesis
      using True ok by (intro exI [of _ "k + 1"]) (simp add: below_loop.simps [of rem] algebra_simps)
  next
    case False
    then show ?thesis
      using 1(3) by (intro exI [of _ 0]) (simp add: below_loop.simps [of rem])
  qed
qed

lemma above_loop_eq:
  "0 \<le> rem \<Longrightarrow> rem < 2147483648 \<Longrightarrow> \<bar>days * 86400 + rem\<bar> \<le> 8589934592 \<Longrightarrow>
   \<exists>k. above_loop rem days = Some (rem - 86400 * k, days + k) \<and> 0 \<le> rem - 86400 * k \<and> rem - 86400 * k < 86400"
proof (induction rem days rule: above_loop.induct)
  case (1 rem days)
  show ?case
  proof (cases "86400 \<le> rem")
    case True
    have ok: "s32 (rem - 86400) = Some (rem - 86400)" "s32 (days + 1) = Some (days + 1)"
      using 1(2-4) True by (intro s32_SomeI; linarith)+
    have "\<bar>(days + 1) * 86400 + (rem - 86400)\<bar> \<le> 8589934592"
      using 1(4) by simp
    then obtain k where "above_loop (rem - 86400) (days + 1) = Some (rem - 86400 - 86400 * k, days + 1 + k)"
        "0 \<le> rem - 86400 - 86400 * k" "rem - 86400 - 86400 * k < 86400"
      using 1(1) [OF True ok] 1(3) True by auto
    then show ?thesis
      using True ok by (intro exI [of _ "k + 1"]) (simp add: above_loop.simps [of rem] algebra_simps)
  next
    case False
    then show ?thesis
      using 1(2) by (intro exI [of _ 0]) (simp add: above_loop.simps [of rem])
  qed
qed

definition year_rank :: "int \<Rightarrow> nat" where
  "year_rank days = (if days < 0 then 400 + nat (- days) else nat days)"

lemma year_progress:
  assumes "days < 0 \<or> (if isleap y then 366 else 365) \<le> days" and "yg = y + days div 365"
  shows "year_rank (year_start y + days - year_start yg) < year_rank days"
proof -
  define k r where "k = days div 365" and "r = days mod 365"
  have d: "days = 365 * k + r" "0 \<le> r" "r < 365"
    by (simp_all add: k_def r_def)
  define L where "L = leaps_before (y + k) - leaps_before y"
  have new: "year_start y + days - year_start yg = r - L"
    unfolding assms(2) year_start_def L_def k_def [symmetric] using d(1) by simp
  show ?thesis
  proof (cases "days < 0")
    case True
    then have k: "k \<le> - 1"
      using d by linarith
    then have "L \<le> 0" "k \<le> L"
      using leaps_mono [of "- k" "y + k"] by (simp_all add: L_def)
    then have "0 \<le> r - L" "r - L \<le> 364 - k" "- k \<le> - days"
      using d k by linarith+
    then show ?thesis
      unfolding new year_rank_def using True by auto
  next
    case False
    then have days: "(if isleap y then 366 else 365) \<le> days"
      using assms(1) by simp
    then have "365 \<le> days"
      by (simp split: if_splits)
    then have k: "1 \<le> k"
      using d by linarith
    then have L: "0 \<le> L" "L \<le> k"
      using leaps_mono [of k y] by (simp_all add: L_def)
    show ?thesis
    proof (cases "r - L < 0")
      case True
      have "k \<noteq> 1"
      proof
        assume "k = 1"
        then have "L = (if isleap y then 1 else 0)"
          by (simp add: L_def leaps_step)
        then show False
          using True days d \<open>k = 1\<close> by (auto split: if_splits)
      qed
      then have "400 + (L - r) < days"
        using k d L by linarith
      then show ?thesis
        unfolding new year_rank_def using True False by auto
    next
      case nonneg: False
      then show ?thesis
        unfolding new year_rank_def using False \<open>365 \<le> days\<close> d L by auto
    qed
  qed
qed

lemma year_loop_ok:
  "year_rank days \<le> 1000000 \<Longrightarrow> \<bar>year_start y + days\<bar> \<le> 1000000 \<Longrightarrow>
   \<exists>d y'. year_loop days y = Some (d, y') \<and> year_start y + days = year_start y' + d \<and>
     0 \<le> d \<and> d < (if isleap y' then 366 else 365)"
proof (induction "year_rank days" arbitrary: days y rule: less_induct)
  case less
  have days: "\<bar>days\<bar> \<le> 1000000"
    using less.prems(1) by (auto simp: year_rank_def split: if_splits)
  then have y: "365 * \<bar>y - 1970\<bar> \<le> 2000000"
    using less.prems(2) year_bound [of y] by linarith
  show ?case
  proof (cases "days < 0 \<or> (if isleap y then 366 else 365) \<le> days")
    case True
    define yg d where "yg = y + days div 365" and "d = year_start y + days - year_start yg"
    have rank: "year_rank d < year_rank days"
      unfolding d_def by (rule year_progress [OF True yg_def])
    then have "\<bar>d\<bar> \<le> 1000000"
      using less.prems(1) by (auto simp: year_rank_def split: if_splits)
    moreover have "\<bar>yg - y\<bar> \<le> 3000"
      using days by (simp add: yg_def)
    moreover have past: "(yg - y) * 365 + (leaps_before yg - leaps_before y) = days - d"
      using year_guess [of days yg y, folded d_def] by linarith
    moreover have "\<bar>y - 1970\<bar> \<le> 5480"
      using scale [OF y] by simp
    then have "- 10000 \<le> y" "y \<le> 10000"
      by (simp_all add: abs_le_iff)
    ultimately have "s32 yg = Some yg" "s32 d = Some d" "s32 (days - d) = Some (days - d)"
      and leaps: "leaps_between y yg = Some (leaps_before yg - leaps_before y)"
      using days by (simp_all add: s32_SomeI leaps_between_eq)
    then have "year_loop days y = year_loop d yg"
      using True past [unfolded left_diff_distrib]
      by (subst year_loop.simps) (simp add: math_div_eq leaps left_diff_distrib flip: yg_def)
    then show ?thesis
      using less.hyps [OF rank, of yg] rank less.prems by (simp add: d_def)
  next
    case False
    then show ?thesis
      by (subst year_loop.simps) auto
  qed
qed

lemma month_loop_ok:
  "ip ! 0 \<le> d \<Longrightarrow> d < ip ! Suc n \<Longrightarrow> \<exists>m\<le>n. month_loop ip d n = Some m \<and> ip ! m \<le> d \<and> d < ip ! Suc m"
proof (induction n)
  case (Suc n)
  show ?case
  proof (cases "d < ip ! Suc n")
    case True
    then show ?thesis
      using Suc.IH [OF Suc.prems(1) True] by (auto intro: le_SucI)
  qed (use Suc.prems in auto)
qed auto

subsection \<open>Dates\<close>

definition valid_tm :: "tm \<Rightarrow> bool" where
  "valid_tm t \<longleftrightarrow> 0 \<le> tm_sec t \<and> tm_sec t < 60 \<and> 0 \<le> tm_min t \<and> tm_min t < 60 \<and> 0 \<le> tm_hour t \<and> tm_hour t < 24 \<and>
     0 \<le> tm_mon t \<and> tm_mon t \<le> 11 \<and> 1 \<le> tm_mday t \<and>
     tm_mday t \<le> mon_yday (isleap (tm_year t + 1900)) ! Suc (nat (tm_mon t)) - mon_yday (isleap (tm_year t + 1900)) ! nat (tm_mon t)"

text \<open>The days from 1 January 1970 to a date, and the seconds.\<close>

definition day_number :: "int \<Rightarrow> nat \<Rightarrow> int \<Rightarrow> int" where
  "day_number y m d = year_start y + mon_yday (isleap y) ! m + (d - 1)"

definition tm_days :: "tm \<Rightarrow> int" where
  "tm_days t = day_number (tm_year t + 1900) (nat (tm_mon t)) (tm_mday t)"

definition tm_seconds :: "tm \<Rightarrow> int" where
  "tm_seconds t = ((tm_days t * 24 + tm_hour t) * 60 + tm_min t) * 60 + tm_sec t"

lemma c_mod_wday: "(if c_mod a 7 < 0 then c_mod a 7 + 7 else c_mod a 7) = a mod 7"
proof -
  have "- a mod 7 = (if a mod 7 = 0 then 0 else 7 - a mod 7)" "0 \<le> a mod 7" "a mod 7 < 7"
    by (simp_all add: zmod_zminus1_eq_if)
  then show ?thesis
    by (cases "a mod 7 = 0") (auto simp: c_mod_eq)
qed

lemma c_div_mod: "c_div a b * b + c_mod a b = a"
  by (simp add: c_mod_def)

lemma split_day: "0 \<le> r \<Longrightarrow> r < 86400 \<Longrightarrow> (r div 3600 * 60 + r mod 3600 div 60) * 60 + r mod 3600 mod 60 = r \<and> r div 3600 < 24 \<and> r mod 3600 div 60 < 60" for r :: int
proof -
  assume r: "0 \<le> r" "r < 86400"
  define s q p t where "s = r mod 3600" and "q = r div 3600" and "p = s div 60" and "t = s mod 60"
  have "q * 3600 + s = r" "p * 60 + t = s"
    unfolding s_def q_def p_def t_def by (rule div_mult_mod_eq)+
  moreover have "0 \<le> s" "s < 3600" "0 \<le> t"
    by (simp_all add: s_def t_def)
  ultimately have "(q * 60 + p) * 60 + t = r \<and> q < 24 \<and> p < 60"
    using r by (simp add: algebra_simps)
  then show ?thesis
    by (simp only: s_def q_def p_def t_def)
qed

lemma time_to_tm_ok:
  assumes "s32 (c_mod (sint totalsecs) 86400 + sint offset) = Some (c_mod (sint totalsecs) 86400 + sint offset)"
  shows "\<exists>t. time_to_tm totalsecs offset = Some t \<and> valid_tm t \<and> tm_seconds t = sint totalsecs + sint offset \<and>
     tm_wday t = (4 + tm_days t) mod 7 \<and> tm_yday t = tm_days t - year_start (tm_year t + 1900)"
proof -
  let ?r = "c_mod (sint totalsecs) 86400 + sint offset" and ?d = "c_div (sint totalsecs) 86400"
  have in_range: "- 2147483648 \<le> sint x" "sint x < 2147483648" for x :: u32
    using sint_ge [of x] sint_lt [of x] by simp_all
  have total: "?d * 86400 + ?r = sint totalsecs + sint offset"
    using c_div_mod [of "sint totalsecs" 86400] by simp
  then have sum: "\<bar>?d * 86400 + ?r\<bar> \<le> 8589934592"
    using in_range [of totalsecs] in_range [of offset] by linarith
  have r32: "- 2147483648 \<le> ?r" "?r < 2147483648"
    using assms by (simp_all add: s32_def split: if_splits)
  obtain k where k: "below_loop ?r ?d = Some (?r + 86400 * k, ?d - k)" "0 \<le> ?r + 86400 * k" "?r + 86400 * k < 2147483648"
    using below_loop_eq [OF r32 sum] by blast
  have "\<bar>(?d - k) * 86400 + (?r + 86400 * k)\<bar> \<le> 8589934592"
    using sum by (simp add: algebra_simps)
  then obtain l where l: "above_loop (?r + 86400 * k) (?d - k) = Some (?r + 86400 * k - 86400 * l, ?d - k + l)"
      "0 \<le> ?r + 86400 * k - 86400 * l" "?r + 86400 * k - 86400 * l < 86400"
    using above_loop_eq [OF k(2,3)] by blast
  define r days where "r = ?r + 86400 * k - 86400 * l" and "days = ?d - k + l"
  have total: "days * 86400 + r = sint totalsecs + sint offset"
    using total by (simp add: r_def days_def algebra_simps)
  have r: "0 \<le> r" "r < 86400"
    using l(2,3) by (simp_all add: r_def)
  then have days_le: "\<bar>days\<bar> \<le> 50000"
    using total in_range [of totalsecs] in_range [of offset] by linarith
  then have rank: "year_rank days \<le> 1000000" "\<bar>year_start 1970 + days\<bar> \<le> 1000000"
    by (auto simp: year_rank_def)
  obtain d y where y: "year_loop days 1970 = Some (d, y)" "year_start 1970 + days = year_start y + d" "0 \<le> d"
      "d < (if isleap y then 366 else 365)"
    using year_loop_ok [OF rank] by blast
  have "d \<le> 366"
    using y(4) by (simp split: if_splits)
  then have "365 * \<bar>y - 1970\<bar> \<le> 51000"
    using year_bound [of y] y(2,3) days_le by simp
  from scale [OF this] have "\<bar>y - 1970\<bar> \<le> 200"
    by simp
  then have "- 1000 \<le> y" "y \<le> 3000"
    by (simp_all add: abs_le_iff)
  then have w: "s32 (4 + days) = Some (4 + days)" "s32 (y - 1900) = Some (y - 1900)"
    using days_le by (simp_all add: s32_SomeI)
  let ?ip = "mon_yday (isleap y)"
  obtain m where m: "m \<le> 11" "month_loop ?ip d 11 = Some m" "?ip ! m \<le> d" "d < ?ip ! Suc m"
  proof -
    have "?ip ! 0 = 0" "?ip ! Suc 11 = (if isleap y then 366 else 365)"
      by (simp_all add: mon_yday_def)
    then have "\<exists>m\<le>11. month_loop ?ip d 11 = Some m \<and> ?ip ! m \<le> d \<and> d < ?ip ! Suc m"
      using y(3,4) by (intro month_loop_ok) simp_all
    then show thesis
      using that by blast
  qed
  have c: "c_div r 3600 = r div 3600" "c_mod r 3600 = r mod 3600" "c_div (r mod 3600) 60 = r mod 3600 div 60"
      "c_mod (r mod 3600) 60 = r mod 3600 mod 60"
    using r(1) by (simp_all add: c_div_def c_mod_eq)
  let ?t = "\<lparr>tm_sec = r mod 3600 mod 60, tm_min = r mod 3600 div 60, tm_hour = r div 3600, tm_mday = d - ?ip ! m + 1,
    tm_mon = int m, tm_year = y - 1900, tm_wday = (4 + days) mod 7, tm_yday = d\<rparr>"
  have run: "time_to_tm totalsecs offset = Some ?t"
    unfolding time_to_tm_def Let_def assms bind.bind_lunit prod.case k(1) l(1) r_def [symmetric] days_def [symmetric]
    using y(1) m(2) w by (simp add: c c_mod_wday)
  then have days: "tm_days ?t = days"
    using y(2) by (simp add: tm_days_def day_number_def)
  have "tm_seconds ?t = sint totalsecs + sint offset"
    unfolding tm_seconds_def days using split_day [OF r] total by simp
  moreover have "valid_tm ?t"
    using conjunct2 [OF split_day [OF r]] r(1) m(1,3,4) by (simp add: valid_tm_def pos_imp_zdiv_nonneg_iff)
  moreover have "tm_yday ?t = tm_days ?t - year_start (tm_year ?t + 1900)"
    unfolding days using y(2) by simp
  ultimately show ?thesis
    using run days by (intro exI [of _ ?t]) simp
qed

subsection \<open>The formula of \<open>mktime\<close>\<close>

text \<open>Year and month with the year starting in March.\<close>

definition march_year :: "int \<Rightarrow> nat \<Rightarrow> int" where
  "march_year y m = (if m < 2 then y - 1 else y)"

definition march_month :: "nat \<Rightarrow> int" where
  "march_month m = (if m < 2 then int m + 11 else int m - 1)"

lemma months: "m \<le> 11 \<Longrightarrow> m \<in> {0, 1, 2, 3, 4, 5, 6, 7, 8, 9, 10, 11 :: nat}"
  by (auto simp: le_Suc_eq numeral_eq_Suc)

lemma mktime_days:
  assumes "m \<le> 11" "y' = march_year y m"
  shows "y' div 4 - y' div 100 + y' div 400 + 367 * march_month m div 12 + d + y' * 365 - 719499 = day_number y m d"
proof -
  have l: "y' div 4 - y' div 100 + y' div 400 = leaps_before (y' + 1)"
    by (simp add: leaps_before_def)
  have "leaps_before 1970 = 477"
    by (simp add: leaps_before_def)
  then have "year_start y = 365 * (y - 1970) + leaps_before y - 477"
    by (simp add: year_start_def)
  then have "leaps_before (y' + 1) + 367 * march_month m div 12 + d + y' * 365 - 719499 = day_number y m d"
    using months [OF assms(1)] leaps_step [of y] unfolding assms(2) day_number_def
    by (cases "isleap y") (auto simp: march_year_def march_month_def mon_yday_def)
  then show ?thesis
    unfolding l .
qed

lemma word_div: "0 \<le> a \<Longrightarrow> a < 4294967296 \<Longrightarrow> 0 < b \<Longrightarrow> b < 4294967296 \<Longrightarrow>
    (word_of_int a :: u32) div word_of_int b = word_of_int (a div b)"
  by (simp add: word_div_def uint_word_of_int)

lemma mktime_eq:
  assumes "1 \<le> y" "y < 4294967296" "m \<le> 11"
  shows "mktime (word_of_int y) (of_nat m + 1) (word_of_int d) (word_of_int h) (word_of_int mi) (word_of_int s) =
    word_of_int (((day_number y m d * 24 + h) * 60 + mi) * 60 + s)"
proof -
  let ?y = "march_year y m" and ?m = "march_month m"
  have y: "0 \<le> ?y" "?y < 4294967296" and m: "0 \<le> 367 * ?m" "367 * ?m < 4294967296"
    using assms by (simp_all add: march_year_def march_month_def)
  have div: "(word_of_int ?y :: u32) div 4 = word_of_int (?y div 4)" "(word_of_int ?y :: u32) div 100 = word_of_int (?y div 100)"
      "(word_of_int ?y :: u32) div 400 = word_of_int (?y div 400)"
    using word_div [OF y, of 4] word_div [OF y, of 100] word_div [OF y, of 400] by simp_all
  have div12: "367 * (word_of_int ?m :: u32) div 12 = word_of_int (367 * ?m div 12)"
    using word_div [OF m, of 12] by simp
  have mon: "(of_nat m + 1 - 2 :: u32) = word_of_int (int m - 1)"
    by simp
  have "sint (word_of_int (int m - 1) :: u32) = int m - 1"
    unfolding signed_of_int using assms(3) by (simp add: signed_take_bit_int_eq_self)
  then have "(if 0 \<ge> sint (of_nat m + 1 - 2 :: u32) then (of_nat m + 1 - 2 + 12, word_of_int y - 1) else (of_nat m + 1 - 2, word_of_int y)) =
      (word_of_int ?m :: u32, word_of_int ?y :: u32)"
    unfolding mon by (auto simp: march_year_def march_month_def)
  then have "mktime (word_of_int y) (of_nat m + 1) (word_of_int d) (word_of_int h) (word_of_int mi) (word_of_int s) =
     (((word_of_int (?y div 4) - word_of_int (?y div 100) + word_of_int (?y div 400) + word_of_int (367 * ?m div 12) + word_of_int d
       + word_of_int ?y * 365 - 719499) * 24 + word_of_int h) * 60 + word_of_int mi) * 60 + word_of_int s"
    unfolding mktime_def Let_def by (simp only: prod.case div div12)
  also have "\<dots> = word_of_int (((day_number y m d * 24 + h) * 60 + mi) * 60 + s)"
    unfolding mktime_days [OF assms(3) refl, symmetric] by simp
  finally show ?thesis .
qed

lemma tm_year_bounds:
  assumes "valid_tm t" "0 \<le> tm_days t" "tm_days t < 50000"
  shows "1970 \<le> tm_year t + 1900 \<and> tm_year t + 1900 < 2110"
proof -
  let ?y = "tm_year t + 1900" and ?ip = "mon_yday (isleap (tm_year t + 1900))" and ?m = "nat (tm_mon t)"
  have m: "?m \<le> 11" "1 \<le> tm_mday t" "tm_mday t \<le> ?ip ! Suc ?m - ?ip ! ?m"
    using assms(1) by (simp_all add: valid_tm_def nat_le_iff)
  have "0 \<le> ?ip ! ?m" "?ip ! Suc ?m \<le> 366"
    using months [OF m(1)] by (auto simp: mon_yday_def)
  moreover have d: "tm_days t = year_start ?y + ?ip ! ?m + (tm_mday t - 1)"
    by (simp add: tm_days_def day_number_def)
  ultimately have y: "year_start ?y \<le> tm_days t" "tm_days t < year_start ?y + 366"
    using m(2,3) by linarith+
  have z: "year_start 1970 = 0"
    by (simp add: year_start_def)
  have ge: "1970 \<le> ?y"
  proof (rule ccontr)
    assume "\<not> 1970 \<le> ?y"
    then have "?y < 1970"
      by simp
    have "tm_days t < year_start (?y + 1)"
    proof -
      have "?ip ! Suc ?m \<le> (if isleap ?y then 366 else 365)"
        using months [OF m(1)] by (auto simp: mon_yday_def)
      then show ?thesis
        using d m(2,3) year_start_next [of ?y] by linarith
    qed
    moreover have "year_start (?y + 1) \<le> year_start 1970"
      using year_start_mono [of "1970 - (?y + 1)" "?y + 1"] \<open>?y < 1970\<close> by simp
    ultimately show False
      using assms(2) z by linarith
  qed
  have "365 * (?y - 1970) \<le> year_start ?y"
    using year_start_mono [of "?y - 1970" 1970] ge z by (simp add: add.commute)
  then show ?thesis
    using ge y(1) assms(3) by simp
qed

lemma mktime_valid:
  assumes "valid_tm t" "0 \<le> tm_seconds t" "tm_seconds t < 2 ^ 32"
  shows "uint (mktime (word_of_int (tm_year t + 1900)) (word_of_int (tm_mon t + 1)) (word_of_int (tm_mday t))
    (word_of_int (tm_hour t)) (word_of_int (tm_min t)) (word_of_int (tm_sec t))) = tm_seconds t"
proof -
  have v: "0 \<le> tm_mon t" "tm_mon t \<le> 11" "0 \<le> tm_hour t" "tm_hour t < 24" "0 \<le> tm_min t" "tm_min t < 60" "0 \<le> tm_sec t" "tm_sec t < 60"
    using assms(1) by (simp_all add: valid_tm_def)
  have "tm_days t * 86400 + (tm_hour t * 3600 + tm_min t * 60 + tm_sec t) = tm_seconds t"
    by (simp add: tm_seconds_def algebra_simps)
  moreover have "tm_seconds t < 4294967296"
    using assms(3) by simp
  ultimately have "0 \<le> tm_days t" "tm_days t < 50000"
    using assms(2) v by linarith+
  then have y: "1970 \<le> tm_year t + 1900" "tm_year t + 1900 < 2110"
    using tm_year_bounds [OF assms(1)] by simp_all
  have "(word_of_int (tm_mon t + 1) :: u32) = of_nat (nat (tm_mon t)) + 1"
    using v(1) by simp
  then have "mktime (word_of_int (tm_year t + 1900)) (word_of_int (tm_mon t + 1)) (word_of_int (tm_mday t))
      (word_of_int (tm_hour t)) (word_of_int (tm_min t)) (word_of_int (tm_sec t)) = word_of_int (tm_seconds t)"
    using mktime_eq [of "tm_year t + 1900" "nat (tm_mon t)" "tm_mday t" "tm_hour t" "tm_min t" "tm_sec t"] y v(2)
    by (simp add: tm_seconds_def tm_days_def)
  then show ?thesis
    using assms(2,3) by (simp add: uint_word_of_int)
qed

subsection \<open>Properties\<close>

text \<open>C22: \<open>time_to_tm\<close> returns for every 32-bit time and offset, before 1970 too, unless adding the offset
  to the seconds of the day overflows: the guesses of the year converge and nothing else overflows. Its fields
  are a date of the Gregorian calendar and a time of day which are exactly the given number of seconds after
  the start of 1970, with the right day of the week and of the year.\<close>

theorem time_to_tm_exact:
  assumes "- (2 ^ 31) \<le> c_mod (sint totalsecs) 86400 + sint offset" "c_mod (sint totalsecs) 86400 + sint offset < 2 ^ 31"
  shows "\<exists>t. time_to_tm totalsecs offset = Some t \<and> valid_tm t \<and> tm_seconds t = sint totalsecs + sint offset \<and>
     tm_wday t = (4 + tm_days t) mod 7 \<and> tm_yday t = tm_days t - year_start (tm_year t + 1900)"
  by (rule time_to_tm_ok) (use assms in \<open>simp add: s32_def\<close>)

theorem time_to_tm_exact_witness:
  "\<exists>t. time_to_tm (- 1) 3600 = Some t \<and> valid_tm t \<and> tm_seconds t = 3599 \<and>
     tm_wday t = (4 + tm_days t) mod 7 \<and> tm_yday t = tm_days t - year_start (tm_year t + 1900)"
  using time_to_tm_exact [of "- 1" 3600] by (simp add: c_mod_def c_div_def)

text \<open>C37: \<open>mktime\<close> computes the seconds of every date of the Gregorian calendar from 1970 until they
  exceed 32 bits, in February 2106, although its intermediate results wrap around.\<close>

theorem mktime_exact:
  assumes "valid_tm t" "0 \<le> tm_seconds t" "tm_seconds t < 2 ^ 32"
  shows "uint (mktime (word_of_int (tm_year t + 1900)) (word_of_int (tm_mon t + 1)) (word_of_int (tm_mday t))
    (word_of_int (tm_hour t)) (word_of_int (tm_min t)) (word_of_int (tm_sec t))) = tm_seconds t"
  by (rule mktime_valid [OF assms])

theorem mktime_exact_witness:
  "uint (mktime 2106 2 7 6 28 15) = 4294967295"
  using mktime_exact [of "\<lparr>tm_sec = 15, tm_min = 28, tm_hour = 6, tm_mday = 7, tm_mon = 1, tm_year = 206, tm_wday = 0, tm_yday = 0\<rparr>"]
  by (simp add: valid_tm_def tm_seconds_def tm_days_def day_number_def year_start_def leaps_before_def mon_yday_def isleap_eq)

text \<open>C32: \<open>mktime\<close> inverts \<open>time_to_tm\<close> on all times from 1970 on that a \<open>time_t\<close> can
  hold.\<close>

theorem mktime_inverts:
  assumes "0 \<le> sint secs"
  shows "\<exists>t. time_to_tm secs 0 = Some t \<and>
    mktime (word_of_int (tm_year t + 1900)) (word_of_int (tm_mon t + 1)) (word_of_int (tm_mday t))
      (word_of_int (tm_hour t)) (word_of_int (tm_min t)) (word_of_int (tm_sec t)) = secs"
proof -
  have "0 \<le> c_mod (sint secs) 86400" "c_mod (sint secs) 86400 < 86400"
    using assms by (simp_all add: c_mod_eq)
  then have "s32 (c_mod (sint secs) 86400 + sint 0) = Some (c_mod (sint secs) 86400 + sint 0)"
    by (simp add: s32_SomeI)
  from time_to_tm_ok [OF this] obtain t where t: "time_to_tm secs 0 = Some t" "valid_tm t" "tm_seconds t = sint secs"
    by auto
  have eq: "sint secs = uint secs"
  proof (rule sint_small)
    have "unat secs < 2 ^ 31"
      using assms by (simp add: sint_nonneg_iff)
    then show "uint secs < 2 ^ 31"
      by (subst (asm) of_nat_less_iff [where 'a = int, symmetric]) simp
  qed
  have "0 \<le> tm_seconds t" "tm_seconds t < 2 ^ 32"
    unfolding t(3) eq using uint_bounded [of secs] by simp_all
  from mktime_valid [OF t(2) this, unfolded t(3) eq] show ?thesis
    using t(1) by (intro exI [of _ t] conjI) (simp_all only: word_uint_eq_iff)
qed

theorem mktime_inverts_witness:
  "\<exists>t. time_to_tm 951782400 0 = Some t \<and>
    mktime (word_of_int (tm_year t + 1900)) (word_of_int (tm_mon t + 1)) (word_of_int (tm_mday t))
      (word_of_int (tm_hour t)) (word_of_int (tm_min t)) (word_of_int (tm_sec t)) = 951782400"
  using mktime_inverts [of 951782400] by simp

end
