(* ===== verification/Spec2Isabelle.thy ===== *)
theory Spec2Isabelle
  imports Reciprocal Bpf_Socket Kfifo_Api Put_Dec Semaphore Rwsem Extable Range List_Sort Bitmap_Region Bitmap_Shift Bitmap_Map Time_Conv
begin

text \<open>
  A verification library for parts of the Linux kernel in \<open>src/linux-2.6.39\<close>, which
  \<open>src/sandbox.sh\<close> builds for i386 and starts together with BusyBox. Paths below are relative to
  \<open>src/linux-2.6.39\<close>.

  \<^bold>\<open>What the parts are and how they interact.\<close>
  The packet filter (\<open>net/core/filter.c\<close>) runs programs that users attach to a socket on every packet
  that arrives there. It reads the packet through the accessors of \<open>net/core/skbuff.c\<close>, searches
  netlink attributes with \<open>lib/nlattr.c\<close> and divides with \<open>lib/reciprocal_div.c\<close>; the memory
  of an attached program is charged to the socket (\<open>net/core/sock.c\<close>). The FIFO of
  \<open>kernel/kfifo.c\<close> is the queue between interrupt handlers, drivers and user space. The
  semaphores of \<open>kernel/semaphore.c\<close> and \<open>lib/rwsem-spinlock.c\<close> make tasks wait for each
  other. The sort of \<open>lib/sort.c\<close> prepares the exception tables (\<open>lib/extable.c\<close>) that a page
  fault in kernel mode searches, and the address ranges of \<open>kernel/range.c\<close> at boot;
  \<open>lib/list_sort.c\<close> sorts linked lists. The bitmaps of \<open>lib/bitmap.c\<close>, searched by
  \<open>lib/find_next_bit.c\<close> and counted by \<open>lib/hweight.c\<close>, keep sets of processors, interrupts and
  free regions. \<open>lib/string.c\<close>, \<open>lib/kstrtox.c\<close> and the number conversions of
  \<open>lib/vsprintf.c\<close> read the texts that come from the command line and from \<open>sysfs\<close>.
  \<open>kernel/time/timeconv.c\<close> and \<open>mktime\<close> convert between seconds and calendar dates.

  \<^bold>\<open>Conventions.\<close> An unsigned C integer is a word of its width and wraps around; a signed one is an
  integer, read from a word by \<open>sint\<close> where the code converts. A pointer into an object is an offset
  into the list of its elements. An access outside the object, a failed \<open>BUG_ON\<close> and a
  loop that does not end are \<open>None\<close>, and so is a signed overflow where the arguments can cause one
  (\<open>s32\<close> in the calendar, \<open>int_sum\<close> and \<open>region_size\<close> in the regions), so that a theorem whose conclusion is \<open>Some\<close> says that
  none of them happens. A negative return value that stands for an error is the left summand of a sum.
  Whatever the code gets from outside the modelled parts (results of \<open>kmalloc\<close>, readable user memory,
  pending signals, the order in which tasks run) is an argument or a freely chosen event.

  \<^bold>\<open>Shared theories.\<close>
  \<^item> \<open>Kernel_Prelude\<close>: integer types, error numbers, bounded reads and writes, checked signed arithmetic, and the locales
    \<open>transition_system\<close>, \<open>event_system\<close> and \<open>bounded_response\<close> for invariants and bounded
    waiting of systems of steps.
  \<^item> \<open>Queue_Interface\<close>: the locale \<open>bounded_queue\<close>, the contract of a queue, from which the order
    of the delivered elements is proved once; \<open>Kfifo_Api\<close> interprets it for elements and for records.
  \<^item> \<open>Ring_Buffer\<close>: lists used as rings.

  \<^bold>\<open>Networking.\<close>
  \<^item> \<open>Reciprocal\<close>: \<open>reciprocal_value\<close>, \<open>reciprocal_divide\<close>; how far the quotient is exact.
  \<^item> \<open>Skbuff\<close>: \<open>struct sk_buff\<close> as the record \<open>sk_buff\<close>, \<open>skb_copy_bits\<close>,
    \<open>skb_header_pointer\<close>; they read the packet as one flat byte string.
  \<^item> \<open>Nlattr\<close>: \<open>nla_ok\<close>, \<open>nla_next\<close>, \<open>nla_find\<close>, \<open>nla_find_nested\<close> on bytes.
  \<^item> \<open>Bpf_Filter\<close>: every instruction of \<open>sk_run_filter\<close>, and the checker \<open>sk_chk_filter\<close> with
    \<open>check_load_and_stores\<close>. \<open>Bpf_Safety\<close>: what the checker guarantees of a program it accepts.
  \<^item> \<open>Bpf_Socket\<close>: \<open>sk_attach_filter\<close>, \<open>sk_detach_filter\<close>, \<open>sk_filter\<close> and the
    charge of the socket, as a step relation; an accepted program runs safely to a verdict (two netlink
    attribute loads apart, whose guards are wrong), attaching is
    atomic, and the charge is exact in every reachable state. The locale \<open>filter_engine\<close> is what the
    socket relies on of the checker and the interpreter.

  \<^bold>\<open>Queues.\<close>
  \<^item> \<open>Kfifo\<close>, \<open>Kfifo_User\<close>, \<open>Kfifo_Record\<close>: \<open>struct __kfifo\<close> as the record \<open>kfifo\<close>
    with free-running 32-bit indices, and the functions of \<open>kernel/kfifo.c\<close>.
  \<^item> \<open>Kfifo_Api\<close>: the macros of \<open>include/linux/kfifo.h\<close>; elements and records leave in the order
    they came, and copies from user space that fault leave whole elements or nothing.

  \<^bold>\<open>Synchronisation.\<close>
  \<^item> \<open>Semaphore\<close>, \<open>Rwsem\<close>: one event per critical section, any number of tasks in any order;
    conservation of the permits, mutual exclusion, and the number of releases a waiting task waits for.
    A semaphore may be released by anybody, also by a task or an interrupt handler that never took it; the
    counters \<open>downs\<close> and \<open>ups\<close> are not in the code, they count for the statements. In
    \<open>Rwsem\<close> only a holder releases, and the reader count does not wrap around.

  \<^bold>\<open>Sorting and tables.\<close>
  \<^item> \<open>Sort\<close>: \<open>sort\<close> on bytes with its two swap functions, shown to implement a heap sort. The
    locale \<open>comparator\<close> is the contract of the comparison; \<open>Extable\<close>, \<open>Range\<close> and
    \<open>List_Sort\<close> interpret it for the comparisons of the code.
  \<^item> \<open>Extable\<close>: sorting, searching and trimming exception tables, \<open>fixup_exception\<close>.
  \<^item> \<open>Range\<close>: adding, merging, subtracting, cleaning and sorting address ranges.
  \<^item> \<open>List_Sort\<close>: the bottom-up merge sort; sorted, stable, with consistent links.

  \<^bold>\<open>Bitmaps.\<close> \<open>bset\<close> maps a bitmap to the set of its bit numbers; the lemmas say what each
  routine does to this set.
  \<^item> \<open>Bitmap\<close>: tests, Boolean operations, runs of bits. \<open>Bitmap_Shift\<close>: shifts.
    \<open>Bitmap_Find\<close>: bit searches and the search for an aligned free area.
    \<open>Bitmap_Region\<close>: allocation of aligned regions, disjoint in every run whose sizes fit an \<open>int\<close>.
  \<^item> \<open>Hweight\<close>: population counts. \<open>Bitmap_Map\<close>: weight, ordinals and positions, remapping,
    translation and folding, proved over the locale \<open>bit_store\<close>.

  \<^bold>\<open>Text and time.\<close>
  \<^item> \<open>Kstring\<close>: the functions of \<open>lib/string.c\<close> and the table of \<open>lib/ctype.c\<close>, characterised by
    the C string \<open>cstr\<close> at a pointer.
  \<^item> \<open>Kstrtox\<close>: \<open>kstrtoull\<close> and its relatives accept exactly the numerals that fit, and
    \<open>simple_strtoull\<close> and its relatives; \<open>numeral_of\<close> is the value of a numeral.
  \<^item> \<open>Put_Dec\<close>: \<open>put_dec\<close>, the decimal conversion without divisions, and the hexadecimal digits of bytes;
    reading the digits gives the number and the bytes back.
  \<^item> \<open>Time_Conv\<close>: \<open>time_to_tm\<close> on 32-bit signed numbers and \<open>mktime\<close>, exact on the Gregorian
    calendar and inverse to each other.

  \<^bold>\<open>Bounds and termination.\<close> No definition has fuel. Loops are structural recursion or functions with
  a measure; the loops of the sort, the bitmap searches and iterations and the search for the year, whose
  end depends on an argument about the data, are partial functions into an option type, and the theorems on
  them show that the result is \<open>Some\<close>. Sizes are bounded only where a statement says so.

  \<^bold>\<open>Not modelled.\<close> Assembly, drivers, memory management, the scheduler, file systems, the protocols above
  the socket filter and the other large subsystems work on hardware or on graphs of shared,
  reference-counted objects under several processors' memory orders, for which there is no model here;
  what the modelled code sees of them is an argument. Of the modelled files the following is left out:
  scatterlists of \<open>kernel/kfifo.c\<close> (DMA), the text conversions of \<open>lib/bitmap.c\<close>, the
  rest of \<open>lib/vsprintf.c\<close> (formats with variable argument lists and symbol tables),
  \<open>lib/rwsem.c\<close> (atomic exchange-and-add), the PNP BIOS recovery in
  \<open>arch/x86/mm/extable.c\<close>, and the time spans in ticks of \<open>kernel/time.c\<close>. i386 has
  assembly versions of some string functions, of the bit searches and of the population counts; the portable
  versions are modelled. BusyBox is almost entirely input and output through a C library that is not part of
  the sources, and the scripts only start a container and an emulator.
\<close>

end
